(* ===== verification/Prelude.thy ===== *)
theory Prelude
  imports Main "HOL-Library.Word"
begin

text \<open>
  Shared vocabulary of the development.

  A \<^verbatim>\<open>StringView\<close>, \<^verbatim>\<open>String\<close> or \<^verbatim>\<open>ByteString\<close> of the program is its sequence of bytes, a
  \<^typ>\<open>string\<close>; a \<^verbatim>\<open>u32\<close> code point is a \<^typ>\<open>nat\<close> (no operation of the program on code points
  wraps around).  A function of the program that can fail is a function into
  \<open>error + 'a\<close>: \<open>Failure\<close> is an empty \<^verbatim>\<open>Optional\<close> or an \<^verbatim>\<open>ErrorOr\<close> that holds an error, and
  \<open>Verify_failed\<close> is a \<^verbatim>\<open>VERIFY\<close> that does not hold (the process aborts), an index past the
  end of a \<^verbatim>\<open>Vector\<close>, or an access to an empty \<^verbatim>\<open>Optional\<close>.
\<close>

unbundle bit_operations_syntax

type_synonym code_point = nat

abbreviation cp :: "char \<Rightarrow> nat" where
  "cp \<equiv> of_char"

named_theorems ak_defs "definitions of the character predicates of AK"
named_theorems byte_arith "bit operations on bytes as arithmetic"

subsection \<open>Results\<close>

datatype error = Verify_failed | Failure

type_synonym 'a result = "error + 'a"

definition bind_result :: "'e + 'a \<Rightarrow> ('a \<Rightarrow> 'e + 'b) \<Rightarrow> 'e + 'b" where
  "bind_result r f = (case r of Inl e \<Rightarrow> Inl e | Inr a \<Rightarrow> f a)"

definition verify :: "bool \<Rightarrow> unit result" where
  "verify b = (if b then Inr () else Inl Verify_failed)"

definition of_optional :: "'a option \<Rightarrow> 'a result" where
  "of_optional q = (case q of None \<Rightarrow> Inl Failure | Some a \<Rightarrow> Inr a)"

lemma bind_result_Inl [simp]: "bind_result (Inl e) f = Inl e"
  by (simp add: bind_result_def)

lemma bind_result_Inr [simp]: "bind_result (Inr a) f = f a"
  by (simp add: bind_result_def)

lemma bind_result_eq_Inr [simp]:
  "bind_result r f = Inr b \<longleftrightarrow> (\<exists>a. r = Inr a \<and> f a = Inr b)"
  by (cases r) auto

lemma bind_result_eq_Inl:
  "bind_result r f = Inl e \<longleftrightarrow> r = Inl e \<or> (\<exists>a. r = Inr a \<and> f a = Inl e)"
  by (cases r) auto

lemma bind_result_cong [fundef_cong]:
  "r = r' \<Longrightarrow> (\<And>a. r' = Inr a \<Longrightarrow> f a = g a) \<Longrightarrow> bind_result r f = bind_result r' g"
  by (cases r') auto

lemma bind_result_no_error:
  "r \<noteq> Inl e \<Longrightarrow> (\<And>a. r = Inr a \<Longrightarrow> f a \<noteq> Inl e) \<Longrightarrow> bind_result r f \<noteq> Inl e"
  by (cases r) auto

lemma no_verify_cases: "r \<noteq> Inl Verify_failed \<Longrightarrow> r = Inl Failure \<or> (\<exists>a. r = Inr a)"
  by (cases r; cases "projl r") auto

lemma if_no_error:
  "(b \<Longrightarrow> r \<noteq> Inl e) \<Longrightarrow> (\<not> b \<Longrightarrow> s \<noteq> Inl e) \<Longrightarrow> (if b then r else s) \<noteq> Inl e"
  by simp

lemma verify_eq_Inr [simp]: "verify b = Inr u \<longleftrightarrow> b"
  by (simp add: verify_def)

lemma verify_True [simp]: "verify True = Inr ()"
  by (simp add: verify_def)

lemma of_optional_simps [simp]:
  "of_optional None = Inl Failure" "of_optional (Some a) = Inr a"
  by (simp_all add: of_optional_def)

lemma of_optional_eq_Inr [simp]: "of_optional q = Inr a \<longleftrightarrow> q = Some a"
  by (cases q) auto

lemma of_optional_not_verify [simp]: "of_optional q \<noteq> Inl Verify_failed"
  by (cases q) auto

subsection \<open>Bytes\<close>

lemma cp_less_256 [simp]: "cp c < 256"
  by (rule nat_of_char_less_256)

lemma cp_char_of [simp]: "n < 256 \<Longrightarrow> cp (char_of n) = n"
  by (simp add: of_char_of)

lemma char_of_eq_iff: "n < 256 \<Longrightarrow> char_of n = c \<longleftrightarrow> n = cp c"
  by (metis cp_char_of char_of_char)

lemma cp_eq_iff: "cp c = cp d \<longleftrightarrow> c = d"
  by (rule of_char_eq_iff)

text \<open>
  The masks and shifts of the UTF-8 code as remainders and quotients.  A value that is
  or-ed into cleared low bits is added.
\<close>

lemma and_mask_nat: "(x::nat) AND (2 ^ n - 1) = x mod 2 ^ n"
  by (metis mask_eq_exp_minus_1 take_bit_eq_mask take_bit_eq_mod)

lemma and_low_bits [byte_arith]:
  "(x::nat) AND 0x07 = x mod 8" "x AND 0x0f = x mod 16" "x AND 0x1f = x mod 32"
  "x AND 0x3f = x mod 64" "x AND 0x7f = x mod 128" "x AND 0xff = x mod 256"
  using and_mask_nat [of x 3] and_mask_nat [of x 4] and_mask_nat [of x 5]
    and_mask_nat [of x 6] and_mask_nat [of x 7] and_mask_nat [of x 8]
  by simp_all

lemma and_high_mask_nat: "(x::nat) AND push_bit n (mask k) = (x div 2 ^ n mod 2 ^ k) * 2 ^ n"
proof -
  have "x AND push_bit n (mask k) = push_bit n (take_bit k (drop_bit n x))"
    by (rule bit_eqI)
      (auto simp: bit_and_iff bit_push_bit_iff bit_take_bit_iff bit_drop_bit_eq bit_mask_iff)
  then show ?thesis
    by (simp add: push_bit_eq_mult take_bit_eq_mod drop_bit_eq_div)
qed

lemma and_high_bits [byte_arith]:
  "(x::nat) AND 0x80 = (x div 128 mod 2) * 128" "x AND 0xE0 = (x div 32 mod 8) * 32"
  "x AND 0xF0 = (x div 16 mod 16) * 16" "x AND 0xF8 = (x div 8 mod 32) * 8"
  using and_high_mask_nat [of x 7 1] and_high_mask_nat [of x 5 3]
    and_high_mask_nat [of x 4 4] and_high_mask_nat [of x 3 5]
  by (simp_all add: push_bit_eq_mult mask_eq_exp_minus_1)

lemma xor_ff [byte_arith]:
  "(0xff XOR 0x80 :: nat) = 0x7f" "(0xff XOR 0xE0 :: nat) = 0x1f"
  "(0xff XOR 0xF0 :: nat) = 0x0f" "(0xff XOR 0xF8 :: nat) = 0x07"
  by simp_all

lemma or_above_nat:
  assumes "y < 2 ^ n"
  shows "push_bit n x OR y = x * 2 ^ n + (y::nat)"
proof -
  have "push_bit n x AND y = 0"
  proof (rule bit_eqI)
    fix k
    from assms have "bit y k \<Longrightarrow> k < n"
      by (metis bit_take_bit_iff take_bit_nat_eq_self_iff)
    then show "bit (push_bit n x AND y) k \<longleftrightarrow> bit 0 k"
      by (auto simp: bit_and_iff bit_push_bit_iff)
  qed
  then show ?thesis
    by (metis disjunctive_add_eq_or push_bit_eq_mult)
qed

lemma or_high_bits [byte_arith]:
  "y < 64 \<Longrightarrow> y OR 0x80 = y + (0x80::nat)" "y < 32 \<Longrightarrow> y OR 0xc0 = y + (0xc0::nat)"
  "y < 16 \<Longrightarrow> y OR 0xe0 = y + (0xe0::nat)" "y < 8 \<Longrightarrow> y OR 0xf0 = y + (0xf0::nat)"
  using or_above_nat [of y 6 2] or_above_nat [of y 5 6]
    or_above_nat [of y 4 14] or_above_nat [of y 3 30]
  by (simp_all add: push_bit_eq_mult or.commute)

lemma shift_or [byte_arith]:
  "y < 64 \<Longrightarrow> push_bit 6 x OR y = x * 64 + (y::nat)"
  "y < 16 \<Longrightarrow> push_bit 4 x OR y = x * 16 + (y::nat)"
  using or_above_nat [of y 6 x] or_above_nat [of y 4 x] by simp_all

lemmas drop_bit_arith [byte_arith] = drop_bit_eq_div [where ?'a = nat]

lemma div_range: "0 < (k::nat) \<Longrightarrow> b div k = q \<longleftrightarrow> q * k \<le> b \<and> b < Suc q * k"
  by (metis div_nat_eqI dividend_less_times_div mult.commute mult_Suc_right times_div_less_eq_dividend)

lemma mod_range: "q * k \<le> b \<Longrightarrow> b < Suc q * (k::nat) \<Longrightarrow> b mod k = b - q * k"
  by (metis div_nat_eqI minus_div_mult_eq_mod mult.commute)

lemma lead_bits:
  assumes "b < (256::nat)"
  shows "b AND 0x80 = 0 \<longleftrightarrow> b < 0x80" "b AND 0xE0 = 0xC0 \<longleftrightarrow> 0xC0 \<le> b \<and> b < 0xE0"
    "b AND 0xF0 = 0xE0 \<longleftrightarrow> 0xE0 \<le> b \<and> b < 0xF0" "b AND 0xF8 = 0xF0 \<longleftrightarrow> 0xF0 \<le> b \<and> b < 0xF8"
proof -
  have "b div 128 mod 2 = b div 128" "b div 32 mod 8 = b div 32" "b div 16 mod 16 = b div 16"
    "b div 8 mod 32 = b div 8" using assms by simp_all
  then show "b AND 0x80 = 0 \<longleftrightarrow> b < 0x80" "b AND 0xE0 = 0xC0 \<longleftrightarrow> 0xC0 \<le> b \<and> b < 0xE0"
    "b AND 0xF0 = 0xE0 \<longleftrightarrow> 0xE0 \<le> b \<and> b < 0xF0" "b AND 0xF8 = 0xF0 \<longleftrightarrow> 0xF0 \<le> b \<and> b < 0xF8"
    using div_range [of 32 b 6] div_range [of 16 b 14] div_range [of 8 b 30] div_range [of 128 b 0]
    by (simp_all add: and_high_bits)
qed
lemma low_bits:
  "b < (0x80::nat) \<Longrightarrow> b AND 0x7f = b"
  "0xC0 \<le> b \<Longrightarrow> b < (0xE0::nat) \<Longrightarrow> b AND 0x1f = b - 0xC0" 
  "0xE0 \<le> b \<Longrightarrow> b < (0xF0::nat) \<Longrightarrow> b AND 0x0f = b - 0xE0" 
  "0xF0 \<le> b \<Longrightarrow> b < (0xF8::nat) \<Longrightarrow> b AND 0x07 = b - 0xF0" 
  using mod_range [of 6 32 b] mod_range [of 14 16 b] mod_range [of 30 8 b]
  by (simp_all add: and_low_bits)

end
