(* ===== verification/Characters.thy ===== *)
theory Characters
  imports Prelude
begin

text \<open>
  The character classes and digit conversions of \<^verbatim>\<open>AK/CharacterTypes.h\<close>, on code points.
  The two digit parsers end in \<^verbatim>\<open>VERIFY_NOT_REACHED\<close>, so they return a result.
\<close>

definition is_ascii :: "code_point \<Rightarrow> bool" where
  "is_ascii c = (c < 0x80)"

definition is_ascii_digit :: "code_point \<Rightarrow> bool" where
  "is_ascii_digit c = (c \<ge> cp CHR ''0'' \<and> c \<le> cp CHR ''9'')"

definition is_ascii_upper_alpha :: "code_point \<Rightarrow> bool" where
  "is_ascii_upper_alpha c = (c \<ge> cp CHR ''A'' \<and> c \<le> cp CHR ''Z'')"

definition is_ascii_lower_alpha :: "code_point \<Rightarrow> bool" where
  "is_ascii_lower_alpha c = (c \<ge> cp CHR ''a'' \<and> c \<le> cp CHR ''z'')"

definition is_ascii_alpha :: "code_point \<Rightarrow> bool" where
  "is_ascii_alpha c = (is_ascii_lower_alpha c \<or> is_ascii_upper_alpha c)"

definition is_ascii_alphanumeric :: "code_point \<Rightarrow> bool" where
  "is_ascii_alphanumeric c = (is_ascii_alpha c \<or> is_ascii_digit c)"

definition is_ascii_uppercase_hex_digit :: "code_point \<Rightarrow> bool" where
  "is_ascii_uppercase_hex_digit c =
     (is_ascii_digit c \<or> (c \<ge> cp CHR ''A'' \<and> c \<le> cp CHR ''F''))"

definition is_ascii_hex_digit :: "code_point \<Rightarrow> bool" where
  "is_ascii_hex_digit c =
     (is_ascii_uppercase_hex_digit c \<or> (c \<ge> cp CHR ''a'' \<and> c \<le> cp CHR ''f''))"

definition is_ascii_c0_control :: "code_point \<Rightarrow> bool" where
  "is_ascii_c0_control c = (c < 0x20)"

definition is_ascii_c0_control_or_space :: "code_point \<Rightarrow> bool" where
  "is_ascii_c0_control_or_space c = (c \<le> 0x20)"

definition is_unicode :: "code_point \<Rightarrow> bool" where
  "is_unicode c = (c \<le> 0x10FFFF)"

definition is_unicode_surrogate :: "code_point \<Rightarrow> bool" where
  "is_unicode_surrogate c = (c \<ge> 0xD800 \<and> c \<le> 0xDFFF)"

definition is_unicode_scalar_value :: "code_point \<Rightarrow> bool" where
  "is_unicode_scalar_value c = (is_unicode c \<and> \<not> is_unicode_surrogate c)"

definition to_ascii_lowercase :: "code_point \<Rightarrow> code_point" where
  "to_ascii_lowercase c = (if is_ascii_upper_alpha c then c + 0x20 else c)"

definition to_ascii_uppercase :: "code_point \<Rightarrow> code_point" where
  "to_ascii_uppercase c = (if is_ascii_lower_alpha c then c - 0x20 else c)"

definition parse_ascii_digit :: "code_point \<Rightarrow> nat result" where
  "parse_ascii_digit c = (if is_ascii_digit c then Inr (c - cp CHR ''0'') else Inl Verify_failed)"

definition parse_ascii_hex_digit :: "code_point \<Rightarrow> nat result" where
  "parse_ascii_hex_digit c =
     (if is_ascii_digit c then parse_ascii_digit c
      else if c \<ge> cp CHR ''A'' \<and> c \<le> cp CHR ''F'' then Inr (c - cp CHR ''A'' + 10)
      else if c \<ge> cp CHR ''a'' \<and> c \<le> cp CHR ''f'' then Inr (c - cp CHR ''a'' + 10)
      else Inl Verify_failed)"

lemmas [ak_defs] =
  is_ascii_def is_ascii_digit_def is_ascii_upper_alpha_def is_ascii_lower_alpha_def
  is_ascii_alpha_def is_ascii_alphanumeric_def is_ascii_uppercase_hex_digit_def
  is_ascii_hex_digit_def is_ascii_c0_control_def is_ascii_c0_control_or_space_def
  is_unicode_def is_unicode_surrogate_def is_unicode_scalar_value_def
  to_ascii_lowercase_def to_ascii_uppercase_def parse_ascii_digit_def parse_ascii_hex_digit_def

subsection \<open>Facts about the classes\<close>

lemma parse_ascii_digit_ok: "is_ascii_digit c \<Longrightarrow> \<exists>v < 10. parse_ascii_digit c = Inr v"
  by (simp add: ak_defs) arith

lemma parse_ascii_hex_digit_ok:
  "is_ascii_hex_digit c \<Longrightarrow> \<exists>v < 16. parse_ascii_hex_digit c = Inr v"
  by (simp add: ak_defs) arith

lemma parse_ascii_hex_digit_iff:
  "(\<exists>v. parse_ascii_hex_digit c = Inr v) \<longleftrightarrow> is_ascii_hex_digit c"
  by (auto simp: ak_defs)

lemma ascii_classes_are_ascii:
  "is_ascii_digit c \<Longrightarrow> c < 0x80" "is_ascii_alpha c \<Longrightarrow> c < 0x80"
  "is_ascii_alphanumeric c \<Longrightarrow> c < 0x80" "is_ascii_hex_digit c \<Longrightarrow> c < 0x80"
  by (auto simp: ak_defs)

lemma to_ascii_lowercase_bound: "c < 0x80 \<Longrightarrow> to_ascii_lowercase c < 0x80"
  by (auto simp: ak_defs)

lemma to_ascii_lowercase_idem [simp]:
  "to_ascii_lowercase (to_ascii_lowercase c) = to_ascii_lowercase c"
  by (auto simp: ak_defs)

end
