(* ===== verification/Utf8.thy ===== *)
theory Utf8
  imports Characters
begin

text \<open>
  UTF-8 in AK: the encoder of \<^verbatim>\<open>AK/UnicodeUtils.h\<close> and \<^verbatim>\<open>StringBuilder::append_code_point\<close>, and the
  decoder of \<^verbatim>\<open>AK/Utf8View.h\<close>.  An iterator of a \<^verbatim>\<open>Utf8View\<close> is the suffix of the bytes it still has
  to read, so \<^verbatim>\<open>done()\<close> is \<open>s = []\<close>.  The three iterator operations start with
  \<^verbatim>\<open>VERIFY(m_length > 0)\<close>: they are modelled on a first byte and the bytes after it.
\<close>

subsection \<open>Encoding\<close>

definition code_point_to_utf8 :: "code_point \<Rightarrow> string" where
  "code_point_to_utf8 c =
     (if c \<le> 0x7f then [char_of c]
      else if c \<le> 0x07ff then
        [char_of ((drop_bit 6 c AND 0x1f) OR 0xc0),
         char_of ((drop_bit 0 c AND 0x3f) OR 0x80)]
      else if c \<le> 0xffff then
        [char_of ((drop_bit 12 c AND 0x0f) OR 0xe0),
         char_of ((drop_bit 6 c AND 0x3f) OR 0x80),
         char_of ((drop_bit 0 c AND 0x3f) OR 0x80)]
      else if c \<le> 0x10ffff then
        [char_of ((drop_bit 18 c AND 0x07) OR 0xf0),
         char_of ((drop_bit 12 c AND 0x3f) OR 0x80),
         char_of ((drop_bit 6 c AND 0x3f) OR 0x80),
         char_of ((drop_bit 0 c AND 0x3f) OR 0x80)]
      else [])"

definition bytes_to_store_code_point_in_utf8 :: "code_point \<Rightarrow> nat" where
  "bytes_to_store_code_point_in_utf8 c =
     (if c \<le> 0x7f then 1 else if c \<le> 0x7ff then 2 else if c \<le> 0xffff then 3
      else if c \<le> 0x10ffff then 4 else 0)"

definition REPLACEMENT_CODE_POINT :: code_point where
  "REPLACEMENT_CODE_POINT = 0xfffd"

definition code_unit_length_for_code_point :: "code_point \<Rightarrow> nat" where
  "code_unit_length_for_code_point c = (if c < 0x10000 then 1 else 2)"

text \<open>The bytes that \<^verbatim>\<open>append_code_point\<close> appends to a UTF-8 builder.\<close>

definition append_code_point :: "code_point \<Rightarrow> string" where
  "append_code_point c =
     (if \<not> is_unicode c then code_point_to_utf8 REPLACEMENT_CODE_POINT else code_point_to_utf8 c)"

subsection \<open>Decoding\<close>

record utf8_encoded_byte_data =
  byte_length :: nat
  encoding_bits :: nat
  encoding_mask :: nat
  first_code_point :: nat
  last_code_point :: nat

definition utf8_encoded_byte_table :: "utf8_encoded_byte_data list" where
  "utf8_encoded_byte_table =
     [\<lparr>byte_length = 1, encoding_bits = 0x00, encoding_mask = 0x80, first_code_point = 0x0000, last_code_point = 0x007F\<rparr>,
      \<lparr>byte_length = 2, encoding_bits = 0xC0, encoding_mask = 0xE0, first_code_point = 0x0080, last_code_point = 0x07FF\<rparr>,
      \<lparr>byte_length = 3, encoding_bits = 0xE0, encoding_mask = 0xF0, first_code_point = 0x0800, last_code_point = 0xFFFF\<rparr>,
      \<lparr>byte_length = 4, encoding_bits = 0xF0, encoding_mask = 0xF8, first_code_point = 0x10000, last_code_point = 0x10FFFF\<rparr>]"

text \<open>
  The loop of \<^verbatim>\<open>decode_leading_byte\<close>: the length of the sequence and the bits of the code
  point in its first byte, \<open>None\<close> for \<^verbatim>\<open>is_valid = false\<close>.
\<close>

fun decode_leading_byte_loop :: "utf8_encoded_byte_data list \<Rightarrow> nat \<Rightarrow> (nat \<times> nat) option" where
  "decode_leading_byte_loop [] byte = None"
| "decode_leading_byte_loop (data # rest) byte =
     (if byte AND encoding_mask data \<noteq> encoding_bits data then decode_leading_byte_loop rest byte
      else Some (byte_length data, byte AND (0xff XOR encoding_mask data)))"

definition decode_leading_byte :: "nat \<Rightarrow> (nat \<times> nat) option" where
  "decode_leading_byte byte = decode_leading_byte_loop utf8_encoded_byte_table byte"

definition underlying_code_point_length_in_bytes :: "char \<Rightarrow> string \<Rightarrow> nat" where
  "underlying_code_point_length_in_bytes b rest =
     (case decode_leading_byte (cp b) of
        None \<Rightarrow> 1
      | Some (n, value) \<Rightarrow>
          if n > Suc (length rest) then 1
          else if \<not> list_all (\<lambda>e. drop_bit 6 (cp e) = 2) (take (n - 1) rest) then 1
          else n)"

fun decode_extension_bytes :: "nat \<Rightarrow> string \<Rightarrow> nat option" where
  "decode_extension_bytes v [] = Some v"
| "decode_extension_bytes v (e # es) =
     (if drop_bit 6 (cp e) \<noteq> 2 then None
      else decode_extension_bytes (push_bit 6 v OR (cp e AND 63)) es)"

text \<open>\<^verbatim>\<open>Utf8CodePointIterator::operator*\<close>.\<close>

definition utf8_deref :: "char \<Rightarrow> string \<Rightarrow> code_point" where
  "utf8_deref b rest =
     (if cp b \<le> 0x7F then cp b
      else case decode_leading_byte (cp b) of
        None \<Rightarrow> 0xFFFD
      | Some (n, value) \<Rightarrow>
          if n > Suc (length rest) then 0xFFFD
          else case decode_extension_bytes value (take (n - 1) rest) of
            None \<Rightarrow> 0xFFFD
          | Some v \<Rightarrow> if v > 0x10FFFF then 0xFFFD else v)"

text \<open>\<^verbatim>\<open>Utf8CodePointIterator::operator++\<close>: the number of bytes it moves over.\<close>

definition utf8_advance :: "char \<Rightarrow> string \<Rightarrow> nat" where
  "utf8_advance b rest =
     (if cp b \<le> 0x7F then 1
      else let n = underlying_code_point_length_in_bytes b rest
           in if n > Suc (length rest) then 1 else n)"

lemma decode_leading_byte_length:
  "decode_leading_byte byte = Some (n, v) \<Longrightarrow> 1 \<le> n \<and> n \<le> 4"
  by (auto simp: decode_leading_byte_def utf8_encoded_byte_table_def split: if_splits)

lemma underlying_length_pos: "1 \<le> underlying_code_point_length_in_bytes b rest"
  by (auto simp: underlying_code_point_length_in_bytes_def
      split: option.splits dest: decode_leading_byte_length)

lemma underlying_length_le: "underlying_code_point_length_in_bytes b rest \<le> Suc (length rest)"
  by (auto simp: underlying_code_point_length_in_bytes_def split: option.splits)

lemma utf8_advance_pos: "1 \<le> utf8_advance b rest"
  using underlying_length_pos by (auto simp: utf8_advance_def Let_def)

lemma utf8_advance_le: "utf8_advance b rest \<le> Suc (length rest)"
  by (auto simp: utf8_advance_def Let_def)

text \<open>The code points that a range-based loop over a \<^verbatim>\<open>Utf8View\<close> visits.\<close>

function utf8_code_points :: "string \<Rightarrow> code_point list" where
  "utf8_code_points [] = []"
| "utf8_code_points (b # rest) =
     utf8_deref b rest # utf8_code_points (drop (utf8_advance b rest) (b # rest))"
  by pat_completeness auto
termination
  by (relation "measure length") (use utf8_advance_pos in \<open>auto simp: Suc_le_eq\<close>)

subsection \<open>Decoding what was encoded\<close>

lemma decode_leading_byte_eq:
  assumes "b < 256"
  shows "decode_leading_byte b =
     (if b < 0x80 then Some (1, b) else if b < 0xC0 then None
      else if b < 0xE0 then Some (2, b - 0xC0) else if b < 0xF0 then Some (3, b - 0xE0)
      else if b < 0xF8 then Some (4, b - 0xF0) else None)"
  using assms
  by (simp add: decode_leading_byte_def utf8_encoded_byte_table_def lead_bits xor_ff low_bits)

lemma code_point_to_utf8_arith:
  "code_point_to_utf8 c =
     (if c \<le> 0x7f then [char_of c]
      else if c \<le> 0x07ff then [char_of (c div 64 + 0xc0), char_of (c mod 64 + 0x80)]
      else if c \<le> 0xffff then
        [char_of (c div 4096 + 0xe0), char_of (c div 64 mod 64 + 0x80), char_of (c mod 64 + 0x80)]
      else if c \<le> 0x10ffff then
        [char_of (c div 262144 + 0xf0), char_of (c div 4096 mod 64 + 0x80),
         char_of (c div 64 mod 64 + 0x80), char_of (c mod 64 + 0x80)]
      else [])"
proof -
  have "c \<le> 0x07ff \<Longrightarrow> c div 64 mod 32 = c div 64" by (simp add: div_less_iff_less_mult)
  moreover have "c \<le> 0xffff \<Longrightarrow> c div 4096 mod 16 = c div 4096"  by (simp add: div_less_iff_less_mult)
  moreover have "c \<le> 0x10ffff \<Longrightarrow> c div 262144 mod 8 = c div 262144"  by (simp add: div_less_iff_less_mult)
  ultimately show ?thesis
    by (simp add: code_point_to_utf8_def byte_arith)
qed

lemma extension_byte [simp]:
  "drop_bit 6 (x mod 64 + (128::nat)) = 2"
  "(x mod 64 + (128::nat)) AND 63 = x mod 64"
  using mod_range [of 2 64 "x mod 64 + 128"] div_range [of 64 "x mod 64 + 128" 2]
  by (simp_all add: and_low_bits drop_bit_arith del: div_add_self2 mod_add_self2)

lemma extension_byte_lt [simp]:
  assumes "r < 64"
  shows "drop_bit 6 (r + (128::nat)) = 2" "(r + (128::nat)) AND 63 = r"
  using extension_byte [of r] assms by simp_all

lemma join64: "(c::nat) div 64 * 64 + c mod 64 = c"
  "(c div 4096 * 64 + c div 64 mod 64) * 64 + c mod 64 = c"
  "((c div 262144 * 64 + c div 4096 mod 64) * 64 + c div 64 mod 64) * 64 + c mod 64 = c"
proof -
  show 1: "c div 64 * 64 + c mod 64 = c" for c :: nat by simp
  have 2: "(c div 4096 * 64 + c div 64 mod 64) = c div 64" for c :: nat
    using 1 [of "c div 64"] by (simp add: div_mult2_eq [symmetric])
  then show "(c div 4096 * 64 + c div 64 mod 64) * 64 + c mod 64 = c" by simp
  have 3: "c div 262144 * 64 + c div 4096 mod 64 = c div 4096"
    using 1 [of "c div 4096"] by (simp add: div_mult2_eq [symmetric])
  show "((c div 262144 * 64 + c div 4096 mod 64) * 64 + c div 64 mod 64) * 64 + c mod 64 = c"
    by (simp only: 3 2 1)
qed

lemmas decode_simps = utf8_deref_def utf8_advance_def underlying_code_point_length_in_bytes_def
  decode_leading_byte_eq shift_or

lemma utf8_decode_2:
  assumes "a < 32" "r < 64"
  shows "utf8_deref (char_of (a + 192)) (char_of (r + 128) # rest) = a * 64 + r"
    and "utf8_advance (char_of (a + 192)) (char_of (r + 128) # rest) = 2"
  using assms by (simp_all add: decode_simps)

lemma utf8_decode_3:
  assumes "a < 16" "q < 64" "r < 64"
  shows "utf8_deref (char_of (a + 224)) (char_of (q + 128) # char_of (r + 128) # rest)
      = (a * 64 + q) * 64 + r"
    and "utf8_advance (char_of (a + 224)) (char_of (q + 128) # char_of (r + 128) # rest) = 3"
  using assms by (simp_all add: decode_simps)

lemma utf8_decode_4:
  assumes "a < 8" "p < 64" "q < 64" "r < 64" "((a * 64 + p) * 64 + q) * 64 + r \<le> 0x10FFFF"
  shows "utf8_deref (char_of (a + 240)) (char_of (p + 128) # char_of (q + 128) # char_of (r + 128) # rest)
      = ((a * 64 + p) * 64 + q) * 64 + r"
    and "utf8_advance (char_of (a + 240)) (char_of (p + 128) # char_of (q + 128) # char_of (r + 128) # rest) = 4"
  using assms by (simp_all add: decode_simps)

lemma utf8_code_points_encoded:
  assumes "c \<le> 0x10ffff"
  shows "utf8_code_points (code_point_to_utf8 c @ rest) = c # utf8_code_points rest"
proof -
  consider "c \<le> 0x7f" | "0x7f < c" "c \<le> 0x7ff" | "0x7ff < c" "c \<le> 0xffff"
    | "0xffff < c" "c \<le> 0x10ffff"
    using assms by linarith
  then show ?thesis
  proof cases
    case 1
    then show ?thesis
      by (simp add: code_point_to_utf8_arith utf8_deref_def utf8_advance_def)
  next
    case 2
    then have "c div 64 < 32" by (simp add: div_less_iff_less_mult)
    with 2 utf8_decode_2 [of "c div 64" "c mod 64" rest] show ?thesis
      by (simp add: code_point_to_utf8_arith)
  next
    case 3
    then have "c div 4096 < 16" by (simp add: div_less_iff_less_mult)
    with 3 utf8_decode_3 [of "c div 4096" "c div 64 mod 64" "c mod 64" rest, unfolded join64] show ?thesis
      by (simp add: code_point_to_utf8_arith)
  next
    case 4
    then have "c div 262144 < 8" by (simp add: div_less_iff_less_mult)
    with 4 utf8_decode_4 [of "c div 262144" "c div 4096 mod 64" "c div 64 mod 64" "c mod 64" rest,
        unfolded join64]
    show ?thesis
      by (simp add: code_point_to_utf8_arith)
  qed
qed

definition utf8_encode :: "code_point list \<Rightarrow> string" where
  "utf8_encode cs = concat (map append_code_point cs)"

lemma utf8_encode_simps [simp]:
  "utf8_encode [] = []" "utf8_encode (c # cs) = append_code_point c @ utf8_encode cs"
  "utf8_encode (cs @ ds) = utf8_encode cs @ utf8_encode ds"
  by (simp_all add: utf8_encode_def)

lemma append_code_point_unicode: "c \<le> 0x10ffff \<Longrightarrow> append_code_point c = code_point_to_utf8 c"
  by (simp add: append_code_point_def is_unicode_def)

lemma append_code_point_ascii: "c < 0x80 \<Longrightarrow> append_code_point c = [char_of c]"
  by (simp add: append_code_point_unicode code_point_to_utf8_arith)

lemma utf8_code_points_encode:
  "list_all is_unicode cs \<Longrightarrow> utf8_code_points (utf8_encode cs) = cs"
  by (induction cs) (simp_all add: append_code_point_unicode utf8_code_points_encoded is_unicode_def)

lemma utf8_code_points_ascii:
  "list_all (\<lambda>b. cp b < 0x80) s \<Longrightarrow> utf8_code_points s = map cp s"
  by (induction s) (simp_all add: utf8_deref_def utf8_advance_def)

lemma utf8_encode_ascii:
  "list_all (\<lambda>b. cp b < 0x80) s \<Longrightarrow> utf8_encode (map cp s) = s"
  by (induction s) (simp_all add: append_code_point_ascii)

lemma utf8_deref_bound: "utf8_deref b rest \<le> 0x10FFFF"
proof -
  have "cp b \<le> 0x10FFFF" using cp_less_256 [of b] by linarith
  then show ?thesis by (auto simp: utf8_deref_def split: option.splits)
qed

lemma utf8_code_points_unicode: "list_all is_unicode (utf8_code_points s)"
  by (induction s rule: utf8_code_points.induct) (simp_all add: utf8_deref_bound is_unicode_def)

lemma utf8_deref_ascii:
  "cp b < 0x80 \<Longrightarrow> utf8_deref b rest = cp b" "cp b < 0x80 \<Longrightarrow> utf8_advance b rest = 1"
  by (simp_all add: utf8_deref_def utf8_advance_def)

lemma code_point_to_utf8_high_bytes:
  assumes "\<not> c \<le> 0x7f" "b \<in> set (code_point_to_utf8 c)"
  shows "0x80 \<le> cp b"
proof -
  have *: "x + k < 256 \<Longrightarrow> 0x80 \<le> k \<Longrightarrow> 0x80 \<le> cp (char_of (x + k))" for x k :: nat by simp
  have m: "y mod 64 + 128 < (256::nat)" for y
    using mod_less_divisor [of 64 y] by linarith
  have 1: "c \<le> 0x07ff \<Longrightarrow> c div 64 < 32" "c \<le> 0xffff \<Longrightarrow> c div 4096 < 16"
    "c \<le> 0x10ffff \<Longrightarrow> c div 262144 < 8"
    by (simp_all add: div_less_iff_less_mult)
  show ?thesis
    using assms m 1 by (auto simp: code_point_to_utf8_arith intro!: * split: if_splits)
qed

lemma code_point_to_utf8_nonempty: "c \<le> 0x10ffff \<Longrightarrow> code_point_to_utf8 c \<noteq> []"
  by (auto simp: code_point_to_utf8_arith)

lemma length_code_point_to_utf8:
  "length (code_point_to_utf8 c) = bytes_to_store_code_point_in_utf8 c"
  by (simp add: code_point_to_utf8_def bytes_to_store_code_point_in_utf8_def)

end
