(* ===== verification/External.thy ===== *)
theory External
  imports Utf8
begin

text \<open>
  The code outside the repository that the modelled functions call: simdutf (ASCII and UTF-8
  validation, byte search), fast_float (integer parsing), ICU (UTS 46 domain processing) and the
  public suffix table the build generates.  It is a record of functions, an argument of every
  definition that needs it.  The locale \<open>external_laws\<close> names the documented behaviour the proofs
  rely on, and \<open>reference_ext\<close> is a concrete record that has it.
\<close>

datatype simdutf_error = SUCCESS | SURROGATE | OTHER_ERROR

datatype uidna_option = UIDNA_CHECK_BIDI | UIDNA_CHECK_CONTEXTJ | UIDNA_USE_STD3_RULES
  | UIDNA_NONTRANSITIONAL_TO_ASCII | UIDNA_NONTRANSITIONAL_TO_UNICODE

datatype uidna_error = UIDNA_ERROR_HYPHEN_3_4 | UIDNA_ERROR_LEADING_HYPHEN
  | UIDNA_ERROR_TRAILING_HYPHEN | UIDNA_ERROR_EMPTY_LABEL | UIDNA_ERROR_LABEL_TOO_LONG
  | UIDNA_ERROR_DOMAIN_NAME_TOO_LONG | UIDNA_ERROR_PUNYCODE | UIDNA_ERROR_OTHER

text \<open>
  \<open>simdutf_find s c\<close> is the distance from the start to the pointer that \<^verbatim>\<open>simdutf::find\<close> returns;
  \<open>fast_float_from_chars base limit s\<close> is the value and the number of characters read by
  \<^verbatim>\<open>from_chars_advanced\<close> into an unsigned type whose largest value is \<open>limit\<close>, \<open>None\<close> when it
  reports an error; \<open>icu_name_to_ascii\<close> gives whether the status is a failure, the errors of the
  \<^verbatim>\<open>IDNAInfo\<close>, and the bytes sent to the sink.
\<close>

record ext =
  simdutf_validate_ascii :: "string \<Rightarrow> bool"
  simdutf_validate_utf8_with_errors :: "string \<Rightarrow> simdutf_error \<times> nat"
  simdutf_find :: "string \<Rightarrow> char \<Rightarrow> nat"
  fast_float_from_chars :: "nat \<Rightarrow> nat \<Rightarrow> string \<Rightarrow> (nat \<times> nat) option"
  icu_create_uts46_fails :: "uidna_option list \<Rightarrow> bool"
  icu_name_to_ascii :: "uidna_option list \<Rightarrow> string \<Rightarrow> bool \<times> uidna_error list \<times> string"
  s_public_suffixes :: "string list"

definition ascii_string :: "string \<Rightarrow> bool" where
  "ascii_string s = list_all (\<lambda>b. cp b < 0x80) s"

text \<open>A byte sequence is UTF-8 when it is the encoding of a sequence of scalar values.\<close>

definition utf8_well_formed :: "string \<Rightarrow> bool" where
  "utf8_well_formed s =
     (utf8_encode (utf8_code_points s) = s \<and> list_all is_unicode_scalar_value (utf8_code_points s))"

text \<open>Digits of a base up to 36 and the value they denote.\<close>

definition digit_value :: "char \<Rightarrow> nat" where
  "digit_value c =
     (if is_ascii_digit (cp c) then cp c - cp CHR ''0''
      else if is_ascii_lower_alpha (cp c) then cp c - cp CHR ''a'' + 10
      else if is_ascii_upper_alpha (cp c) then cp c - cp CHR ''A'' + 10
      else 36)"

definition digits_value :: "nat \<Rightarrow> string \<Rightarrow> nat" where
  "digits_value base s = foldl (\<lambda>v c. v * base + digit_value c) 0 s"

definition from_chars_result :: "nat \<Rightarrow> nat \<Rightarrow> string \<Rightarrow> (nat \<times> nat) option" where
  "from_chars_result base limit s =
     (let ds = takeWhile (\<lambda>c. digit_value c < base) s
      in if ds = [] \<or> digits_value base ds > limit then None
         else Some (digits_value base ds, length ds))"

text \<open>
  The documented behaviour.  The output of \<^verbatim>\<open>nameToASCII_UTF8\<close> is ASCII unless it reports an error; the
  errors about hyphens and lengths are reported on labels that have been converted.
\<close>

locale external_laws =
  fixes x :: ext
  assumes validate_ascii: "simdutf_validate_ascii x s = ascii_string s"
    and validate_utf8: "fst (simdutf_validate_utf8_with_errors x s) = SUCCESS \<longleftrightarrow> utf8_well_formed s"
    and validate_utf8_surrogate:
      "simdutf_validate_utf8_with_errors x s = (SURROGATE, n) \<Longrightarrow> n + 3 \<le> length s"
    and find_byte: "simdutf_find x s c = length (takeWhile (\<lambda>b. b \<noteq> c) s)"
    and from_chars: "2 \<le> base \<Longrightarrow> base \<le> 36 \<Longrightarrow>
      fast_float_from_chars x base limit s = from_chars_result base limit s"
    and name_to_ascii: "icu_name_to_ascii x opts s = (False, errs, out) \<Longrightarrow>
      set errs \<subseteq> {UIDNA_ERROR_HYPHEN_3_4, UIDNA_ERROR_LEADING_HYPHEN, UIDNA_ERROR_TRAILING_HYPHEN,
        UIDNA_ERROR_EMPTY_LABEL, UIDNA_ERROR_LABEL_TOO_LONG, UIDNA_ERROR_DOMAIN_NAME_TOO_LONG} \<Longrightarrow>
      ascii_string out"

definition reference_ext :: ext where
  "reference_ext =
     \<lparr>simdutf_validate_ascii = ascii_string,
      simdutf_validate_utf8_with_errors =
        (\<lambda>s. (if utf8_well_formed s then SUCCESS else OTHER_ERROR, length s)),
      simdutf_find = (\<lambda>s c. length (takeWhile (\<lambda>b. b \<noteq> c) s)),
      fast_float_from_chars = from_chars_result,
      icu_create_uts46_fails = (\<lambda>opts. False),
      icu_name_to_ascii = (\<lambda>opts s.
        if ascii_string s then (False, [], s) else (True, [UIDNA_ERROR_OTHER], [])),
      s_public_suffixes = [''com'', ''uk'', ''uk.co'']\<rparr>"

interpretation reference: external_laws reference_ext
  by unfold_locales (simp_all add: reference_ext_def split: if_splits)

lemma ascii_string_simps [simp]:
  "ascii_string []" "ascii_string (b # s) \<longleftrightarrow> cp b < 0x80 \<and> ascii_string s"
  "ascii_string (s @ t) \<longleftrightarrow> ascii_string s \<and> ascii_string t"
  by (simp_all add: ascii_string_def)

lemma ascii_string_well_formed: "ascii_string s \<Longrightarrow> utf8_well_formed s"
  unfolding ascii_string_def utf8_well_formed_def
  by (auto simp: utf8_code_points_ascii utf8_encode_ascii list_all_iff ak_defs)

lemma utf8_well_formed_iff:
  "utf8_well_formed s \<longleftrightarrow> (\<exists>cs. list_all is_unicode_scalar_value cs \<and> s = utf8_encode cs)"
proof
  assume "\<exists>cs. list_all is_unicode_scalar_value cs \<and> s = utf8_encode cs"
  then obtain cs where cs: "list_all is_unicode_scalar_value cs" "s = utf8_encode cs" by blast
  then have "list_all is_unicode cs" by (auto simp: list_all_iff is_unicode_scalar_value_def)
  with cs show "utf8_well_formed s" by (simp add: utf8_well_formed_def utf8_code_points_encode)
qed (auto simp: utf8_well_formed_def)

end
