(* ===== verification/Kmp_Search.thy ===== *)
theory Kmp_Search
  imports Prelude
begin

text \<open>
  The Knuth-Morris-Pratt search of \<^verbatim>\<open>AK/MemMem.h\<close> over a haystack in chunks, and that it returns the first
  occurrence of the needle.
\<close>

subsection \<open>The search\<close>

text \<open>
  The loops are partial functions: \<open>None\<close> would be a loop that does not return.  An index into a
  \<^verbatim>\<open>Vector\<close> or a \<^verbatim>\<open>ReadonlyBytes\<close> that is out of range fails the assertion of its \<^verbatim>\<open>operator[]\<close>.  The
  \<^verbatim>\<open>int\<close> variables are integers, which is exact for needles below two gigabytes.
\<close>

definition in_range :: "'a list \<Rightarrow> int \<Rightarrow> bool" where
  "in_range xs i = (0 \<le> i \<and> nat i < length xs)"

text \<open>The inner \<^verbatim>\<open>do\<close> loop of \<^verbatim>\<open>prepare_kmp_partial_table\<close>.\<close>

partial_function (option) kmp_candidate :: "int list \<Rightarrow> string \<Rightarrow> nat \<Rightarrow> int \<Rightarrow> int result option" where
  "kmp_candidate table needle position candidate =
     (if \<not> in_range table candidate then Some (Inl Verify_failed)
      else
        let candidate = table ! nat candidate in
        if candidate \<ge> 0 then
          if \<not> in_range needle candidate then Some (Inl Verify_failed)
          else if needle ! nat candidate \<noteq> needle ! position then kmp_candidate table needle position candidate
          else Some (Inr candidate)
        else Some (Inr candidate))"

partial_function (option) kmp_table_loop :: "int list \<Rightarrow> string \<Rightarrow> nat \<Rightarrow> int \<Rightarrow> int list result option" where
  "kmp_table_loop table needle position candidate =
     (if position < length needle then
        if \<not> in_range needle candidate then Some (Inl Verify_failed)
        else if needle ! position = needle ! nat candidate then
          kmp_table_loop (table[position := table ! nat candidate]) needle (position + 1) (candidate + 1)
        else
          let table = table[position := candidate] in
          (case kmp_candidate table needle position candidate of
             None \<Rightarrow> None
           | Some (Inl e) \<Rightarrow> Some (Inl e)
           | Some (Inr candidate) \<Rightarrow> kmp_table_loop table needle (position + 1) (candidate + 1))
      else Some (Inr table))"

definition prepare_kmp_partial_table :: "string \<Rightarrow> int list result option" where
  "prepare_kmp_partial_table needle =
     (if needle = [] then Some (Inl Verify_failed)
      else kmp_table_loop ((replicate (length needle) 0)[0 := -1]) needle 1 0)"

partial_function (option) kmp_loop ::
    "int list \<Rightarrow> string \<Rightarrow> string list \<Rightarrow> nat \<Rightarrow> nat \<Rightarrow> int \<Rightarrow> nat option result option" where
  "kmp_loop table needle chunks current_haystack_index total_haystack_index needle_index =
     (case chunks of
        [] \<Rightarrow> Some (Inr None)
      | chunk # rest \<Rightarrow>
          if current_haystack_index \<ge> length chunk then kmp_loop table needle rest 0 total_haystack_index needle_index
          else if \<not> in_range needle needle_index then Some (Inl Verify_failed)
          else if needle ! nat needle_index = chunk ! current_haystack_index then
            if nat (needle_index + 1) = length needle
            then Some (Inr (Some (total_haystack_index + 1 - nat (needle_index + 1))))
            else kmp_loop table needle chunks (current_haystack_index + 1) (total_haystack_index + 1) (needle_index + 1)
          else
            let needle_index = table ! nat needle_index in
            if needle_index < 0
            then kmp_loop table needle chunks (current_haystack_index + 1) (total_haystack_index + 1) (needle_index + 1)
            else kmp_loop table needle chunks current_haystack_index total_haystack_index needle_index)"

definition memmem_chunks :: "string list \<Rightarrow> string \<Rightarrow> nat option result option" where
  "memmem_chunks haystack needle =
     (case prepare_kmp_partial_table needle of
        None \<Rightarrow> None
      | Some (Inl e) \<Rightarrow> Some (Inl e)
      | Some (Inr table) \<Rightarrow> kmp_loop table needle haystack 0 0 0)"

subsection \<open>Reference: the first occurrence\<close>

definition occurs_at :: "string \<Rightarrow> string \<Rightarrow> nat \<Rightarrow> bool" where
  "occurs_at haystack needle i =
     (i + length needle \<le> length haystack \<and> take (length needle) (drop i haystack) = needle)"

definition first_occurrence :: "string \<Rightarrow> string \<Rightarrow> nat option \<Rightarrow> bool" where
  "first_occurrence haystack needle r =
     (case r of
        None \<Rightarrow> \<forall>i \<le> length haystack. \<not> occurs_at haystack needle i
      | Some k \<Rightarrow> occurs_at haystack needle k \<and> (\<forall>i < k. \<not> occurs_at haystack needle i))"

lemma occurs_at_nth:
  "occurs_at h w i \<longleftrightarrow> i + length w \<le> length h \<and> (\<forall>j < length w. w ! j = h ! (i + j))"
  by (auto simp: occurs_at_def list_eq_iff_nth_eq)

subsection \<open>Borders\<close>

text \<open>A border of the prefix of length \<open>p\<close>: a shorter prefix that ends it.\<close>

definition border :: "string \<Rightarrow> nat \<Rightarrow> nat \<Rightarrow> bool" where
  "border w p k \<longleftrightarrow> k < p \<and> (\<forall>i < k. w ! i = w ! (p - k + i))"

lemma border_Suc: "border w (Suc p) (Suc k) \<longleftrightarrow> border w p k \<and> w ! k = w ! p"
  by (auto simp: border_def less_Suc_eq)

lemma border_nested:
  assumes "border w p c" "k < c"
  shows "border w p k \<longleftrightarrow> border w c k"
proof -
  have "w ! (c - k + i) = w ! (p - k + i)" if "i < k" for i
  proof -
    have "c - k + i < c" "p - c + (c - k + i) = p - k + i"
      using assms that by (auto simp: border_def)
    with assms(1) show ?thesis by (metis border_def)
  qed
  with assms show ?thesis by (auto simp: border_def)
qed

text \<open>
  An entry of the table: the longest border after which another byte follows, \<open>-1\<close> when there is none.
\<close>

definition entry :: "string \<Rightarrow> nat \<Rightarrow> int \<Rightarrow> bool" where
  "entry w p t \<longleftrightarrow>
     (t = -1 \<and> (\<forall>k. border w p k \<longrightarrow> w ! k = w ! p)) \<or>
     (\<exists>k. t = int k \<and> border w p k \<and> w ! k \<noteq> w ! p \<and> (\<forall>k'. border w p k' \<and> k < k' \<longrightarrow> w ! k' = w ! p))"

definition longest :: "string \<Rightarrow> nat \<Rightarrow> nat \<Rightarrow> bool" where
  "longest w p c \<longleftrightarrow> border w p c \<and> (\<forall>k. border w p k \<longrightarrow> k \<le> c)"

lemma longest_Suc:
  assumes "border w p c" "w ! c = w ! p" "\<And>k. border w p k \<Longrightarrow> w ! k = w ! p \<Longrightarrow> k \<le> c"
  shows "longest w (Suc p) (Suc c)"
  unfolding longest_def
proof (intro conjI allI impI)
  show "border w (Suc p) (Suc c)" using assms(1,2) by (simp add: border_Suc)
  show "k \<le> Suc c" if "border w (Suc p) k" for k
    using that assms(3) by (cases k) (auto simp: border_Suc)
qed

lemma longest_0:
  assumes "\<And>k. border w p k \<Longrightarrow> w ! k \<noteq> w ! p"
  shows "longest w (Suc p) 0"
  unfolding longest_def
proof (intro conjI allI impI)
  show "k \<le> 0" if "border w (Suc p) k" for k using that assms by (cases k) (auto simp: border_Suc)
qed (simp add: border_def)

lemma entry_equal:
  assumes "longest w p c" "w ! p = w ! c" "entry w c t"
  shows "entry w p t"
proof -
  have b: "border w p c" and max: "border w p k \<Longrightarrow> k \<le> c" for k using assms(1) by (auto simp: longest_def)
  have *: "border w p k \<longleftrightarrow> k = c \<or> border w c k" for k
    using b max [of k] border_nested [OF b, of k] by (auto simp: border_def [of w c] order_less_le)
  from assms(3) show ?thesis
    unfolding entry_def * using assms(2) by (auto simp: border_def)
qed

lemma entry_candidate:
  assumes "longest w p c" "w ! p \<noteq> w ! c"
  shows "entry w p (int c)"
  using assms by (auto simp: entry_def longest_def)

subsection \<open>The table\<close>

lemma kmp_candidate_correct:
  assumes "\<forall>q < p. entry w q (table ! q)" "length table = length w" "p < length w"
    and "border w p c" "w ! c \<noteq> w ! p" "\<And>k. border w p k \<Longrightarrow> w ! k = w ! p \<Longrightarrow> k < c"
  shows "\<exists>d. kmp_candidate table w p (int c) = Some (Inr (int d - 1)) \<and> longest w (Suc p) d"
  using assms(4-6)
proof (induction c rule: less_induct)
  case (less c)
  have c: "c < p" "in_range table (int c)" using less.prems(1) assms(2,3) by (auto simp: border_def in_range_def)
  have nested: "border w p k \<longleftrightarrow> border w c k" if "k < c" for k using border_nested less.prems(1) that by blast
  from assms(1) c(1) have "entry w c (table ! c)" by blast
  then consider "table ! c = -1" "\<And>k. border w c k \<Longrightarrow> w ! k = w ! c"
    | k where "table ! c = int k" "border w c k" "w ! k \<noteq> w ! c" "\<And>k'. border w c k' \<Longrightarrow> k < k' \<Longrightarrow> w ! k' = w ! c"
    unfolding entry_def by blast
  then show ?case
  proof cases
    case 1
    have "w ! k \<noteq> w ! p" if "border w p k" for k
      using less.prems nested that 1(2) by metis
    then have "longest w (Suc p) 0" by (rule longest_0)
    with 1 c(2) show ?thesis
      by (intro exI [of _ 0]) (simp add: kmp_candidate.simps [of table w p "int c"])
  next
    case (2 k)
    have k: "k < c" using 2(2) by (simp add: border_def)
    then have k2: "border w p k" using 2(2) nested by blast
    have range: "in_range w (int k)" using k c(1) assms(3) by (simp add: in_range_def)
    have max: "k' \<le> k" if "border w p k'" "w ! k' = w ! p" for k'
      using less.prems that nested 2(4) by (metis not_le)
    show ?thesis
    proof (cases "w ! k = w ! p")
      case True
      then have "longest w (Suc p) (Suc k)" using k2 max by (intro longest_Suc)
      with True 2(1) c(2) range show ?thesis
        by (intro exI [of _ "Suc k"]) (simp add: kmp_candidate.simps [of table w p "int c"])
    next
      case False
      have "\<And>k'. border w p k' \<Longrightarrow> w ! k' = w ! p \<Longrightarrow> k' < k" using max False by (metis order_less_le)
      with less.IH [OF k k2 False] 2(1) c(2) range False show ?thesis
        by (simp add: kmp_candidate.simps [of table w p "int c"])
    qed
  qed
qed

lemma kmp_table_loop_correct:
  assumes "\<forall>q < p. entry w q (table ! q)" "length table = length w" "longest w p c" "p \<le> length w"
  shows "\<exists>t. kmp_table_loop table w p (int c) = Some (Inr t) \<and> length t = length w \<and> (\<forall>q < length w. entry w q (t ! q))"
  using assms
proof (induction "length w - p" arbitrary: p table c)
  case 0
  then show ?case by (auto simp: kmp_table_loop.simps [of table w p])
next
  case (Suc n)
  then have p: "p < length w" "n = length w - (p + 1)" by auto
  have c: "c < p" "in_range w (int c)" using Suc.prems(3) p(1) by (auto simp: longest_def border_def in_range_def)
  show ?case
  proof (cases "w ! p = w ! c")
    case True
    let ?t = "table[p := table ! c]"
    have "entry w p (table ! c)" using entry_equal Suc.prems(1,3) True c(1) by blast
    then have "\<forall>q < p + 1. entry w q (?t ! q)" using Suc.prems(1,2) p(1) by (auto simp: nth_list_update less_Suc_eq)
    moreover have "longest w (p + 1) (Suc c)"
      using longest_Suc [of w p c] Suc.prems(3) True by (simp add: longest_def)
    ultimately show ?thesis
      using Suc.hyps(1) [OF p(2), of ?t "Suc c"] Suc.prems(2) p(1) c True
      by (simp add: kmp_table_loop.simps [of table w p] add.commute)
  next
    case False
    let ?t = "table[p := int c]"
    have t: "\<forall>q < p + 1. entry w q (?t ! q)"
      using entry_candidate [OF Suc.prems(3) False] Suc.prems(1,2) p(1) by (auto simp: nth_list_update less_Suc_eq)
    have "border w p c" "w ! c \<noteq> w ! p" "\<And>k. border w p k \<Longrightarrow> w ! k = w ! p \<Longrightarrow> k < c"
      using Suc.prems(3) False by (auto simp: longest_def) (metis order_less_le)
    then obtain d where d: "kmp_candidate ?t w p (int c) = Some (Inr (int d - 1))" "longest w (Suc p) d"
      using kmp_candidate_correct [of p w ?t c] t Suc.prems(2) p(1) by (simp add: less_Suc_eq) blast
    with Suc.hyps(1) [OF p(2), of ?t d] t Suc.prems(2) p(1) c False show ?thesis
      by (simp add: kmp_table_loop.simps [of table w p] add.commute)
  qed
qed

lemma prepare_kmp_partial_table_correct:
  assumes "w \<noteq> []"
  shows "\<exists>t. prepare_kmp_partial_table w = Some (Inr t) \<and> length t = length w \<and> (\<forall>q < length w. entry w q (t ! q))"
proof -
  have "longest w 1 0" by (auto simp: longest_def border_def)
  moreover have "entry w 0 (-1)" by (simp add: entry_def border_def)
  ultimately show ?thesis
    using kmp_table_loop_correct [of 1 w "(replicate (length w) 0)[0 := -1]" 0] assms
    by (cases w) (auto simp: prepare_kmp_partial_table_def)
qed

subsection \<open>The matching loop\<close>

text \<open>
  The last \<open>j\<close> bytes read are the first \<open>j\<close> bytes of the needle, and no occurrence starts before them.
\<close>

definition matched :: "string \<Rightarrow> string \<Rightarrow> nat \<Rightarrow> nat \<Rightarrow> bool" where
  "matched h w n j \<longleftrightarrow>
     j < length w \<and> j \<le> n \<and> n \<le> length h \<and> (\<forall>i < j. w ! i = h ! (n - j + i)) \<and>
     (\<forall>s < n - j. \<not> occurs_at h w s)"

lemma matched_next:
  assumes "matched h w n j" "n < length h" "w ! j = h ! n" "Suc j < length w"
  shows "matched h w (Suc n) (Suc j)"
  using assms by (auto simp: matched_def less_Suc_eq)

lemma matched_complete:
  assumes "matched h w n j" "n < length h" "w ! j = h ! n" "Suc j = length w"
  shows "first_occurrence h w (Some (n - j))"
proof -
  have len: "length w = Suc j" using assms(4) by simp
  have "n - j + length w \<le> length h" using assms(1,2) unfolding len by (auto simp: matched_def)
  moreover have "w ! i = h ! (n - j + i)" if "i < length w" for i
    using assms(1,3) that unfolding len by (cases "i = j") (auto simp: matched_def)
  ultimately show ?thesis using assms(1) by (auto simp: first_occurrence_def occurs_at_nth matched_def)
qed

text \<open>An occurrence that starts within the matched bytes starts at a border.\<close>

lemma matched_border:
  assumes "matched h w n j" "occurs_at h w (n - k)" "k < j"
  shows "border w j k \<and> w ! k = h ! n"
proof -
  have j: "j < length w" "j \<le> n" "\<And>i. i < j \<Longrightarrow> w ! i = h ! (n - j + i)" using assms(1) by (auto simp: matched_def)
  have occ: "w ! i = h ! (n - k + i)" if "i < length w" for i using assms(2) that by (auto simp: occurs_at_nth)
  have "w ! i = w ! (j - k + i)" if "i < k" for i
  proof -
    have "n - j + (j - k + i) = n - k + i" using assms(3) j(2) by simp
    then show ?thesis using occ [of i] j(3) [of "j - k + i"] that assms(3) j(1) by simp
  qed
  moreover have "w ! k = h ! n" using occ [of k] assms(3) j by simp
  ultimately show ?thesis using assms(3) by (simp add: border_def)
qed

lemma matched_shift:
  assumes "matched h w n j" "w ! j \<noteq> h ! n" "\<And>k. border w j k \<Longrightarrow> t < int k \<Longrightarrow> w ! k = w ! j"
    and "s \<le> n" "t < int (n - s)"
  shows "\<not> occurs_at h w s"
proof
  assume occ: "occurs_at h w s"
  define k where "k = n - s"
  have s: "s = n - k" "t < int k" using assms(4,5) by (auto simp: k_def)
  have "\<not> j < k"
  proof
    assume "j < k"
    then have "s < n - j" by (simp add: k_def)
    with assms(1) occ show False by (simp add: matched_def)
  qed
  then consider "k < j" | "k = j" by linarith
  then show False
  proof cases
    case 1
    with matched_border [OF assms(1)] occ s have "border w j k" "w ! k = h ! n" by auto
    with assms(2,3) s(2) show False by metis
  next
    case 2
    have "w ! j = h ! (s + j)" using occ assms(1) by (auto simp: occurs_at_nth matched_def)
    with 2 s assms(1,2) show False by (simp add: matched_def)
  qed
qed

lemma matched_fallback:
  assumes "matched h w n j" "n < length h" "w ! j \<noteq> h ! n" "entry w j t"
  shows "t = -1 \<Longrightarrow> matched h w (Suc n) 0" "0 \<le> t \<Longrightarrow> matched h w n (nat t) \<and> nat t < j"
proof -
  have shift: "\<not> occurs_at h w s" if "s \<le> n" "t < int (n - s)" for s
    using matched_shift [OF assms(1,3) _ that] assms(4) unfolding entry_def by (metis border_def of_nat_less_iff)
  show "t = -1 \<Longrightarrow> matched h w (Suc n) 0"
    using shift assms(1,2) by (auto simp: matched_def less_Suc_eq_le)
  assume "0 \<le> t"
  with assms(4) obtain k where k: "t = int k" "border w j k" by (auto simp: entry_def)
  then have "k < j" by (simp add: border_def)
  moreover have "w ! i = h ! (n - k + i)" if "i < k" for i
  proof -
    have "j - k + i < j" "n - j + (j - k + i) = n - k + i" using that \<open>k < j\<close> assms(1) by (auto simp: matched_def)
    then show ?thesis using k(2) that assms(1) by (metis border_def matched_def)
  qed
  ultimately show "matched h w n (nat t) \<and> nat t < j"
    using shift assms(1) k(1) by (auto simp: matched_def)
qed

lemma matched_end:
  assumes "matched h w (length h) j"
  shows "first_occurrence h w None"
proof -
  have "\<not> occurs_at h w s" for s
  proof
    assume "occurs_at h w s"
    then have "s + length w \<le> length h" by (simp add: occurs_at_def)
    then have "s < length h - j" using assms by (auto simp: matched_def)
    with assms \<open>occurs_at h w s\<close> show False by (simp add: matched_def)
  qed
  then show ?thesis by (simp add: first_occurrence_def)
qed

lemma kmp_loop_correct:
  assumes "\<forall>q < length w. entry w q (table ! q)" "matched h w n j"
    and "drop n h = drop i (hd (chunks @ [[]])) @ concat (tl chunks)" "i \<le> length (hd (chunks @ [[]]))"
  shows "\<exists>r. kmp_loop table w chunks i n (int j) = Some (Inr r) \<and> first_occurrence h w r"
  using assms(2-4)
proof (induction "2 * (length h - n) + j + length chunks" arbitrary: chunks i n j rule: less_induct)
  case less
  have j: "in_range w (int j)" "n \<le> length h" using less.prems(1) by (auto simp: matched_def in_range_def)
  show ?case
  proof (cases chunks)
    case Nil
    with less.prems(2,3) j(2) have "n = length h" by simp
    with less.prems(1) matched_end have "first_occurrence h w None" by blast
    with Nil show ?thesis by (simp add: kmp_loop.simps [of table w "[]"])
  next
    case (Cons chunk rest)
    show ?thesis
    proof (cases "length chunk \<le> i")
      case True
      have "drop n h = drop 0 (hd (rest @ [[]])) @ concat (tl rest)" using less.prems(2) Cons True by (cases rest) auto
      with less.hyps [of n j rest 0] less.prems(1) Cons True show ?thesis
        by (simp add: kmp_loop.simps [of table w "chunk # rest"])
    next
      case False
      then have rest: "drop n h = chunk ! i # drop (Suc i) chunk @ concat rest"
        using less.prems(2) Cons by (simp add: Cons_nth_drop_Suc [symmetric])
      then have n: "n < length h" "h ! n = chunk ! i" "drop (Suc n) h = drop (Suc i) chunk @ concat rest"
        by (metis drop_eq_Nil list.distinct(1) not_le, metis nth_via_drop, metis drop_Suc tl_drop list.sel(3))
      have next_chunks: "drop (Suc n) h = drop (Suc i) (hd (chunks @ [[]])) @ concat (tl chunks)"
          "Suc i \<le> length (hd (chunks @ [[]]))" using n(3) Cons False by simp_all
      note unfold = kmp_loop.simps [of table w "chunk # rest" i n "int j"]
      show ?thesis
      proof (cases "w ! j = h ! n")
        case True
        show ?thesis
        proof (cases "Suc j = length w")
          case True
          have "first_occurrence h w (Some (Suc n - length w))"
            using matched_complete [OF less.prems(1) n(1) \<open>w ! j = h ! n\<close> True] by (simp flip: True)
          with True Cons False j(1) n(2) \<open>w ! j = h ! n\<close> show ?thesis
            by (simp add: unfold nat_add_distrib)
        next
          case False
          then have "Suc j < length w" using less.prems(1) by (simp add: matched_def)
          with matched_next [OF less.prems(1) n(1) \<open>w ! j = h ! n\<close>] have "matched h w (Suc n) (Suc j)" by blast
          from less.hyps [OF _ this next_chunks] n(1) Cons \<open>\<not> length chunk \<le> i\<close> False j(1) n(2) \<open>w ! j = h ! n\<close> show ?thesis
            by (simp add: unfold nat_add_distrib add.commute)
        qed
      next
        case mismatch: False
        have "entry w j (table ! j)" using assms(1) less.prems(1) by (simp add: matched_def)
        note fall = matched_fallback [OF less.prems(1) n(1) mismatch this]
        show ?thesis
        proof (cases "table ! j < 0")
          case True
          then have t: "table ! j = -1" using \<open>entry w j (table ! j)\<close> by (auto simp: entry_def)
          from less.hyps [OF _ fall(1) [OF t] next_chunks] n(1) Cons False j(1) n(2) mismatch t show ?thesis
            by (simp add: unfold)
        next
          case nonneg: False
          then have "matched h w n (nat (table ! j))" "nat (table ! j) < j" using fall(2) by auto
          from less.hyps [OF _ this(1) less.prems(2,3)] this(2) Cons False j(1) n(2) mismatch nonneg show ?thesis
            by (simp add: unfold)
        qed
      qed
    qed
  qed
qed

lemma memmem_chunks_first:
  assumes "needle \<noteq> []"
  shows "\<exists>r. memmem_chunks chunks needle = Some (Inr r) \<and> first_occurrence (concat chunks) needle r"
proof -
  obtain t where "prepare_kmp_partial_table needle = Some (Inr t)" "\<forall>q < length needle. entry needle q (t ! q)"
    using prepare_kmp_partial_table_correct [OF assms] by blast
  moreover have "matched (concat chunks) needle 0 0" using assms by (simp add: matched_def)
  moreover have "concat chunks = hd (chunks @ [[]]) @ concat (tl chunks)" by (cases chunks) simp_all
  ultimately show ?thesis
    using kmp_loop_correct [of needle t "concat chunks" 0 0 0 chunks] by (simp add: memmem_chunks_def)
qed



end
