(* ===== verification/Mem_Search.thy ===== *)
theory Mem_Search
  imports Kmp_Search "HOL-Library.Sublist"
begin

text \<open>
  Substring search in \<^verbatim>\<open>AK/MemMem.h\<close>.  Needles shorter than 32 bytes are found with the
  shift-or algorithm on a 32-bit word, longer ones with the search of \<open>Kmp_Search\<close>; both return the first
  occurrence.
\<close>

text \<open>
  The table of the 256 byte values: entry \<open>b\<close> has bit \<open>i\<close> cleared when byte \<open>i\<close> of the needle
  is \<open>b\<close>.  The argument \<open>i\<close> is the loop counter.
\<close>

fun bitap_masks :: "string \<Rightarrow> nat \<Rightarrow> (char \<Rightarrow> 32 word) \<Rightarrow> char \<Rightarrow> 32 word" where
  "bitap_masks [] i needle_mask = needle_mask"
| "bitap_masks (c # needle) i needle_mask =
     bitap_masks needle (Suc i)
       (needle_mask(c := needle_mask c AND NOT (push_bit i 0x00000001)))"

text \<open>
  The loop over the haystack from index \<open>i\<close>: the index of the first match, \<open>None\<close> for
  \<^verbatim>\<open>nullptr\<close>.
\<close>

fun bitap_loop :: "(char \<Rightarrow> 32 word) \<Rightarrow> nat \<Rightarrow> string \<Rightarrow> nat \<Rightarrow> 32 word \<Rightarrow> nat option" where
  "bitap_loop needle_mask needle_length [] i lookup = None"
| "bitap_loop needle_mask needle_length (c # haystack) i lookup =
     (let lookup' = push_bit 1 (lookup OR needle_mask c)
      in if 0 = lookup' AND push_bit needle_length 0x00000001 then Some (i + 1 - needle_length)
         else bitap_loop needle_mask needle_length haystack (Suc i) lookup')"

definition bitap_bitwise :: "string \<Rightarrow> string \<Rightarrow> nat option result" where
  "bitap_bitwise haystack needle =
     bind_result (verify (length needle < 32)) (\<lambda>_.
       Inr (bitap_loop (bitap_masks needle 0 (\<lambda>_. 0xffffffff)) (length needle) haystack 0 0xfffffffe))"

text \<open>
  \<^verbatim>\<open>memmem_optional\<close>.  The last case of the last line stands for a search that does not return;
  \<open>memmem_optional_first\<close> shows that there is none.
\<close>

definition memmem_optional :: "string \<Rightarrow> string \<Rightarrow> nat option result" where
  "memmem_optional haystack needle =
     (if needle = [] then Inr (Some 0)
      else if length haystack < length needle then Inr None
      else if length haystack = length needle then
        (if haystack = needle then Inr (Some 0) else Inr None)
      else if length needle < 32 then bitap_bitwise haystack needle
      else case memmem_chunks [haystack] needle of Some r \<Rightarrow> r | None \<Rightarrow> Inl Verify_failed)"

subsection \<open>The shift-or invariant\<close>

lemma bit_shl1_word32: "bit (push_bit 1 w :: 32 word) j \<longleftrightarrow> 1 \<le> j \<and> j < 32 \<and> bit w (j - 1)"
  unfolding bit_push_bit_iff by (auto simp: possible_bit_word)

lemma bit_shl_one_word32: "bit (push_bit i 1 :: 32 word) j \<longleftrightarrow> j = i \<and> i < 32"
  unfolding bit_push_bit_iff by (auto simp: possible_bit_word bit_1_iff)

lemma bitap_masks_bit:
  "i + length needle \<le> 32 \<Longrightarrow> k < 32 \<Longrightarrow>
   bit (bitap_masks needle i M c) k \<longleftrightarrow>
     bit (M c) k \<and> \<not> (i \<le> k \<and> k < i + length needle \<and> needle ! (k - i) = c)"
proof (induction needle i M arbitrary: k rule: bitap_masks.induct)
  case (1 i M)
  then show ?case by simp
next
  case (2 d needle i M)
  have IH: "bit (bitap_masks (d # needle) i M c) k \<longleftrightarrow>
      bit ((M(d := M d AND NOT (push_bit i 1))) c) k \<and>
      \<not> (Suc i \<le> k \<and> k < Suc i + length needle \<and> needle ! (k - Suc i) = c)"
    unfolding bitap_masks.simps by (rule "2.IH") (use "2.prems" in auto)
  have bit_upd: "bit ((M(d := M d AND NOT (push_bit i 1))) c) k \<longleftrightarrow> bit (M c) k \<and> \<not> (c = d \<and> k = i)"
    using "2.prems" by (auto simp only: fun_upd_apply bit_and_iff bit_not_iff bit_shl_one_word32
        possible_bit_word len_num1 if_True if_False split: if_splits) auto
  consider "k < i" | "k = i" | "Suc i \<le> k" by linarith
  then show ?case
  proof cases
    case 1
    then show ?thesis unfolding IH bit_upd
      using "2.prems" by auto
  next
    case 2
    then show ?thesis unfolding IH bit_upd
      using "2.prems" by auto
  next
    case 3
    then have "k - i = Suc (k - Suc i)" by arith
    with 3 show ?thesis unfolding IH bit_upd
      using "2.prems" by auto
  qed
qed

definition bitap_inv :: "string \<Rightarrow> string \<Rightarrow> 32 word \<Rightarrow> bool" where
  "bitap_inv needle p lookup \<longleftrightarrow>
     (\<forall>j \<le> length needle. bit lookup j \<longleftrightarrow> \<not> suffix (take j needle) p)"

lemma bit_initial_lookup: "bit (0xfffffffe :: 32 word) j \<longleftrightarrow> j \<noteq> 0 \<and> j < 32"
proof -
  have "(0xfffffffe :: 32 word) = NOT 1" by simp
  then show ?thesis
    by (simp only: bit_not_iff possible_bit_word bit_1_iff) auto
qed

lemma bitap_inv_init: "length needle < 32 \<Longrightarrow> bitap_inv needle [] 0xfffffffe"
  unfolding bitap_inv_def bit_initial_lookup by auto

lemma suffix_take_Suc_snoc:
  "j < length needle \<Longrightarrow>
   suffix (take (Suc j) needle) (p @ [c]) \<longleftrightarrow> suffix (take j needle) p \<and> needle ! j = c"
  by (auto simp: take_Suc_conv_app_nth)

lemma bitap_inv_step:
  assumes "length needle < 32" "bitap_inv needle p lookup"
  shows "bitap_inv needle (p @ [c]) (push_bit 1 (lookup OR bitap_masks needle 0 (\<lambda>_. 0xffffffff) c))"
  unfolding bitap_inv_def
proof (intro allI impI)
  fix j assume j: "j \<le> length needle"
  show "bit (push_bit 1 (lookup OR bitap_masks needle 0 (\<lambda>_. 0xffffffff) c)) j \<longleftrightarrow>
      \<not> suffix (take j needle) (p @ [c])"
  proof (cases j)
    case 0
    then show ?thesis unfolding bit_shl1_word32 by simp
  next
    case (Suc i)
    have "(0xffffffff :: 32 word) = - 1" by simp
    then have "bit (0xffffffff :: 32 word) i"
      using Suc j assms(1) by (simp only: bit_minus_1_iff possible_bit_word) simp
    then have "bit (bitap_masks needle 0 (\<lambda>_. 0xffffffff) c) i \<longleftrightarrow> needle ! i \<noteq> c"
      using Suc j assms(1) by (simp add: bitap_masks_bit)
    moreover have "bit lookup i \<longleftrightarrow> \<not> suffix (take i needle) p"
      using assms(2) Suc j by (simp add: bitap_inv_def)
    ultimately show ?thesis
      unfolding bit_shl1_word32 bit_or_iff Suc
      using suffix_take_Suc_snoc [of i needle p c] Suc j assms(1) by auto
  qed
qed

lemma and_bit_test: "i < 32 \<Longrightarrow> 0 = (w :: 32 word) AND push_bit i 1 \<longleftrightarrow> \<not> bit w i"
  by (metis and_exp_eq_0_iff_not_bit push_bit_of_1)

abbreviation bitap_table :: "string \<Rightarrow> char \<Rightarrow> 32 word" where
  "bitap_table needle \<equiv> bitap_masks needle 0 (\<lambda>_. 0xffffffff)"

lemma bitap_loop_correct:
  assumes "length needle < 32" "needle \<noteq> []"
  shows "bitap_inv needle p lookup \<Longrightarrow>
    (case bitap_loop (bitap_table needle) (length needle) h (length p) lookup of
       None \<Rightarrow> \<forall>n. 0 < n \<and> n \<le> length h \<longrightarrow> \<not> suffix needle (p @ take n h)
     | Some k \<Rightarrow> \<exists>n. 0 < n \<and> n \<le> length h \<and> k = length p + n - length needle \<and>
         suffix needle (p @ take n h) \<and> (\<forall>m. 0 < m \<and> m < n \<longrightarrow> \<not> suffix needle (p @ take m h)))"
proof (induction h arbitrary: p lookup)
  case Nil
  then show ?case by simp
next
  case (Cons c h)
  let ?l = "push_bit 1 (lookup OR bitap_table needle c)"
  have inv: "bitap_inv needle (p @ [c]) ?l"
    using assms(1) Cons.prems by (rule bitap_inv_step)
  have test: "0 = ?l AND push_bit (length needle) 1 \<longleftrightarrow> suffix needle (p @ [c])"
    using inv assms(1) and_bit_test [of "length needle" ?l] by (auto simp: bitap_inv_def)
  show ?case
  proof (cases "suffix needle (p @ [c])")
    case True
    then have "bitap_loop (bitap_table needle) (length needle) (c # h) (length p) lookup
        = Some (length p + 1 - length needle)"
      using test by (simp only: bitap_loop.simps Let_def) simp
    with True show ?thesis
      by (auto intro!: exI [of _ 1])
  next
    case False
    have eq: "bitap_loop (bitap_table needle) (length needle) (c # h) (length p) lookup
        = bitap_loop (bitap_table needle) (length needle) h (length (p @ [c])) ?l"
      using test False by (simp only: bitap_loop.simps Let_def) simp
    have step: "\<not> suffix needle (p @ take n (c # h))" if "0 < n" "n \<le> Suc j"
      "\<forall>m. 0 < m \<and> m \<le> j \<longrightarrow> \<not> suffix needle ((p @ [c]) @ take m h)" for n j
      using that False by (cases n; cases "n - 1") (auto simp: take_Cons')
    show ?thesis
    proof (cases "bitap_loop (bitap_table needle) (length needle) h (length (p @ [c])) ?l")
      case None
      then have "\<forall>m. 0 < m \<and> m \<le> length h \<longrightarrow> \<not> suffix needle ((p @ [c]) @ take m h)"
        using Cons.IH [OF inv] by simp
      with None step [of _ "length h"] show ?thesis
        unfolding eq by simp
    next
      case (Some k)
      then obtain n where n: "0 < n" "n \<le> length h" "k = length (p @ [c]) + n - length needle"
        "suffix needle ((p @ [c]) @ take n h)"
        "\<forall>m. 0 < m \<and> m < n \<longrightarrow> \<not> suffix needle ((p @ [c]) @ take m h)"
        using Cons.IH [OF inv] by auto
      have "\<not> suffix needle (p @ take m (c # h))" if "0 < m" "m < Suc n" for m
      proof (rule step [of m "n - 1"])
        show "\<forall>m. 0 < m \<and> m \<le> n - 1 \<longrightarrow> \<not> suffix needle ((p @ [c]) @ take m h)"
        proof (intro allI impI)
          fix m assume "0 < m \<and> m \<le> n - 1"
          then have "0 < m \<and> m < n" using n(1) by linarith
          then show "\<not> suffix needle ((p @ [c]) @ take m h)" using n(5) by blast
        qed
      qed (use that n(1) in auto)
      with Some n show ?thesis
        unfolding eq by (auto intro!: exI [of _ "Suc n"])
    qed
  qed
qed

lemma suffix_take_occurs:
  assumes "length needle \<le> n" "n \<le> length h"
  shows "suffix needle (take n h) \<longleftrightarrow> occurs_at h needle (n - length needle)"
proof -
  have "suffix needle (take n h) \<longleftrightarrow> drop (n - length needle) (take n h) = needle"
  proof
    assume "suffix needle (take n h)"
    then obtain zs where zs: "take n h = zs @ needle" by (auto simp: suffix_def)
    then have "length zs = n - length needle"
      using assms by (metis add_diff_cancel_right' length_append length_take min.absorb2)
    with zs show "drop (n - length needle) (take n h) = needle" by simp
  next
    assume "drop (n - length needle) (take n h) = needle"
    then show "suffix needle (take n h)" by (metis suffix_drop)
  qed
  also have "drop (n - length needle) (take n h) = take (length needle) (drop (n - length needle) h)"
    using assms by (simp add: drop_take)
  finally show ?thesis using assms by (simp add: occurs_at_def)
qed

lemma suffix_take_length: "suffix needle (take n h) \<Longrightarrow> needle \<noteq> [] \<Longrightarrow> length needle \<le> n"
  by (auto dest: suffix_length_le)

lemma bitap_bitwise_correct:
  assumes "length needle < 32" "needle \<noteq> []"
  shows "\<exists>r. bitap_bitwise haystack needle = Inr r \<and> first_occurrence haystack needle r"
proof -
  let ?r = "bitap_loop (bitap_table needle) (length needle) haystack 0 0xfffffffe"
  have correct: "case ?r of
      None \<Rightarrow> \<forall>n. 0 < n \<and> n \<le> length haystack \<longrightarrow> \<not> suffix needle (take n haystack)
    | Some k \<Rightarrow> \<exists>n. 0 < n \<and> n \<le> length haystack \<and> k = n - length needle \<and>
        suffix needle (take n haystack) \<and> (\<forall>m. 0 < m \<and> m < n \<longrightarrow> \<not> suffix needle (take m haystack))"
    using bitap_loop_correct [OF assms bitap_inv_init [OF assms(1)], of haystack]
    by (simp only: append_Nil list.size(3) add_0)
  have occ: "occurs_at haystack needle i \<longleftrightarrow>
      i + length needle \<le> length haystack \<and> suffix needle (take (i + length needle) haystack)" for i
    using suffix_take_occurs [of needle "i + length needle" haystack] by (auto simp: occurs_at_def)
  have "first_occurrence haystack needle ?r"
  proof (cases ?r)
    case None
    with correct assms(2) show ?thesis
      by (auto simp: first_occurrence_def occ)
  next
    case (Some k)
    with correct obtain n where n: "n \<le> length haystack" "k = n - length needle"
      "suffix needle (take n haystack)" "\<forall>m. 0 < m \<and> m < n \<longrightarrow> \<not> suffix needle (take m haystack)"
      by auto
    then have "length needle \<le> n"
      using suffix_take_length assms(2) by blast
    with n assms(2) Some show ?thesis
      by (auto simp: first_occurrence_def occ)
  qed
  with assms(1) show ?thesis
    by (simp add: bitap_bitwise_def)
qed

lemma memmem_optional_first: "\<exists>r. memmem_optional haystack needle = Inr r \<and> first_occurrence haystack needle r"
proof -
  consider "needle = []" | "needle \<noteq> []" "length haystack \<le> length needle"
    | "needle \<noteq> []" "length needle < length haystack" by linarith
  then show ?thesis
  proof cases
    case 1
    then show ?thesis by (simp add: memmem_optional_def first_occurrence_def occurs_at_def)
  next
    case 2
    have "occurs_at haystack needle i \<longleftrightarrow> i = 0 \<and> haystack = needle" for i
      using 2 by (cases "i = 0") (auto simp: occurs_at_def)
    with 2 show ?thesis by (auto simp: memmem_optional_def first_occurrence_def)
  next
    case 3
    then show ?thesis
      using bitap_bitwise_correct [of needle haystack] memmem_chunks_first [OF 3(1), of "[haystack]"]
      by (cases "length needle < 32") (auto simp: memmem_optional_def)
  qed
qed

lemma first_occurrence_unique:
  "first_occurrence h n r \<Longrightarrow> first_occurrence h n r' \<Longrightarrow> r = r'"
proof -
  assume *: "first_occurrence h n r" "first_occurrence h n r'"
  have le: "k \<le> length h" if "occurs_at h n k" for k
    using that by (simp add: occurs_at_def)
  have eq: "k = k'" if "r = Some k" "r' = Some k'" for k k'
    using * that by (auto simp: first_occurrence_def) (meson linorder_neqE_nat)
  show "r = r'"
  proof (cases r)
    case None
    with * le show ?thesis by (cases r') (auto simp: first_occurrence_def)
  next
    case (Some k)
    with * le eq show ?thesis by (cases r') (auto simp: first_occurrence_def)
  qed
qed

lemma occurs_at_byte: "occurs_at h [c] i \<longleftrightarrow> i < length h \<and> h ! i = c"
proof (cases "i < length h")
  case True
  then have "take (Suc 0) (drop i h) = [h ! i]"
    by (metis Cons_nth_drop_Suc take0 take_Suc_Cons)
  with True show ?thesis by (simp add: occurs_at_def Suc_le_eq)
qed (simp add: occurs_at_def)

lemma first_occurrence_byte:
  "first_occurrence h [c] (if c \<in> set h then Some (length (takeWhile (\<lambda>b. b \<noteq> c) h)) else None)"
proof (cases "c \<in> set h")
  case True
  then obtain xs ys where h: "h = xs @ c # ys" "c \<notin> set xs"
    by (meson split_list_first)
  then have "takeWhile (\<lambda>b. b \<noteq> c) h = xs"
    by (simp add: takeWhile_tail) (metis takeWhile_eq_all_conv)
  with h show ?thesis
    by (auto simp: first_occurrence_def occurs_at_byte nth_append)
next
  case False
  then show ?thesis
    by (auto simp: first_occurrence_def occurs_at_byte)
qed

lemma memmem_optional_byte:
  "memmem_optional h [c] =
     Inr (if c \<in> set h then Some (length (takeWhile (\<lambda>b. b \<noteq> c) h)) else None)"
proof -
  obtain r where "memmem_optional h [c] = Inr r" "first_occurrence h [c] r"
    using memmem_optional_first [of h "[c]"] by auto
  with first_occurrence_unique [OF first_occurrence_byte] show ?thesis by blast
qed


end
