(* ===== verification/Strings.thy ===== *)
theory Strings
  imports External Mem_Search
begin

text \<open>
  The operations of \<^verbatim>\<open>AK/StringUtils.cpp\<close>, \<^verbatim>\<open>AK/StringView.h\<close>, \<^verbatim>\<open>AK/StringView.cpp\<close>,
  \<^verbatim>\<open>AK/StringConversions.cpp\<close> and \<^verbatim>\<open>AK/String.cpp\<close> that the URL code uses.  A \<^verbatim>\<open>char\<close> that is passed where
  a \<^verbatim>\<open>u32\<close> is expected is sign-extended by the compiler; every predicate it reaches is false above
  \<open>0x7f\<close>, so the byte value is used instead.
\<close>

datatype case_sensitivity = CaseInsensitive | CaseSensitive

datatype trim_mode = TrimLeft | TrimRight | TrimBoth

subsection \<open>Comparison\<close>

definition same_ascii_lowercase :: "string \<Rightarrow> string \<Rightarrow> bool" where
  "same_ascii_lowercase a b =
     list_all2 (\<lambda>p q. to_ascii_lowercase (cp p) = to_ascii_lowercase (cp q)) a b"

definition equals_ignoring_ascii_case :: "string \<Rightarrow> string \<Rightarrow> bool" where
  "equals_ignoring_ascii_case a b =
     (if length a \<noteq> length b then False else same_ascii_lowercase a b)"

definition starts_with :: "string \<Rightarrow> string \<Rightarrow> case_sensitivity \<Rightarrow> bool" where
  "starts_with str start sensitivity =
     (if start = [] then True
      else if str = [] then False
      else if length start > length str then False
      else if sensitivity = CaseSensitive then take (length start) str = start
      else same_ascii_lowercase (take (length start) str) start)"

definition ends_with :: "string \<Rightarrow> string \<Rightarrow> case_sensitivity \<Rightarrow> bool" where
  "ends_with str end sensitivity =
     (if end = [] then True
      else if str = [] then False
      else if length end > length str then False
      else if sensitivity = CaseSensitive then drop (length str - length end) str = end
      else same_ascii_lowercase (drop (length str - length end) str) end)"

definition starts_with_char :: "string \<Rightarrow> char \<Rightarrow> bool" where
  "starts_with_char s ch = (case s of [] \<Rightarrow> False | b # _ \<Rightarrow> ch = b)"

definition ends_with_char :: "string \<Rightarrow> char \<Rightarrow> bool" where
  "ends_with_char s ch = (if s = [] then False else ch = s ! (length s - 1))"

definition contains_char :: "string \<Rightarrow> char \<Rightarrow> bool" where
  "contains_char s needle = (needle \<in> set s)"

definition contains_string :: "string \<Rightarrow> string \<Rightarrow> bool result" where
  "contains_string s needle =
     (if length needle = 1 then Inr (contains_char s (hd needle))
      else if s = [] \<or> length needle > length s then Inr False
      else if needle = [] then Inr True
      else bind_result (memmem_optional s needle) (\<lambda>r. Inr (r \<noteq> None)))"

text \<open>\<^verbatim>\<open>StringView::contains(u32)\<close>: the needle is the UTF-8 encoding of the code point.\<close>

definition contains_code_point :: "string \<Rightarrow> code_point \<Rightarrow> bool result" where
  "contains_code_point s needle = contains_string s (append_code_point needle)"

subsection \<open>Substrings and searching\<close>

definition substring_view :: "string \<Rightarrow> nat \<Rightarrow> nat \<Rightarrow> string result" where
  "substring_view s start len =
     bind_result (verify (start + len \<le> length s)) (\<lambda>_. Inr (take len (drop start s)))"

definition substring_view_from :: "string \<Rightarrow> nat \<Rightarrow> string result" where
  "substring_view_from s start =
     bind_result (verify (start \<le> length s)) (\<lambda>_. substring_view s start (length s - start))"

definition find_char :: "ext \<Rightarrow> string \<Rightarrow> char \<Rightarrow> nat \<Rightarrow> nat option" where
  "find_char x haystack needle start_offset =
     (if start_offset \<ge> length haystack then None
      else let result = simdutf_find x (drop start_offset haystack) needle
           in if result = length (drop start_offset haystack) then None
              else Some (result + start_offset))"

fun find_last_loop :: "string \<Rightarrow> char \<Rightarrow> nat \<Rightarrow> nat option" where
  "find_last_loop haystack needle 0 = None"
| "find_last_loop haystack needle (Suc i) =
     (if haystack ! i = needle then Some i else find_last_loop haystack needle i)"

definition find_last :: "string \<Rightarrow> char \<Rightarrow> nat option" where
  "find_last haystack needle = find_last_loop haystack needle (length haystack)"

fun find_any_of_loop :: "string \<Rightarrow> string \<Rightarrow> nat \<Rightarrow> nat option" where
  "find_any_of_loop [] needles i = None"
| "find_any_of_loop (b # haystack) needles i =
     (if contains_char needles b then Some i else find_any_of_loop haystack needles (Suc i))"

text \<open>\<^verbatim>\<open>find_any_of\<close> in its forward direction.\<close>

definition find_any_of :: "string \<Rightarrow> string \<Rightarrow> nat option" where
  "find_any_of haystack needles =
     (if haystack = [] \<or> needles = [] then None else find_any_of_loop haystack needles 0)"

text \<open>
  The two loops of \<^verbatim>\<open>trim\<close> count the bytes they drop from either end; the second one stops when
  nothing of the view is left.
\<close>

definition trim :: "string \<Rightarrow> string \<Rightarrow> trim_mode \<Rightarrow> string" where
  "trim str characters mode =
     (let left = (if mode = TrimLeft \<or> mode = TrimBoth
                  then length (takeWhile (contains_char characters) str) else 0);
          right = (if mode = TrimRight \<or> mode = TrimBoth
                   then length (takeWhile (contains_char characters) (rev str)) else 0)
      in if left + right \<ge> length str then []
         else take (length str - left - right) (drop left str))"

definition trim_whitespace :: "string \<Rightarrow> trim_mode \<Rightarrow> string" where
  "trim_whitespace str mode =
     trim str [CHR '' '', CHR 0x0A, CHR 0x09, CHR 0x0B, CHR 0x0C, CHR 0x0D] mode"

lemma memmem_optional_shrinks:
  assumes "memmem_optional view separator = Inr (Some k)" "separator \<noteq> []"
  shows "length (drop (k + length separator) view) < length view"
  using assms by (cases view) (auto simp: memmem_optional_def split: if_splits)

text \<open>
  The loop of \<^verbatim>\<open>for_each_split_view\<close> with the callback that collects the parts; the two flags
  are \<^verbatim>\<open>SplitBehavior::KeepEmpty\<close> and \<^verbatim>\<open>SplitBehavior::KeepTrailingSeparator\<close>.
\<close>

function split_view_loop :: "string \<Rightarrow> bool \<Rightarrow> bool \<Rightarrow> string \<Rightarrow> string list result" where
  "split_view_loop separator keep_empty keep_separator view =
     (if separator = [] then Inl Verify_failed
      else case memmem_optional view separator of
        Inl e \<Rightarrow> Inl e
      | Inr None \<Rightarrow> Inr (if keep_empty \<or> view \<noteq> [] then [view] else [])
      | Inr (Some separator_index) \<Rightarrow>
          bind_result
            (split_view_loop separator keep_empty keep_separator
              (drop (separator_index + length separator) view))
            (\<lambda>parts. Inr
              (if keep_empty \<or> separator_index > 0
               then take (if keep_separator then separator_index + length separator
                          else separator_index) view # parts
               else parts)))"
  by pat_completeness auto
termination
  by (relation "measure (\<lambda>(_, _, _, view). length view)") (use memmem_optional_shrinks in auto)

declare split_view_loop.simps [simp del]

definition split_view :: "string \<Rightarrow> string \<Rightarrow> bool \<Rightarrow> bool \<Rightarrow> string list result" where
  "split_view s separator keep_empty keep_separator =
     bind_result (verify (separator \<noteq> [])) (\<lambda>_.
       if s = [] then Inr [] else split_view_loop separator keep_empty keep_separator s)"

subsection \<open>UTF-8 validation and conversion\<close>

text \<open>
  \<^verbatim>\<open>Utf8View::validate\<close>.  With \<^verbatim>\<open>AllowLonelySurrogates::Yes\<close> a surrogate is skipped and the rest
  validated; \<^verbatim>\<open>substring_view\<close> checks that the three bytes are there.
\<close>

function utf8_validate :: "ext \<Rightarrow> bool \<Rightarrow> string \<Rightarrow> bool result" where
  "utf8_validate x allow_lonely_surrogates s =
     (case simdutf_validate_utf8_with_errors x s of (error, count) \<Rightarrow>
        if error = SURROGATE \<and> allow_lonely_surrogates then
          if count + 3 \<le> length s then utf8_validate x allow_lonely_surrogates (drop (count + 3) s)
          else Inl Verify_failed
        else Inr (error = SUCCESS))"
  by pat_completeness auto
termination
  by (relation "measure (\<lambda>(_, _, s). length s)") auto

declare utf8_validate.simps [simp del]

definition is_ascii_view :: "ext \<Rightarrow> string \<Rightarrow> bool" where
  "is_ascii_view x s = (if s = [] then True else simdutf_validate_ascii x s)"

definition to_ascii_lowercase_string :: "ext \<Rightarrow> string \<Rightarrow> string result" where
  "to_ascii_lowercase_string x s =
     bind_result (utf8_validate x True s) (\<lambda>valid.
     bind_result (verify valid) (\<lambda>_.
       Inr (map (\<lambda>b. char_of (to_ascii_lowercase (cp b))) s)))"

text \<open>\<^verbatim>\<open>String::from_utf8_with_replacement_character\<close> without byte order mark handling.\<close>

definition from_utf8_with_replacement_character :: "ext \<Rightarrow> string \<Rightarrow> string result" where
  "from_utf8_with_replacement_character x view =
     bind_result (utf8_validate x False view) (\<lambda>valid.
       Inr (if valid then view
            else concat (map (\<lambda>c. append_code_point
                   (if is_unicode_surrogate c then REPLACEMENT_CODE_POINT else c))
                   (utf8_code_points view))))"

definition string_from_utf8 :: "ext \<Rightarrow> string \<Rightarrow> string result" where
  "string_from_utf8 x view =
     bind_result (utf8_validate x True view) (\<lambda>valid. if valid then Inr view else Inl Failure)"

subsection \<open>Numbers\<close>

text \<open>\<open>limit\<close> is the largest value of the unsigned type that is parsed.\<close>

definition parse_first_number :: "ext \<Rightarrow> nat \<Rightarrow> string \<Rightarrow> bool \<Rightarrow> nat \<Rightarrow> (nat \<times> nat) option" where
  "parse_first_number x limit string trim_ws base =
     fast_float_from_chars x base limit (if trim_ws then trim_whitespace string TrimBoth else string)"

definition parse_number :: "ext \<Rightarrow> nat \<Rightarrow> string \<Rightarrow> bool \<Rightarrow> nat \<Rightarrow> nat option" where
  "parse_number x limit string trim_ws base =
     (let string = (if trim_ws then trim_whitespace string TrimBoth else string)
      in case parse_first_number x limit string False base of
           None \<Rightarrow> None
         | Some (value, characters_parsed) \<Rightarrow>
             if characters_parsed \<noteq> length string then None else Some value)"

subsection \<open>Facts used by the components\<close>

text \<open>Splitting at one byte, as a reference function.\<close>

fun split_on :: "char \<Rightarrow> string \<Rightarrow> string list" where
  "split_on c [] = [[]]"
| "split_on c (b # s) =
     (if b = c then [] # split_on c s
      else (b # hd (split_on c s)) # tl (split_on c s))"

lemma split_on_nonempty [simp]: "split_on c s \<noteq> []"
  by (induction s) auto

lemma split_on_unfold:
  "split_on c s =
     (if c \<in> set s then takeWhile (\<lambda>b. b \<noteq> c) s # split_on c (tl (dropWhile (\<lambda>b. b \<noteq> c) s))
      else [s])"
  by (induction s) auto

lemma split_view_loop_byte:
  "split_view_loop [c] True False s = Inr (split_on c s)"
proof (induction s rule: measure_induct_rule [of length])
  case (less s)
  show ?case
  proof (cases "c \<in> set s")
    case True
    let ?n = "length (takeWhile (\<lambda>b. b \<noteq> c) s)"
    have mem: "memmem_optional s [c] = Inr (Some ?n)"
      using True by (simp add: memmem_optional_byte)
    have tail: "drop (?n + length [c]) s = tl (dropWhile (\<lambda>b. b \<noteq> c) s)"
      by (simp add: dropWhile_eq_drop drop_Suc tl_drop)
    have "length (drop (?n + length [c]) s) < length s"
      using mem by (rule memmem_optional_shrinks) simp
    then have "split_view_loop [c] True False (drop (?n + length [c]) s)
        = Inr (split_on c (tl (dropWhile (\<lambda>b. b \<noteq> c) s)))"
      using less.IH [of "drop (?n + length [c]) s"] by (simp only: tail)
    with True show ?thesis
      by (simp add: split_view_loop.simps [of "[c]" _ _ s] mem split_on_unfold [of c s]
          takeWhile_eq_take [symmetric])
  next
    case False
    then show ?thesis
      by (simp add: split_view_loop.simps [of "[c]" _ _ s] memmem_optional_byte split_on_unfold [of c s])
  qed
qed

lemma split_view_byte:
  "split_view s [c] True False = Inr (if s = [] then [] else split_on c s)"
  by (simp only: split_view_def split_view_loop_byte) simp

lemma split_view_loop_byte_nonempty:
  "split_view_loop [c] False False s = Inr (filter (\<lambda>p. p \<noteq> []) (split_on c s))"
proof (induction s rule: measure_induct_rule [of length])
  case (less s)
  show ?case
  proof (cases "c \<in> set s")
    case True
    let ?n = "length (takeWhile (\<lambda>b. b \<noteq> c) s)"
    have mem: "memmem_optional s [c] = Inr (Some ?n)"
      using True by (simp add: memmem_optional_byte)
    have tail: "drop (?n + length [c]) s = tl (dropWhile (\<lambda>b. b \<noteq> c) s)"
      by (simp add: dropWhile_eq_drop drop_Suc tl_drop)
    have "length (drop (?n + length [c]) s) < length s"
      using mem by (rule memmem_optional_shrinks) simp
    then have "split_view_loop [c] False False (drop (?n + length [c]) s)
        = Inr (filter (\<lambda>p. p \<noteq> []) (split_on c (tl (dropWhile (\<lambda>b. b \<noteq> c) s))))"
      using less.IH [of "drop (?n + length [c]) s"] by (simp only: tail)
    with True show ?thesis
      by (simp add: split_view_loop.simps [of "[c]" _ _ s] mem split_on_unfold [of c s]
          takeWhile_eq_take [symmetric])
  next
    case False
    then show ?thesis
      by (simp add: split_view_loop.simps [of "[c]" _ _ s] memmem_optional_byte split_on_unfold [of c s])
  qed
qed

lemma split_view_byte_nonempty:
  "split_view s [c] False False = Inr (filter (\<lambda>p. p \<noteq> []) (split_on c s))"
  by (simp only: split_view_def split_view_loop_byte_nonempty) simp

lemma split_on_join:
  "c \<notin> set s \<Longrightarrow> split_on c (s @ c # t) = s # split_on c t"
  "c \<notin> set s \<Longrightarrow> split_on c s = [s]"
  by (induction s) auto

lemma trim_unchanged:
  assumes "\<And>b. b \<in> set s \<Longrightarrow> b \<notin> set characters"
  shows "trim s characters mode = s"
proof -
  have "takeWhile (contains_char characters) t = []" if "set t = set s" for t
    using that assms by (cases t) (auto simp: contains_char_def)
  then have "takeWhile (contains_char characters) s = []" "takeWhile (contains_char characters) (rev s) = []"
    by simp_all
  then show ?thesis by (auto simp: trim_def)
qed

end
