(* ===== verification/Number_Format.thy ===== *)
theory Number_Format
  imports Strings
begin

text \<open>
  Printing of unsigned integers: \<^verbatim>\<open>convert_unsigned_to_string\<close> and \<^verbatim>\<open>FormatBuilder::put_u64\<close> of
  \<^verbatim>\<open>AK/Format.cpp\<close>, the three format strings the URL code uses, and \<^verbatim>\<open>create_string_from_number\<close> of
  \<^verbatim>\<open>AK/StringNumber.h\<close>.  Printed numbers parse back to the same value.
\<close>

datatype align = AlignDefault | AlignLeft | AlignCenter | AlignRight

datatype sign_mode = OnlyIfNeeded | Always | Reserved

subsection \<open>Digits\<close>

definition lowercase_lookup :: string where
  "lowercase_lookup = ''0123456789abcdef''"

definition uppercase_lookup :: string where
  "uppercase_lookup = ''0123456789ABCDEF''"

text \<open>The loop that fills the buffer, least significant digit first.\<close>

function convert_unsigned_loop :: "nat \<Rightarrow> nat \<Rightarrow> bool \<Rightarrow> bool \<Rightarrow> nat \<Rightarrow> string" where
  "convert_unsigned_loop value base upper_case use_separator digit_count =
     (if value > 0 \<and> base \<ge> 2 then
        (if upper_case then uppercase_lookup ! (value mod base) else lowercase_lookup ! (value mod base)) #
        (if use_separator \<and> value div base > 0 \<and> (digit_count + 1) mod 3 = 0 then '','' else []) @
        convert_unsigned_loop (value div base) base upper_case use_separator (digit_count + 1)
      else [])"
  by pat_completeness auto
termination
  by (relation "measure (\<lambda>(value, _). value)") auto

declare convert_unsigned_loop.simps [simp del]

definition convert_unsigned_to_string :: "nat \<Rightarrow> nat \<Rightarrow> bool \<Rightarrow> bool \<Rightarrow> string result" where
  "convert_unsigned_to_string value base upper_case use_separator =
     bind_result (verify (base \<ge> 2 \<and> base \<le> 16)) (\<lambda>_.
       if value = 0 then Inr ''0''
       else Inr (rev (convert_unsigned_loop value base upper_case use_separator 0)))"

definition put_u64 :: "nat \<Rightarrow> nat \<Rightarrow> bool \<Rightarrow> bool \<Rightarrow> bool \<Rightarrow> bool \<Rightarrow> align \<Rightarrow> nat \<Rightarrow> char \<Rightarrow>
    sign_mode \<Rightarrow> bool \<Rightarrow> string result" where
  "put_u64 value base alternative upper_case zero_pad use_separator align min_width fill sign_mode is_negative =
     (let align = (if align = AlignDefault then AlignRight else align) in
      bind_result (convert_unsigned_to_string value base upper_case use_separator) (\<lambda>digits.
      let used_by_prefix =
            (if align = AlignRight \<and> zero_pad then 0
             else (if is_negative \<or> sign_mode \<noteq> OnlyIfNeeded then 1 else 0) +
                  (if alternative then
                     if base = 8 then 1 else if base = 16 then 2 else if base = 2 then 2 else 0
                   else 0));
          used_by_field = used_by_prefix + length digits;
          used_by_padding = max used_by_field min_width - used_by_field;
          put_prefix =
            (if is_negative then ''-'' else if sign_mode = Always then ''+''
             else if sign_mode = Reserved then '' '' else []) @
            (if alternative then
               if base = 2 then (if upper_case then ''0B'' else ''0b'')
               else if base = 8 then ''0''
               else if base = 16 then (if upper_case then ''0X'' else ''0x'')
               else []
             else [])
      in Inr (case align of
           AlignLeft \<Rightarrow> put_prefix @ digits @ replicate used_by_padding fill
         | AlignCenter \<Rightarrow>
             replicate (used_by_padding div 2) fill @ put_prefix @ digits @
             replicate (used_by_padding - used_by_padding div 2) fill
         | _ \<Rightarrow>
             if zero_pad then put_prefix @ replicate used_by_padding CHR ''0'' @ digits
             else replicate used_by_padding fill @ put_prefix @ digits)))"

text \<open>The format strings \<^verbatim>\<open>"{}"\<close>, \<^verbatim>\<open>"{:x}"\<close> and \<^verbatim>\<open>"{:02X}"\<close> applied to an unsigned value.\<close>

definition format_decimal :: "nat \<Rightarrow> string result" where
  "format_decimal value =
     put_u64 value 10 False False False False AlignDefault 0 CHR '' '' OnlyIfNeeded False"

definition format_hex :: "nat \<Rightarrow> string result" where
  "format_hex value =
     put_u64 value 16 False False False False AlignDefault 0 CHR '' '' OnlyIfNeeded False"

definition format_02X :: "nat \<Rightarrow> string result" where
  "format_02X value =
     put_u64 value 16 False True True False AlignDefault 2 CHR '' '' OnlyIfNeeded False"

text \<open>
  \<^verbatim>\<open>create_string_from_number\<close> for an integer type of \<open>bits\<close> bits; a negative value is negated in the
  unsigned type, where the subtraction wraps around.  The loop fills the buffer from its end.
\<close>

function string_from_number_loop :: "nat \<Rightarrow> string \<Rightarrow> string" where
  "string_from_number_loop unsigned_value buffer =
     (if unsigned_value \<noteq> 0 then
        string_from_number_loop (unsigned_value div 10) (char_of (cp CHR ''0'' + unsigned_value mod 10) # buffer)
      else buffer)"
  by pat_completeness auto
termination
  by (relation "measure fst") auto

declare string_from_number_loop.simps [simp del]

definition create_string_from_number :: "nat \<Rightarrow> int \<Rightarrow> string" where
  "create_string_from_number bits value =
     (let unsigned_value =
            nat (if value < 0 then (0 - value mod 2 ^ bits) mod 2 ^ bits else value mod 2 ^ bits)
      in (if value < 0 then ''-'' else []) @
         (if unsigned_value = 0 then ''0'' else string_from_number_loop unsigned_value []))"

subsection \<open>Printed digits\<close>

definition number_digits :: "nat \<Rightarrow> bool \<Rightarrow> nat \<Rightarrow> string" where
  "number_digits base upper_case value =
     (if value = 0 then ''0'' else rev (convert_unsigned_loop value base upper_case False 0))"

lemma lookup_digit:
  assumes "n < 16"
  shows "digit_value (lowercase_lookup ! n) = n" and "digit_value (uppercase_lookup ! n) = n"
    and "is_ascii_hex_digit (cp (lowercase_lookup ! n))"
    and "is_ascii_hex_digit (cp (uppercase_lookup ! n))"
    and "n < 10 \<Longrightarrow> is_ascii_digit (cp (lowercase_lookup ! n))"
    and "n < 10 \<Longrightarrow> cp (lowercase_lookup ! n) = 48 + n"
proof -
  have "n \<in> set [0..<16]" using assms by simp
  moreover have "list_all (\<lambda>n. digit_value (lowercase_lookup ! n) = n \<and> digit_value (uppercase_lookup ! n) = n \<and>
    is_ascii_hex_digit (cp (lowercase_lookup ! n)) \<and> is_ascii_hex_digit (cp (uppercase_lookup ! n)) \<and>
    (n < 10 \<longrightarrow> is_ascii_digit (cp (lowercase_lookup ! n))) \<and>
    (n < 10 \<longrightarrow> cp (lowercase_lookup ! n) = 48 + n)) [0..<16]"
    by (simp add: upt_rec lowercase_lookup_def uppercase_lookup_def digit_value_def ak_defs char_of_eq_iff)
  ultimately show "digit_value (lowercase_lookup ! n) = n" "digit_value (uppercase_lookup ! n) = n"
    "is_ascii_hex_digit (cp (lowercase_lookup ! n))" "is_ascii_hex_digit (cp (uppercase_lookup ! n))"
    "n < 10 \<Longrightarrow> is_ascii_digit (cp (lowercase_lookup ! n))"
    "n < 10 \<Longrightarrow> cp (lowercase_lookup ! n) = 48 + n"
    unfolding list_all_iff by blast+
qed

lemma digits_value_snoc [simp]: "digits_value base (s @ [c]) = digits_value base s * base + digit_value c"
  by (simp add: digits_value_def)

lemma digits_value_Nil [simp]: "digits_value base [] = 0"
  by (simp add: digits_value_def)

lemma convert_unsigned_loop_0 [simp]: "convert_unsigned_loop 0 base u sep n = []"
  by (simp add: convert_unsigned_loop.simps)

lemma convert_unsigned_loop_step:
  "0 < v \<Longrightarrow> 2 \<le> base \<Longrightarrow> convert_unsigned_loop v base u False n =
     (if u then uppercase_lookup ! (v mod base) else lowercase_lookup ! (v mod base)) #
     convert_unsigned_loop (v div base) base u False (n + 1)"
  by (simp add: convert_unsigned_loop.simps [of v])

lemma convert_unsigned_loop_props:
  assumes "2 \<le> base" and "base \<le> 16"
  shows "digits_value base (rev (convert_unsigned_loop v base u False n)) = v \<and>
    (\<forall>c \<in> set (convert_unsigned_loop v base u False n).
       \<exists>d < base. c = (if u then uppercase_lookup ! d else lowercase_lookup ! d)) \<and>
    (0 < v \<longrightarrow> convert_unsigned_loop v base u False n \<noteq> [] \<and>
       digit_value (last (convert_unsigned_loop v base u False n)) \<noteq> 0)"
proof (induction v arbitrary: n rule: less_induct)
  case (less v)
  show ?case
  proof (cases "v = 0")
    case False
    have d: "v div base < v" using assms False by simp
    have m: "v mod base < base" "v mod base < 16"
      using assms False mod_less_divisor [of base v] by linarith+
    define c where "c = (if u then uppercase_lookup ! (v mod base) else lowercase_lookup ! (v mod base))"
    define w where "w = convert_unsigned_loop (v div base) base u False (n + 1)"
    have step: "convert_unsigned_loop v base u False n = c # w"
      using False assms by (simp add: convert_unsigned_loop_step c_def w_def)
    have c: "digit_value c = v mod base"
      using m by (simp add: lookup_digit c_def)
    have c': "\<exists>d < base. c = (if u then uppercase_lookup ! d else lowercase_lookup ! d)"
      using m(1) c_def by blast
    have "v div base = 0 \<Longrightarrow> v mod base \<noteq> 0 \<and> w = []"
      using False by (metis w_def convert_unsigned_loop_0 div_mult_mod_eq add_0 mult_0)
    then show ?thesis
      using less.IH [OF d, of "n + 1", folded w_def] c c' by (auto simp: step)
  qed simp
qed

lemma number_digits_value:
  "2 \<le> base \<Longrightarrow> base \<le> 16 \<Longrightarrow> digits_value base (number_digits base u v) = v"
  using convert_unsigned_loop_props [of base v u 0]
  by (simp add: number_digits_def) (simp add: digits_value_def digit_value_def ak_defs)

lemma number_digits_nonempty [simp]:
  "2 \<le> base \<Longrightarrow> base \<le> 16 \<Longrightarrow> number_digits base u v \<noteq> []"
  using convert_unsigned_loop_props [of base v u 0] by (simp add: number_digits_def)

lemma number_digits_set:
  assumes "2 \<le> base" and "base \<le> 16" and "c \<in> set (number_digits base u v)"
  shows "\<exists>d < base. c = (if u then uppercase_lookup ! d else lowercase_lookup ! d)"
proof (cases "v = 0")
  case True
  with assms have "c = (if u then uppercase_lookup ! 0 else lowercase_lookup ! 0)"
    by (simp add: number_digits_def uppercase_lookup_def lowercase_lookup_def)
  with assms(1) show ?thesis by (intro exI [of _ 0]) simp
next
  case False
  with assms convert_unsigned_loop_props [OF assms(1,2), of v u 0] show ?thesis
    by (simp add: number_digits_def)
qed

lemma number_digits_digit_value:
  "2 \<le> base \<Longrightarrow> base \<le> 16 \<Longrightarrow> c \<in> set (number_digits base u v) \<Longrightarrow> digit_value c < base"
  using number_digits_set [of base c u v] by (auto simp: lookup_digit split: if_splits)

lemma number_digits_hex:
  "2 \<le> base \<Longrightarrow> base \<le> 16 \<Longrightarrow> c \<in> set (number_digits base u v) \<Longrightarrow> is_ascii_hex_digit (cp c)"
  using number_digits_set [of base c u v] by (auto simp: lookup_digit split: if_splits)

lemma number_digits_decimal:
  "c \<in> set (number_digits 10 False v) \<Longrightarrow> is_ascii_digit (cp c)"
  using number_digits_set [of 10 c False v] by (auto intro: lookup_digit(5))

lemma number_digits_hd:
  assumes "2 \<le> base" and "base \<le> 16" and "0 < v"
  shows "hd (number_digits base u v) \<noteq> CHR ''0''"
proof -
  have "digit_value (hd (number_digits base u v)) \<noteq> 0"
    using convert_unsigned_loop_props [OF assms(1,2), of v u 0] assms(3)
    by (simp add: number_digits_def hd_rev)
  moreover have "digit_value CHR ''0'' = 0" by (simp add: digit_value_def ak_defs)
  ultimately show ?thesis by metis
qed

text \<open>What each of the formatting entry points prints.\<close>

lemma put_u64_plain:
  assumes "2 \<le> base" and "base \<le> 16" and "min_width \<le> length (number_digits base u v)"
  shows "put_u64 v base False u pad False AlignDefault min_width fill OnlyIfNeeded False =
    Inr (number_digits base u v)"
  using assms
  by (auto simp: put_u64_def convert_unsigned_to_string_def number_digits_def max_def)

lemma format_decimal_eq [simp]: "format_decimal v = Inr (number_digits 10 False v)"
  by (simp add: format_decimal_def put_u64_plain)

lemma format_hex_eq [simp]: "format_hex v = Inr (number_digits 16 False v)"
  by (simp add: format_hex_def put_u64_plain)

lemma format_02X_eq:
  assumes "v < 256"
  shows "format_02X v = Inr [uppercase_lookup ! (v div 16), uppercase_lookup ! (v mod 16)]"
proof (cases "v < 16")
  case True
  have "put_u64 v 16 False True True False AlignDefault 2 CHR '' '' OnlyIfNeeded False
    = Inr [CHR ''0'', uppercase_lookup ! v]"
    using True
    by (cases "v = 0") (simp_all add: put_u64_def convert_unsigned_to_string_def convert_unsigned_loop_step
        uppercase_lookup_def)
  with True show ?thesis
    by (simp add: format_02X_def) (simp add: uppercase_lookup_def)
next
  case False
  with assms have "v div 16 div 16 = 0" "0 < v div 16" "(v div 16) mod 16 = v div 16" by auto
  with False have "number_digits 16 True v = [uppercase_lookup ! (v div 16), uppercase_lookup ! (v mod 16)]"
    by (simp add: number_digits_def convert_unsigned_loop_step)
  then show ?thesis
    by (simp add: format_02X_def put_u64_plain)
qed

lemma string_from_number_loop_eq:
  "string_from_number_loop v acc = rev (convert_unsigned_loop v 10 False False n) @ acc"
proof (induction v arbitrary: acc n rule: less_induct)
  case (less v)
  show ?case
  proof (cases "v = 0")
    case False
    have "char_of (cp CHR ''0'' + v mod 10) = lowercase_lookup ! (v mod 10)"
      using lookup_digit(6) [of "v mod 10"] by (simp add: char_of_eq_iff)
    with False less.IH [of "v div 10" _ "n + 1"] show ?thesis
      by (simp add: string_from_number_loop.simps [of v] convert_unsigned_loop_step [of v])
  qed (simp add: string_from_number_loop.simps)
qed

text \<open>
  The negation in the unsigned type is right on the whole signed range, the smallest value included.
\<close>

lemma create_string_from_number_eq:
  assumes "- (2 ^ (bits - 1)) \<le> v" and "v < 2 ^ bits" and "0 < bits"
  shows "create_string_from_number bits v =
    (if v < 0 then ''-'' else []) @ number_digits 10 False (nat \<bar>v\<bar>)"
proof -
  have "(2::int) ^ (bits - 1) < 2 ^ bits" using assms(3) by simp
  then have "v < 0 \<Longrightarrow> - v mod 2 ^ bits = - v"
    using assms by (intro mod_pos_pos_trivial) linarith+
  then have "v < 0 \<Longrightarrow> (0 - v mod 2 ^ bits) mod 2 ^ bits = - v"
    by (simp add: mod_minus_eq)
  moreover have "0 \<le> v \<Longrightarrow> v mod 2 ^ bits = v" using assms by simp
  ultimately show ?thesis
    using string_from_number_loop_eq [of _ "[]" 0]
    by (auto simp: create_string_from_number_def number_digits_def Let_def)
qed

lemma from_chars_number_digits:
  assumes "2 \<le> base" and "base \<le> 16" and "v \<le> limit"
  shows "from_chars_result base limit (number_digits base u v) = Some (v, length (number_digits base u v))"
proof -
  have t: "takeWhile (\<lambda>c. digit_value c < base) (number_digits base u v) = number_digits base u v"
    using assms number_digits_digit_value by (simp add: takeWhile_eq_all_conv)
  show ?thesis
    using assms by (simp add: from_chars_result_def t number_digits_value)
qed

context external_laws
begin

lemma parse_number_digits:
  assumes "2 \<le> base" and "base \<le> 16" and "v \<le> limit"
  shows "parse_number x limit (number_digits base u v) False base = Some v"
  using assms by (simp add: parse_number_def parse_first_number_def from_chars from_chars_number_digits)

end

text \<open>
  C24: A number that is printed without prefix, separators and padding in any base from 2 to 16 is read
  back by \<^verbatim>\<open>parse_number\<close> as the same number, whatever unsigned type it is read into, as long as the
  number is in the range of that type.
\<close>

theorem put_u64_parse_number:
  assumes "external_laws x" and "2 \<le> base" and "base \<le> 16" and "v \<le> limit"
  shows "\<exists>s. put_u64 v base False u pad False align 0 fill OnlyIfNeeded False = Inr s \<and>
    parse_number x limit s False base = Some v"
proof -
  have "put_u64 v base False u pad False align 0 fill OnlyIfNeeded False = Inr (number_digits base u v)"
    using assms(2,3)
    by (cases align) (auto simp: put_u64_def convert_unsigned_to_string_def number_digits_def)
  then show ?thesis
    using external_laws.parse_number_digits [OF assms] by blast
qed

theorem put_u64_parse_number_witness:
  "\<exists>s. put_u64 4294967295 16 False True False False AlignDefault 0 CHR '' '' OnlyIfNeeded False = Inr s \<and>
    parse_number reference_ext 4294967295 s False 16 = Some 4294967295"
  by (rule put_u64_parse_number) (simp_all add: reference.external_laws_axioms)

end
