(* ===== verification/Percent.thy ===== *)
theory Percent
  imports Number_Format
begin

text \<open>
  Percent-encoding and percent-decoding of \<^verbatim>\<open>Libraries/LibURL/URL.cpp\<close>: the percent-encode sets,
  \<^verbatim>\<open>append_percent_encoded\<close>, \<^verbatim>\<open>percent_encode\<close> and \<^verbatim>\<open>percent_decode\<close>.
\<close>

datatype percent_encode_set =
  C0Control | FragmentSet | QuerySet | SpecialQuery | PathSet | Userinfo | Component |
  ApplicationXWWWFormUrlencoded | EncodeURI

datatype space_as_plus = SpaceAsPlus_No | SpaceAsPlus_Yes

text \<open>\<^verbatim>\<open>MUST\<close>: an error aborts the process.\<close>

definition must :: "'a result \<Rightarrow> 'a result" where
  "must r = (case r of Inl e \<Rightarrow> Inl Verify_failed | Inr a \<Rightarrow> Inr a)"

definition percent_set_rank :: "percent_encode_set \<Rightarrow> nat" where
  "percent_set_rank s =
     (case s of C0Control \<Rightarrow> 0 | FragmentSet \<Rightarrow> 1 | QuerySet \<Rightarrow> 1 | SpecialQuery \<Rightarrow> 2 | PathSet \<Rightarrow> 2
      | Userinfo \<Rightarrow> 3 | Component \<Rightarrow> 4 | ApplicationXWWWFormUrlencoded \<Rightarrow> 5 | EncodeURI \<Rightarrow> 6)"

function code_point_is_in_percent_encode_set :: "code_point \<Rightarrow> percent_encode_set \<Rightarrow> bool" where
  "code_point_is_in_percent_encode_set c C0Control = (c < 0x20 \<or> c > 0x7E)"
| "code_point_is_in_percent_encode_set c FragmentSet =
     (code_point_is_in_percent_encode_set c C0Control \<or>
      contains_char ('' '' @ [CHR 0x22] @ ''<>`'') (char_of c))"
| "code_point_is_in_percent_encode_set c QuerySet =
     (code_point_is_in_percent_encode_set c C0Control \<or>
      contains_char ('' '' @ [CHR 0x22] @ ''#<>'') (char_of c))"
| "code_point_is_in_percent_encode_set c SpecialQuery =
     (code_point_is_in_percent_encode_set c QuerySet \<or> c = cp CHR 0x27)"
| "code_point_is_in_percent_encode_set c PathSet =
     (code_point_is_in_percent_encode_set c QuerySet \<or> contains_char ''?^`{}'' (char_of c))"
| "code_point_is_in_percent_encode_set c Userinfo =
     (code_point_is_in_percent_encode_set c PathSet \<or>
      contains_char (''/:;=@['' @ [CHR 0x5C] @ '']|'') (char_of c))"
| "code_point_is_in_percent_encode_set c Component =
     (code_point_is_in_percent_encode_set c Userinfo \<or> contains_char ''$%&+,'' (char_of c))"
| "code_point_is_in_percent_encode_set c ApplicationXWWWFormUrlencoded =
     (code_point_is_in_percent_encode_set c Component \<or>
      contains_char (''!'' @ [CHR 0x27] @ ''()~'') (char_of c))"
| "code_point_is_in_percent_encode_set c EncodeURI =
     (c > 0x7E \<or> \<not> is_ascii_alphanumeric c \<and>
        \<not> contains_char ('';,/?:@&=+$-_.!~*'' @ [CHR 0x27] @ ''()#'') (char_of c))"
  by pat_completeness auto
termination
  by (relation "measure (\<lambda>(_, s). percent_set_rank s)") (simp_all add: percent_set_rank_def)

text \<open>\<^verbatim>\<open>appendff\<close> with one \<^verbatim>\<open>"%{:02X}"\<close> for each byte.\<close>

fun append_percent_bytes :: "nat list \<Rightarrow> string result" where
  "append_percent_bytes [] = Inr []"
| "append_percent_bytes (b # bs) =
     bind_result (format_02X b) (\<lambda>digits.
     bind_result (append_percent_bytes bs) (\<lambda>rest. Inr (CHR ''%'' # digits @ rest)))"

definition append_percent_encoded :: "code_point \<Rightarrow> string result" where
  "append_percent_encoded c =
     (if c \<le> 0x7f then append_percent_bytes [c]
      else if c \<le> 0x07ff then
        append_percent_bytes [(drop_bit 6 c AND 0x1f) OR 0xc0, (c AND 0x3f) OR 0x80]
      else if c \<le> 0xffff then
        append_percent_bytes
          [(drop_bit 12 c AND 0x0f) OR 0xe0, (drop_bit 6 c AND 0x3f) OR 0x80, (c AND 0x3f) OR 0x80]
      else if c \<le> 0x10ffff then
        append_percent_bytes
          [(drop_bit 18 c AND 0x07) OR 0xf0, (drop_bit 12 c AND 0x3f) OR 0x80,
           (drop_bit 6 c AND 0x3f) OR 0x80, (c AND 0x3f) OR 0x80]
      else Inl Verify_failed)"

definition append_percent_encoded_if_necessary :: "code_point \<Rightarrow> percent_encode_set \<Rightarrow> string result" where
  "append_percent_encoded_if_necessary c s =
     (if code_point_is_in_percent_encode_set c s then append_percent_encoded c
      else Inr (append_code_point c))"

fun percent_encode_loop :: "code_point list \<Rightarrow> percent_encode_set \<Rightarrow> space_as_plus \<Rightarrow> string result" where
  "percent_encode_loop [] s space_as_plus = Inr []"
| "percent_encode_loop (c # cs) s space_as_plus =
     bind_result
       (if space_as_plus = SpaceAsPlus_Yes \<and> c = cp CHR '' '' then Inr ''+''
        else append_percent_encoded_if_necessary c s) (\<lambda>out.
     bind_result (percent_encode_loop cs s space_as_plus) (\<lambda>rest. Inr (out @ rest)))"

definition percent_encode :: "ext \<Rightarrow> string \<Rightarrow> percent_encode_set \<Rightarrow> space_as_plus \<Rightarrow> string result" where
  "percent_encode x input s space_as_plus =
     bind_result (percent_encode_loop (utf8_code_points input) s space_as_plus) (\<lambda>builder.
       must (string_from_utf8 x builder))"

fun percent_decode_loop :: "string \<Rightarrow> string result" where
  "percent_decode_loop [] = Inr []"
| "percent_decode_loop [b] = Inr [b]"
| "percent_decode_loop [b, h] = Inr [b, h]"
| "percent_decode_loop (b # h # l # rest) =
     (if b \<noteq> CHR ''%'' then bind_result (percent_decode_loop (h # l # rest)) (\<lambda>out. Inr (b # out))
      else if \<not> is_ascii_hex_digit (cp h) \<or> \<not> is_ascii_hex_digit (cp l) then
        bind_result (percent_decode_loop (h # l # rest)) (\<lambda>out. Inr (b # out))
      else
        bind_result (parse_ascii_hex_digit (cp h)) (\<lambda>high.
        bind_result (parse_ascii_hex_digit (cp l)) (\<lambda>low.
        bind_result (percent_decode_loop rest) (\<lambda>out.
          Inr (char_of (push_bit 4 high OR low) # out)))))"

definition percent_decode :: "string \<Rightarrow> string result" where
  "percent_decode input =
     (if \<not> contains_char input CHR ''%'' then Inr input else percent_decode_loop input)"

subsection \<open>Encoding\<close>

text \<open>The three bytes that stand for one byte.\<close>

definition percent_byte :: "char \<Rightarrow> string" where
  "percent_byte b = [CHR ''%'', uppercase_lookup ! (cp b div 16), uppercase_lookup ! (cp b mod 16)]"

lemma append_percent_bytes_eq:
  "list_all (\<lambda>b. b < 256) bs \<Longrightarrow>
     append_percent_bytes bs = Inr (concat (map (\<lambda>b. percent_byte (char_of b)) bs))"
  by (induction bs) (simp_all add: format_02X_eq percent_byte_def)

lemma append_percent_encoded_eq:
  assumes "c \<le> 0x10ffff"
  shows "append_percent_encoded c = Inr (concat (map percent_byte (code_point_to_utf8 c)))"
proof -
  have "c \<le> 0x07ff \<Longrightarrow> c div 64 mod 32 = c div 64" "c \<le> 0x07ff \<Longrightarrow> c div 64 < 32"
    by (simp_all add: div_less_iff_less_mult)
  moreover have "c \<le> 0xffff \<Longrightarrow> c div 4096 mod 16 = c div 4096" "c \<le> 0xffff \<Longrightarrow> c div 4096 < 16"
    by (simp_all add: div_less_iff_less_mult)
  moreover have "c div 262144 mod 8 = c div 262144" "c div 262144 < 8"
    using assms by (simp_all add: div_less_iff_less_mult)
  moreover have "n mod 64 + 128 < 256" for n :: nat
    using mod_less_divisor [of 64 n] by linarith
  ultimately show ?thesis
    using assms
    by (simp add: append_percent_encoded_def code_point_to_utf8_arith append_percent_bytes_eq byte_arith
        del: append_percent_bytes.simps)
qed

lemma outside_printable_in_set:
  assumes "c < 0x20 \<or> 0x7E < c"
  shows "code_point_is_in_percent_encode_set c s"
proof (cases s)
  case EncodeURI
  then show ?thesis
    using assms by (auto simp: contains_char_def ak_defs char_of_eq_iff)
qed (use assms in simp_all)

lemma not_in_set_ascii: "\<not> code_point_is_in_percent_encode_set c s \<Longrightarrow> 0x20 \<le> c \<and> c \<le> 0x7E"
  using outside_printable_in_set [of c s] by linarith

definition percent_encoded_char :: "percent_encode_set \<Rightarrow> space_as_plus \<Rightarrow> code_point \<Rightarrow> string" where
  "percent_encoded_char s space_as_plus c =
     (if space_as_plus = SpaceAsPlus_Yes \<and> c = cp CHR '' '' then ''+''
      else if code_point_is_in_percent_encode_set c s then concat (map percent_byte (code_point_to_utf8 c))
      else [char_of c])"

definition percent_encoded :: "percent_encode_set \<Rightarrow> space_as_plus \<Rightarrow> code_point list \<Rightarrow> string" where
  "percent_encoded s space_as_plus cs = concat (map (percent_encoded_char s space_as_plus) cs)"

lemma percent_encoded_simps [simp]:
  "percent_encoded s p [] = []"
  "percent_encoded s p (c # cs) = percent_encoded_char s p c @ percent_encoded s p cs"
  "percent_encoded s p (cs @ ds) = percent_encoded s p cs @ percent_encoded s p ds"
  by (simp_all add: percent_encoded_def)

lemma append_percent_encoded_if_necessary_eq:
  "c \<le> 0x10ffff \<Longrightarrow> append_percent_encoded_if_necessary c s = Inr (percent_encoded_char s SpaceAsPlus_No c)"
  using not_in_set_ascii [of c s]
  by (auto simp: append_percent_encoded_if_necessary_def percent_encoded_char_def append_percent_encoded_eq
      append_code_point_ascii)

lemma percent_encode_loop_eq:
  "list_all is_unicode cs \<Longrightarrow> percent_encode_loop cs s p = Inr (percent_encoded s p cs)"
  by (induction cs)
    (auto simp: is_unicode_def append_percent_encoded_if_necessary_eq percent_encoded_char_def)

lemma lookup_ascii: "n < 16 \<Longrightarrow> cp (uppercase_lookup ! n) < 0x80"
  using lookup_digit(4) [of n] by (auto simp: ak_defs)

lemma percent_byte_ascii: "ascii_string (percent_byte b)"
proof -
  have "cp b div 16 < 16" using cp_less_256 [of b] by (simp add: div_less_iff_less_mult)
  then show ?thesis
    by (simp add: percent_byte_def lookup_ascii)
qed

lemma ascii_string_concat: "(\<And>s. s \<in> set ss \<Longrightarrow> ascii_string s) \<Longrightarrow> ascii_string (concat ss)"
  by (induction ss) auto

lemma percent_encoded_char_ascii: "ascii_string (percent_encoded_char s p c)"
  using not_in_set_ascii [of c s]
  by (auto simp: percent_encoded_char_def intro!: ascii_string_concat percent_byte_ascii)

lemma percent_encoded_ascii: "ascii_string (percent_encoded s p cs)"
  by (auto simp: percent_encoded_def intro!: ascii_string_concat percent_encoded_char_ascii)

context external_laws
begin

lemma utf8_validate_well_formed: "utf8_well_formed s \<Longrightarrow> utf8_validate x allow s = Inr True"
  using validate_utf8 [of s] by (auto simp: utf8_validate.simps [of x allow s] split: prod.splits)

lemma string_from_utf8_ascii: "ascii_string s \<Longrightarrow> string_from_utf8 x s = Inr s"
  by (simp add: string_from_utf8_def utf8_validate_well_formed ascii_string_well_formed)

lemma percent_encode_eq: "percent_encode x input s p = Inr (percent_encoded s p (utf8_code_points input))"
  by (simp add: percent_encode_def percent_encode_loop_eq utf8_code_points_unicode must_def
      string_from_utf8_ascii percent_encoded_ascii)

end

subsection \<open>Decoding\<close>

fun percent_decoded :: "string \<Rightarrow> string" where
  "percent_decoded (b # rest) =
     (if b = CHR ''%'' \<and> 2 \<le> length rest \<and> is_ascii_hex_digit (cp (rest ! 0)) \<and> is_ascii_hex_digit (cp (rest ! 1))
      then char_of (digit_value (rest ! 0) * 16 + digit_value (rest ! 1)) # percent_decoded (drop 2 rest)
      else b # percent_decoded rest)"
| "percent_decoded [] = []"

lemma parse_ascii_hex_digit_value:
  "is_ascii_hex_digit (cp c) \<Longrightarrow> parse_ascii_hex_digit (cp c) = Inr (digit_value c) \<and> digit_value c < 16"
  by (auto simp: parse_ascii_hex_digit_def parse_ascii_digit_def digit_value_def ak_defs)

lemma percent_decode_loop_eq: "percent_decode_loop s = Inr (percent_decoded s)"
proof (induction s rule: percent_decode_loop.induct)
  case (4 b h l rest)
  then show ?case
    using parse_ascii_hex_digit_value [of h] parse_ascii_hex_digit_value [of l]
    by (auto simp: byte_arith or_above_nat)
qed simp_all

lemma percent_decoded_no_percent: "CHR ''%'' \<notin> set s \<Longrightarrow> percent_decoded s = s"
  by (induction s) auto

lemma percent_decode_eq: "percent_decode s = Inr (percent_decoded s)"
  by (simp add: percent_decode_def contains_char_def percent_decode_loop_eq percent_decoded_no_percent)

lemma percent_decoded_byte [simp]: "percent_decoded (percent_byte b @ rest) = b # percent_decoded rest"
proof -
  have "cp b div 16 < 16" using cp_less_256 [of b] by (simp add: div_less_iff_less_mult)
  moreover have "cp b mod 16 < 16" by simp
  moreover have "cp b div 16 * 16 + cp b mod 16 = cp b" by simp
  ultimately show ?thesis
    by (simp add: percent_byte_def lookup_digit)
qed

lemma percent_decoded_bytes [simp]:
  "percent_decoded (concat (map percent_byte bs) @ rest) = bs @ percent_decoded rest"
  by (induction bs) simp_all

lemma percent_decoded_encoded_char:
  assumes "c \<le> 0x10ffff" and "c \<noteq> cp CHR ''%'' \<or> code_point_is_in_percent_encode_set (cp CHR ''%'') s"
  shows "percent_decoded (percent_encoded_char s SpaceAsPlus_No c @ rest) = append_code_point c @ percent_decoded rest"
proof (cases "code_point_is_in_percent_encode_set c s")
  case True
  with assms show ?thesis
    by (simp add: percent_encoded_char_def append_code_point_unicode)
next
  case False
  with assms not_in_set_ascii [OF False] have "char_of c \<noteq> CHR ''%''"
    by (auto simp: char_of_eq_iff)
  with False not_in_set_ascii [OF False] show ?thesis
    by (simp add: percent_encoded_char_def append_code_point_ascii)
qed

lemma percent_decoded_encoded:
  assumes "list_all is_unicode cs"
    and "cp CHR ''%'' \<notin> set cs \<or> code_point_is_in_percent_encode_set (cp CHR ''%'') s"
  shows "percent_decoded (percent_encoded s SpaceAsPlus_No cs) = utf8_encode cs"
  using assms by (induction cs) (auto simp: percent_decoded_encoded_char is_unicode_def)

lemma well_formed_no_percent:
  assumes "utf8_well_formed s" and "CHR ''%'' \<notin> set s"
  shows "cp CHR ''%'' \<notin> set (utf8_code_points s)"
proof
  assume "cp CHR ''%'' \<in> set (utf8_code_points s)"
  moreover from assms(1) obtain cs where cs: "list_all is_unicode_scalar_value cs" "s = utf8_encode cs"
    by (auto simp: utf8_well_formed_iff)
  then have "utf8_code_points s = cs"
    by (auto intro!: utf8_code_points_encode simp: list_all_iff is_unicode_scalar_value_def)
  ultimately have "cp CHR ''%'' \<in> set cs" by simp
  moreover have "append_code_point (cp CHR ''%'') = [CHR ''%'']"
    by (simp add: append_code_point_ascii char_of_eq_iff)
  ultimately have "CHR ''%'' \<in> set s"
    unfolding cs(2) utf8_encode_def set_concat set_map by (metis UN_I imageI list.set_intros(1))
  with assms(2) show False by blast
qed

lemma hex_digit_not_in_set: "is_ascii_hex_digit c \<Longrightarrow> \<not> code_point_is_in_percent_encode_set c s"
  by (cases s) (auto simp: contains_char_def ak_defs char_of_eq_iff)

lemma percent_encoded_char_set:
  assumes "b \<in> set (percent_encoded_char s SpaceAsPlus_No c)"
  shows "b = CHR ''%'' \<or> \<not> code_point_is_in_percent_encode_set (cp b) s"
proof (cases "code_point_is_in_percent_encode_set c s")
  case True
  then obtain b' where "b \<in> set (percent_byte b')"
    using assms by (auto simp: percent_encoded_char_def)
  moreover have "cp b' div 16 < 16" using cp_less_256 [of b'] by (simp add: div_less_iff_less_mult)
  ultimately show ?thesis
    by (auto simp: percent_byte_def intro!: hex_digit_not_in_set lookup_digit(4))
next
  case False
  with assms not_in_set_ascii [OF False] show ?thesis by (auto simp: percent_encoded_char_def)
qed

lemma percent_encoded_set:
  "b \<in> set (percent_encoded s SpaceAsPlus_No cs) \<Longrightarrow> b = CHR ''%'' \<or> \<not> code_point_is_in_percent_encode_set (cp b) s"
  using percent_encoded_char_set by (auto simp: percent_encoded_def)

lemma percent_encoded_unchanged:
  "(\<And>b. b \<in> set t \<Longrightarrow> \<not> code_point_is_in_percent_encode_set (cp b) s) \<Longrightarrow>
     percent_encoded s SpaceAsPlus_No (utf8_code_points t) = t"
proof (induction t)
  case (Cons b t)
  have "cp b \<le> 0x7E" using Cons.prems [of b] not_in_set_ascii [of "cp b" s] by simp
  with Cons show ?case
    by (simp add: utf8_deref_ascii percent_encoded_char_def)
qed simp

text \<open>
  C7: Percent-encoding followed by percent-decoding gives back the bytes of every well-formed UTF-8 string,
  for a percent-encode set that contains the percent sign, and for every other set when the string has no
  percent sign.  In particular neither function reaches one of its assertions.
\<close>

theorem percent_encode_decode:
  assumes "external_laws x" and "utf8_well_formed s"
    and "CHR ''%'' \<notin> set s \<or> code_point_is_in_percent_encode_set (cp CHR ''%'') es"
  shows "\<exists>e. percent_encode x s es SpaceAsPlus_No = Inr e \<and> percent_decode e = Inr s"
proof -
  have "percent_decoded (percent_encoded es SpaceAsPlus_No (utf8_code_points s)) = utf8_encode (utf8_code_points s)"
    using assms(2,3) well_formed_no_percent
    by (intro percent_decoded_encoded utf8_code_points_unicode) blast
  moreover have "utf8_encode (utf8_code_points s) = s"
    using assms(2) by (simp add: utf8_well_formed_def)
  ultimately show ?thesis
    by (simp add: external_laws.percent_encode_eq [OF assms(1)] percent_decode_eq)
qed

theorem percent_encode_decode_witness:
  "\<exists>e. percent_encode reference_ext ''100% sure'' Component SpaceAsPlus_No = Inr e \<and>
     percent_decode e = Inr ''100% sure''"
proof (rule percent_encode_decode)
  show "utf8_well_formed ''100% sure''" by (rule ascii_string_well_formed) simp
  show "CHR ''%'' \<notin> set ''100% sure'' \<or> code_point_is_in_percent_encode_set (cp CHR ''%'') Component"
    by (simp add: contains_char_def char_of_eq_iff)
qed (rule reference.external_laws_axioms)



end
