(* ===== verification/Ip_Addresses.thy ===== *)
theory Ip_Addresses
  imports Number_Format
begin

text \<open>
  \<^verbatim>\<open>AK/IPv4Address.h\<close> and \<^verbatim>\<open>AK/IPv6Address.h\<close>.  An \<^verbatim>\<open>IPv4Address\<close> is its \<^verbatim>\<open>u32 m_data\<close>, an \<^verbatim>\<open>IPv6Address\<close> its
  sixteen bytes.
\<close>

type_synonym ipv4_address = "32 word"

type_synonym ipv6_address = "8 word list"

definition u32_max :: nat where
  "u32_max = 0xFFFFFFFF"

definition to_number_u32 :: "ext \<Rightarrow> string \<Rightarrow> nat option" where
  "to_number_u32 x part = parse_number x u32_max part True 10"

definition parse_hexadecimal_number :: "ext \<Rightarrow> string \<Rightarrow> nat option" where
  "parse_hexadecimal_number x part = parse_number x u32_max part True 16"

subsection \<open>IPv4\<close>

definition ipv4_of_octets :: "32 word \<Rightarrow> 32 word \<Rightarrow> 32 word \<Rightarrow> 32 word \<Rightarrow> ipv4_address" where
  "ipv4_of_octets a b c d = push_bit 24 d OR push_bit 16 c OR push_bit 8 b OR a"

definition octet :: "ipv4_address \<Rightarrow> nat \<Rightarrow> 32 word" where
  "octet m_data subnet = drop_bit (8 * subnet) m_data AND 0x000000FF"

definition ipv4_at :: "ipv4_address \<Rightarrow> nat \<Rightarrow> 8 word result" where
  "ipv4_at m_data i = bind_result (verify (i < 4)) (\<lambda>_. Inr (ucast (octet m_data i)))"

text \<open>The format string \<^verbatim>\<open>"{}.{}.{}.{}"\<close>.\<close>

definition format_dotted :: "nat \<Rightarrow> nat \<Rightarrow> nat \<Rightarrow> nat \<Rightarrow> string result" where
  "format_dotted a b c d =
     bind_result (format_decimal a) (\<lambda>a.
     bind_result (format_decimal b) (\<lambda>b.
     bind_result (format_decimal c) (\<lambda>c.
     bind_result (format_decimal d) (\<lambda>d.
       Inr (a @ ''.'' @ b @ ''.'' @ c @ ''.'' @ d)))))"

definition ipv4_to_byte_string :: "ipv4_address \<Rightarrow> string result" where
  "ipv4_to_byte_string m_data =
     format_dotted (unat (octet m_data 0)) (unat (octet m_data 1)) (unat (octet m_data 2)) (unat (octet m_data 3))"

definition ipv4_to_byte_string_reversed :: "ipv4_address \<Rightarrow> string result" where
  "ipv4_to_byte_string_reversed m_data =
     format_dotted (unat (octet m_data 3)) (unat (octet m_data 2)) (unat (octet m_data 1)) (unat (octet m_data 0))"

definition ipv4_part :: "ext \<Rightarrow> string \<Rightarrow> nat" where
  "ipv4_part x part = (case to_number_u32 x part of None \<Rightarrow> 256 | Some n \<Rightarrow> n)"

definition ipv4_from_string :: "ext \<Rightarrow> string \<Rightarrow> ipv4_address result" where
  "ipv4_from_string x s =
     bind_result (split_view s ''.'' False False) (\<lambda>parts.
     bind_result
       (case parts of
          [p0] \<Rightarrow> Inr (0, 0, 0, ipv4_part x p0)
        | [p0, p1] \<Rightarrow> Inr (ipv4_part x p0, 0, 0, ipv4_part x p1)
        | [p0, p1, p2] \<Rightarrow> Inr (ipv4_part x p0, ipv4_part x p1, 0, ipv4_part x p2)
        | [p0, p1, p2, p3] \<Rightarrow> Inr (ipv4_part x p0, ipv4_part x p1, ipv4_part x p2, ipv4_part x p3)
        | _ \<Rightarrow> Inl Failure) (\<lambda>(a, b, c, d).
       if a > 255 \<or> b > 255 \<or> c > 255 \<or> d > 255 then Inl Failure
       else Inr (ipv4_of_octets (of_nat a) (of_nat b) (of_nat c) (of_nat d))))"

text \<open>The shift is done in 64 bits and then truncated to 32.\<close>

definition netmask_from_cidr :: "int \<Rightarrow> ipv4_address result" where
  "netmask_from_cidr cidr =
     bind_result (verify (0 \<le> cidr \<and> cidr \<le> 32)) (\<lambda>_.
     let value = ucast (push_bit (nat (32 - cidr)) (0xffffffff :: 64 word)) :: 32 word
     in Inr (ipv4_of_octets (drop_bit 24 (value AND 0xff000000)) (drop_bit 16 (value AND 0xff0000))
          (drop_bit 8 (value AND 0xff00)) (value AND 0xff)))"

definition ipv4_is_zero :: "ipv4_address \<Rightarrow> bool" where
  "ipv4_is_zero m_data = (m_data = 0)"

subsection \<open>IPv6\<close>

definition ipv6_zero :: ipv6_address where
  "ipv6_zero = replicate 16 0"

definition ipv6_of_pieces :: "16 word list \<Rightarrow> ipv6_address" where
  "ipv6_of_pieces data = concat (map (\<lambda>piece. [ucast (drop_bit 8 piece), ucast (piece AND 0xff)]) data)"

definition ipv6_of_ipv4 :: "ipv4_address \<Rightarrow> ipv6_address" where
  "ipv6_of_ipv4 a =
     ipv6_zero[10 := 0xff, 11 := 0xff, 12 := ucast (octet a 0), 13 := ucast (octet a 1),
               14 := ucast (octet a 2), 15 := ucast (octet a 3)]"

definition ipv6_piece :: "ipv6_address \<Rightarrow> nat \<Rightarrow> 16 word" where
  "ipv6_piece m_data i = push_bit 8 (ucast (m_data ! (i * 2))) OR ucast (m_data ! (i * 2 + 1))"

definition ipv6_is_zero :: "ipv6_address \<Rightarrow> bool" where
  "ipv6_is_zero m_data = list_all (\<lambda>d. d = 0) m_data"

definition is_ipv4_mapped :: "ipv6_address \<Rightarrow> bool" where
  "is_ipv4_mapped m_data =
     (if list_ex (\<lambda>i. m_data ! i \<noteq> 0) [0..<10] then False
      else if m_data ! 10 \<noteq> 0xff \<or> m_data ! 11 \<noteq> 0xff then False
      else True)"

definition ipv4_mapped_address :: "ipv6_address \<Rightarrow> ipv4_address option" where
  "ipv4_mapped_address m_data =
     (if is_ipv4_mapped m_data then
        Some (ipv4_of_octets (ucast (m_data ! 12)) (ucast (m_data ! 13)) (ucast (m_data ! 14)) (ucast (m_data ! 15)))
      else None)"

definition ipv6_loopback :: ipv6_address where
  "ipv6_loopback = [0, 0, 0, 0, 0, 0, 0, 0, 0, 0, 0, 0, 0, 0, 0, 1]"

subsection \<open>Printing and reading IPv6 addresses\<close>

definition contiguous_zeros :: "ipv6_address \<Rightarrow> nat \<Rightarrow> nat" where
  "contiguous_zeros m_data i = 1 + length (takeWhile (\<lambda>j. ipv6_piece m_data j = 0) [i + 1..<8])"

function zero_span_loop :: "ipv6_address \<Rightarrow> nat \<Rightarrow> nat option \<Rightarrow> nat \<Rightarrow> nat option \<times> nat" where
  "zero_span_loop m_data i longest_zero_span_start zero_span_length =
     (if i < 8 then
        if ipv6_piece m_data i \<noteq> 0 then zero_span_loop m_data (i + 1) longest_zero_span_start zero_span_length
        else let zeros = contiguous_zeros m_data i in
          if (case longest_zero_span_start of None \<Rightarrow> True | Some start \<Rightarrow> start < zeros) then
            zero_span_loop m_data (i + zeros) (Some i) zeros
          else zero_span_loop m_data (i + zeros) longest_zero_span_start zero_span_length
      else (longest_zero_span_start, zero_span_length))"
  by pat_completeness auto
termination
  by (relation "measure (\<lambda>(_, i, _). 8 - i)") (auto simp: contiguous_zeros_def)

text \<open>The span length is positive when a span was found, so the second loop ends.\<close>

function ipv6_pieces_loop :: "ipv6_address \<Rightarrow> nat option \<Rightarrow> nat \<Rightarrow> nat \<Rightarrow> string result" where
  "ipv6_pieces_loop m_data longest_zero_span_start zero_span_length i =
     (if i < 8 then
        if longest_zero_span_start = Some i \<and> 0 < zero_span_length then
          bind_result (ipv6_pieces_loop m_data longest_zero_span_start zero_span_length (i + zero_span_length)) (\<lambda>rest.
            Inr ((if i + zero_span_length \<ge> 8 then ''::'' else '':'') @ rest))
        else
          bind_result (format_hex (unat (ipv6_piece m_data i))) (\<lambda>digits.
          bind_result (ipv6_pieces_loop m_data longest_zero_span_start zero_span_length (i + 1)) (\<lambda>rest.
            Inr ((if i = 0 then digits else '':'' @ digits) @ rest)))
      else Inr [])"
  by pat_completeness auto
termination
  by (relation "measure (\<lambda>(_, _, _, i). 8 - i)") auto

declare zero_span_loop.simps [simp del] ipv6_pieces_loop.simps [simp del]

definition ipv6_to_string :: "ipv6_address \<Rightarrow> string result" where
  "ipv6_to_string m_data =
     (if ipv6_is_zero m_data then Inr ''::''
      else if is_ipv4_mapped m_data then
        bind_result
          (format_dotted (unat (m_data ! 12)) (unat (m_data ! 13)) (unat (m_data ! 14)) (unat (m_data ! 15)))
          (\<lambda>dotted. Inr (''::ffff:'' @ dotted))
      else case zero_span_loop m_data 0 None 0 of
        (longest_zero_span_start, zero_span_length) \<Rightarrow>
          ipv6_pieces_loop m_data longest_zero_span_start zero_span_length 0)"

text \<open>The number of parts from position \<open>i\<close> on that are blank, the one at \<open>i\<close> counted without a look.\<close>

definition blank_part :: "string \<Rightarrow> bool" where
  "blank_part part = (trim_whitespace part TrimBoth = [])"

definition empty_parts_from :: "string list \<Rightarrow> nat \<Rightarrow> nat" where
  "empty_parts_from parts i = 1 + length (takeWhile blank_part (drop (i + 1) parts))"

function ipv4_prefix_loop :: "ext \<Rightarrow> string list \<Rightarrow> bool \<Rightarrow> nat \<Rightarrow> bool" where
  "ipv4_prefix_loop x parts found_compressed i =
     (if i < length parts then
        if blank_part (parts ! i) then
          if found_compressed then False
          else let empty_parts = empty_parts_from parts i in
            if i = 0 \<and> empty_parts \<noteq> 2 then False
            else if i \<noteq> 0 \<and> empty_parts \<noteq> 1 then False
            else ipv4_prefix_loop x parts True (i + empty_parts)
        else case parse_hexadecimal_number x (trim_whitespace (parts ! i) TrimBoth) of
            None \<Rightarrow> False
          | Some value \<Rightarrow> if value \<noteq> 0 then False else ipv4_prefix_loop x parts found_compressed (i + 1)
      else True)"
  by pat_completeness auto
termination
  by (relation "measure (\<lambda>(_, parts, _, i). length parts - i)") (auto simp: empty_parts_from_def)

definition is_ipv4_prefix :: "ext \<Rightarrow> string list \<Rightarrow> bool" where
  "is_ipv4_prefix x parts =
     (let separator_part = trim_whitespace (parts ! (length parts - 2)) TrimBoth in
      if separator_part = [] then False
      else case parse_hexadecimal_number x separator_part of
          None \<Rightarrow> False
        | Some separator_value \<Rightarrow>
            if separator_value \<noteq> 0xffff then False
            else ipv4_prefix_loop x (take (length parts - 2) parts) False 0)"

function ipv6_parts_loop :: "ext \<Rightarrow> string list \<Rightarrow> ipv6_address \<Rightarrow> int \<Rightarrow> nat \<Rightarrow> bool \<Rightarrow> nat \<Rightarrow>
    ipv6_address result" where
  "ipv6_parts_loop x parts addr piece have_pieces found_compressed i =
     (if i < length parts then
        let trimmed_part = trim_whitespace (parts ! i) TrimBoth in
        if trimmed_part = [] then
          if found_compressed then Inl Failure
          else
            let empty_parts = empty_parts_from parts i;
                is_leading = (i = 0);
                is_trailing = (empty_parts > 1 \<and> i + empty_parts = length parts) in
            if is_leading \<and> is_trailing then
              if empty_parts > 3 then Inl Failure else Inr ipv6_zero
            else if (is_leading \<or> is_trailing) \<and> empty_parts > 2 then Inl Failure
            else if \<not> (is_leading \<or> is_trailing) \<and> empty_parts > 1 then Inl Failure
            else
              let remaining_parts = int (length parts) - int empty_parts - int have_pieces in
              if 8 - remaining_parts < 0 then Inl Verify_failed
              else ipv6_parts_loop x parts addr (8 - remaining_parts) have_pieces True (i + empty_parts)
        else case parse_hexadecimal_number x trimmed_part of
            None \<Rightarrow> Inl Failure
          | Some part \<Rightarrow>
              if part > 0xffff then Inl Failure
              else if have_pieces + 1 > 8 then Inl Failure
              else if \<not> piece < 8 then Inl Verify_failed
              else ipv6_parts_loop x parts
                (addr[nat piece * 2 := of_nat (drop_bit 8 part), nat piece * 2 + 1 := of_nat part])
                (piece + 1) (have_pieces + 1) found_compressed (i + 1)
      else Inr addr)"
  by pat_completeness auto
termination
  by (relation "measure (\<lambda>(_, parts, _, _, _, _, i). length parts - i)") (auto simp: empty_parts_from_def)

declare ipv4_prefix_loop.simps [simp del] ipv6_parts_loop.simps [simp del]

definition ipv6_from_string :: "ext \<Rightarrow> string \<Rightarrow> ipv6_address result" where
  "ipv6_from_string x string =
     (let starts_with_bracket = starts_with_char string CHR ''['';
          ends_with_bracket = ends_with_char string CHR '']'' in
      bind_result
        (if starts_with_bracket \<or> ends_with_bracket then
           if \<not> starts_with_bracket \<or> \<not> ends_with_bracket then Inl Failure
           else substring_view string 1 (length string - 2)
         else Inr string) (\<lambda>string.
      bind_result (split_view string '':'' True False) (\<lambda>parts.
        if parts = [] then Inl Failure
        else if length parts > 9 then Inl Failure
        else if length parts \<ge> 4 \<and> contains_char (parts ! (length parts - 1)) CHR ''.'' \<and> is_ipv4_prefix x parts then
          bind_result (ipv4_from_string x (parts ! (length parts - 1))) (\<lambda>a. Inr (ipv6_of_ipv4 a))
        else ipv6_parts_loop x parts ipv6_zero 0 0 False 0)))"

subsection \<open>Octets and pieces\<close>

lemma and_ff_take_bit: "(w :: 'a::len word) AND 0xff = take_bit 8 w"
  by (simp add: take_bit_eq_mask mask_eq_decr_exp)

lemma octet_take_bit: "octet m i = take_bit 8 (drop_bit (8 * i) m)"
  unfolding octet_def by (rule and_ff_take_bit)

lemma octet_less_256: "unat (octet m i) < 256"
  using unsigned_take_bit_eq [of 8 "drop_bit (8 * i) m", where 'a = nat]
    take_bit_nat_less_exp [of 8 "unat (drop_bit (8 * i) m)"]
  by (simp add: octet_take_bit)

lemma ipv4_of_octets_octet: "ipv4_of_octets (octet m 0) (octet m 1) (octet m 2) (octet m 3) = m"
proof (rule bit_word_eqI)
  fix n
  assume "n < LENGTH(32)"
  then show "bit (ipv4_of_octets (octet m 0) (octet m 1) (octet m 2) (octet m 3)) n = bit m n"
    unfolding ipv4_of_octets_def octet_take_bit
    by (cases "24 \<le> n"; cases "16 \<le> n"; cases "8 \<le> n") (auto simp: bit_simps)
qed

lemma octet_ipv4_of_octets:
  assumes "take_bit 8 a = a" "take_bit 8 b = b" "take_bit 8 c = c" "take_bit 8 d = d"
  shows "octet (ipv4_of_octets a b c d) 0 = a" "octet (ipv4_of_octets a b c d) 1 = b"
    "octet (ipv4_of_octets a b c d) 2 = c" "octet (ipv4_of_octets a b c d) 3 = d"
proof -
  have hi: "n < 8" if "take_bit 8 w = w" "bit w n" for w :: "32 word" and n
    using that by (metis bit_take_bit_iff)
  show "octet (ipv4_of_octets a b c d) 0 = a" "octet (ipv4_of_octets a b c d) 1 = b"
    "octet (ipv4_of_octets a b c d) 2 = c" "octet (ipv4_of_octets a b c d) 3 = d"
    unfolding ipv4_of_octets_def octet_take_bit
    by (rule bit_word_eqI;
        auto simp: bit_simps dest: hi [OF assms(1)] hi [OF assms(2)] hi [OF assms(3)] hi [OF assms(4)])+
qed

lemma piece_bytes:
  "(push_bit 8 (ucast (ucast (drop_bit 8 p) :: 8 word)) OR ucast (ucast (p AND 0xff) :: 8 word) :: 16 word) = p"
  unfolding and_ff_take_bit by (rule bit_word_eqI) (auto simp: bit_simps)

lemma length_ipv6_of_pieces [simp]: "length (ipv6_of_pieces ps) = 2 * length ps"
  by (induction ps) (simp_all add: ipv6_of_pieces_def)

lemma nth_ipv6_of_pieces:
  "i < length ps \<Longrightarrow> ipv6_of_pieces ps ! (i * 2) = ucast (drop_bit 8 (ps ! i))"
  "i < length ps \<Longrightarrow> ipv6_of_pieces ps ! Suc (i * 2) = ucast (ps ! i AND 0xff)"
  by (induction ps arbitrary: i) (auto simp: ipv6_of_pieces_def less_Suc_eq_0_disj nth_Cons')

lemma ipv6_piece_of_pieces [simp]: "i < length ps \<Longrightarrow> ipv6_piece (ipv6_of_pieces ps) i = ps ! i"
  by (simp add: ipv6_piece_def nth_ipv6_of_pieces piece_bytes)

lemma bytes_piece:
  fixes a b :: "8 word"
  shows "(ucast (drop_bit 8 (push_bit 8 (ucast a) OR ucast b :: 16 word)) :: 8 word) = a"
    and "(ucast ((push_bit 8 (ucast a) OR ucast b :: 16 word) AND 0xff) :: 8 word) = b"
proof -
  have hi: "bit b n \<Longrightarrow> n < 8" for n using bit_imp_le_length [of b n] by simp
  show "(ucast (drop_bit 8 (push_bit 8 (ucast a) OR ucast b :: 16 word)) :: 8 word) = a"
    by (rule bit_word_eqI) (auto simp: bit_simps dest: hi)
  show "(ucast ((push_bit 8 (ucast a) OR ucast b :: 16 word) AND 0xff) :: 8 word) = b"
    unfolding and_ff_take_bit by (rule bit_word_eqI) (auto simp: bit_simps)
qed

lemma ipv6_of_pieces_piece:
  assumes "length m = 16"
  shows "ipv6_of_pieces (map (ipv6_piece m) [0..<8]) = m"
proof (rule nth_equalityI)
  show "length (ipv6_of_pieces (map (ipv6_piece m) [0..<8])) = length m" using assms by simp
next
  fix k
  assume "k < length (ipv6_of_pieces (map (ipv6_piece m) [0..<8]))"
  then have k: "k div 2 < 8" by simp
  have "ipv6_of_pieces (map (ipv6_piece m) [0..<8]) ! (k div 2 * 2) = m ! (k div 2 * 2)"
    using k by (simp only: nth_ipv6_of_pieces length_map length_upt) (simp add: ipv6_piece_def bytes_piece del: drop_bit_or)
  moreover have "ipv6_of_pieces (map (ipv6_piece m) [0..<8]) ! Suc (k div 2 * 2) = m ! Suc (k div 2 * 2)"
    using k by (simp only: nth_ipv6_of_pieces length_map length_upt) (simp add: ipv6_piece_def bytes_piece)
  ultimately show "ipv6_of_pieces (map (ipv6_piece m) [0..<8]) ! k = m ! k"
    by (cases "even k") (metis dvd_div_mult_self, metis odd_two_times_div_two_succ mult.commute Suc_eq_plus1)
qed

subsection \<open>IPv4 text\<close>

lemma digits_no_dot: "CHR ''.'' \<notin> set (number_digits 10 False v)"
  using number_digits_decimal [of "CHR ''.''" v] by (auto simp: ak_defs)

lemma trim_number_digits: "trim_whitespace (number_digits 10 False v) mode = number_digits 10 False v"
  unfolding trim_whitespace_def
  by (rule trim_unchanged) (auto dest!: number_digits_decimal simp: ak_defs)

lemma format_dotted_eq:
  "format_dotted a b c d = Inr (number_digits 10 False a @ ''.'' @ number_digits 10 False b @ ''.'' @
     number_digits 10 False c @ ''.'' @ number_digits 10 False d)"
  by (simp add: format_dotted_def)

lemma split_dotted:
  "split_on CHR ''.'' (number_digits 10 False a @ ''.'' @ number_digits 10 False b @ ''.'' @
     number_digits 10 False c @ ''.'' @ number_digits 10 False d) =
   [number_digits 10 False a, number_digits 10 False b, number_digits 10 False c, number_digits 10 False d]"
  using digits_no_dot by (simp add: split_on_join)

context external_laws
begin

lemma ipv4_part_digits: "v \<le> u32_max \<Longrightarrow> ipv4_part x (number_digits 10 False v) = v"
  using parse_number_digits [of 10 v u32_max False]
  by (simp add: ipv4_part_def to_number_u32_def parse_number_def trim_number_digits)

lemma ipv4_from_to_byte_string:
  "bind_result (ipv4_to_byte_string m) (ipv4_from_string x) = Inr m"
proof -
  have le: "unat (octet m i) \<le> 255" for i
    using octet_less_256 [of m i] by linarith
  moreover have "unat (octet m i) \<le> u32_max" for i
    using le [of i] by (simp add: u32_max_def)
  ultimately show ?thesis
    using ipv4_of_octets_octet [of m]
    by (simp add: ipv4_to_byte_string_def format_dotted_eq ipv4_from_string_def split_view_byte_nonempty
        split_dotted [simplified] ipv4_part_digits linorder_not_less)
qed

end

text \<open>
  C25: Reading the dotted text of an \<^verbatim>\<open>IPv4Address\<close> gives back the address: \<^verbatim>\<open>from_string\<close> inverts
  \<^verbatim>\<open>to_byte_string\<close> on all 32-bit values.
\<close>

theorem ipv4_from_string_to_byte_string:
  assumes "external_laws x"
  shows "bind_result (ipv4_to_byte_string m) (ipv4_from_string x) = Inr m"
  using assms by (rule external_laws.ipv4_from_to_byte_string)

theorem ipv4_from_string_to_byte_string_witness:
  "bind_result (ipv4_to_byte_string 0x0100007F) (ipv4_from_string reference_ext) = Inr 0x0100007F"
  by (rule ipv4_from_string_to_byte_string) (rule reference.external_laws_axioms)

subsection \<open>IPv4-mapped addresses\<close>

lemma ipv4_mapped_address_of_ipv4: "ipv4_mapped_address (ipv6_of_ipv4 a) = Some a"
proof -
  have 8: "(ucast (ucast (octet a i) :: 8 word) :: 32 word) = octet a i" for i
    unfolding octet_take_bit by (rule bit_word_eqI) (auto simp: bit_simps)
  have "is_ipv4_mapped (ipv6_of_ipv4 a)"
    by (auto simp: is_ipv4_mapped_def ipv6_of_ipv4_def ipv6_zero_def list_ex_iff nth_list_update)
  then show ?thesis
    by (simp add: ipv4_mapped_address_def ipv6_of_ipv4_def ipv6_zero_def 8 ipv4_of_octets_octet [simplified])
qed

subsection \<open>Reading IPv6 text never aborts\<close>

definition ipv6_parts_inv :: "string list \<Rightarrow> int \<Rightarrow> nat \<Rightarrow> bool \<Rightarrow> nat \<Rightarrow> bool" where
  "ipv6_parts_inv parts piece have_pieces found_compressed i =
     (length parts \<le> 9 \<and>
      (if found_compressed then i \<le> length parts \<longrightarrow> piece + int (length parts) - int i = 8
       else piece = int have_pieces \<and> i = have_pieces))"

lemma empty_parts_from_le:
  "i < length parts \<Longrightarrow> i + empty_parts_from parts i \<le> length parts"
  using length_takeWhile_le [of blank_part "drop (i + 1) parts"] by (simp add: empty_parts_from_def)

lemma ipv6_parts_loop_no_verify:
  "ipv6_parts_inv parts piece have_pieces found_compressed i \<Longrightarrow>
     ipv6_parts_loop x parts addr piece have_pieces found_compressed i \<noteq> Inl Verify_failed"
proof (induction "length parts - i" arbitrary: addr piece have_pieces found_compressed i rule: less_induct)
  case less
  note inv = less.prems [unfolded ipv6_parts_inv_def]
  show ?case
  proof (cases "i < length parts")
    case True
    define e where "e = empty_parts_from parts i"
    have e: "0 < e" "i + e \<le> length parts"
      using empty_parts_from_le [OF True] by (simp_all add: e_def empty_parts_from_def)
    let ?r = "int (length parts) - int e - int have_pieces"
    have "ipv6_parts_loop x parts addr (8 - ?r) have_pieces True (i + e) \<noteq> Inl Verify_failed" if "\<not> found_compressed"
      using less.hyps [of "i + e" "8 - ?r" have_pieces True addr] that inv e by (simp add: ipv6_parts_inv_def)
    moreover have "0 \<le> 8 - ?r" if "\<not> found_compressed"
      using that inv e by auto
    moreover have "piece < 8" if "have_pieces < 8"
      using that inv True by (auto split: if_splits)
    moreover have "ipv6_parts_loop x parts a (piece + 1) (have_pieces + 1) found_compressed (i + 1) \<noteq> Inl Verify_failed" for a
      using less.hyps [of "i + 1" "piece + 1" "have_pieces + 1" found_compressed a] inv True
      by (auto simp: ipv6_parts_inv_def split: if_splits)
    ultimately show ?thesis
      using True unfolding ipv6_parts_loop.simps [of x parts addr piece] Let_def e_def [symmetric]
      by (cases found_compressed) (auto split: option.split)
  qed (simp add: ipv6_parts_loop.simps)
qed

lemma ipv4_from_string_no_verify: "ipv4_from_string x s \<noteq> Inl Verify_failed"
  unfolding ipv4_from_string_def split_view_byte_nonempty bind_result_Inr
  by (auto simp: bind_result_eq_Inl split: list.splits)

lemma bracketed_length:
  "starts_with_char s CHR ''['' \<Longrightarrow> ends_with_char s CHR '']'' \<Longrightarrow> 2 \<le> length s"
  by (cases s; cases "tl s") (auto simp: starts_with_char_def ends_with_char_def)

text \<open>
  C26: \<^verbatim>\<open>IPv6Address::from_string\<close> never aborts: for no input does one of its two assertions on the piece
  index fail, and no access is out of range.
\<close>

theorem ipv6_from_string_never_aborts: "ipv6_from_string x s \<noteq> Inl Verify_failed"
proof -
  have "ipv6_parts_loop x parts ipv6_zero 0 0 False 0 \<noteq> Inl Verify_failed" if "length parts \<le> 9" for parts
    using that by (intro ipv6_parts_loop_no_verify) (simp add: ipv6_parts_inv_def)
  moreover have "substring_view s 1 (length s - 2) \<noteq> Inl Verify_failed"
    if "starts_with_char s CHR ''[''" "ends_with_char s CHR '']''"
    using bracketed_length [OF that] by (simp add: substring_view_def verify_def)
  ultimately show ?thesis
    unfolding ipv6_from_string_def split_view_byte Let_def
    by (intro bind_result_no_error) (auto simp: ipv4_from_string_no_verify bind_result_eq_Inl)
qed


end
