(* ===== verification/Host.thy ===== *)
theory Host
  imports Percent Ip_Addresses
begin

text \<open>
  \<^verbatim>\<open>Libraries/LibURL/Host.cpp\<close>, the lookup in the public suffix table (the text of which is in
  \<^verbatim>\<open>Meta/Generators/generate_public_suffix_data.py\<close>), and \<^verbatim>\<open>get_registrable_domain\<close> of \<^verbatim>\<open>URL.cpp\<close>.
\<close>

datatype host = Host_IPv4 ipv4_address | Host_IPv6 ipv6_address | Host_String string

subsection \<open>Serialization\<close>

definition serialize_ipv4_address :: "ipv4_address \<Rightarrow> string result" where
  "serialize_ipv4_address address =
     (let n0 = unat address; n1 = n0 div 256; n2 = n1 div 256; n3 = n2 div 256
      in format_dotted (n3 mod 256) (n2 mod 256) (n1 mod 256) (n0 mod 256))"

text \<open>One round of the loop over the pieces, on longest index, longest size, found index and found size.\<close>

fun compressed_piece_step :: "ipv6_address \<Rightarrow> nat option \<times> nat \<times> nat option \<times> nat \<Rightarrow> nat \<Rightarrow>
    nat option \<times> nat \<times> nat option \<times> nat" where
  "compressed_piece_step address (longest_index, longest_size, found_index, found_size) piece_index =
     (if ipv6_piece address piece_index \<noteq> 0 then
        if found_size > longest_size then (found_index, found_size, None, 0)
        else (longest_index, longest_size, None, 0)
      else
        (longest_index, longest_size,
         (if found_index = None then Some piece_index else found_index), found_size + 1))"

definition find_the_ipv6_address_compressed_piece_index :: "ipv6_address \<Rightarrow> nat option" where
  "find_the_ipv6_address_compressed_piece_index address =
     (case foldl (compressed_piece_step address) (None, 1, None, 0) [0..<8] of
        (longest_index, longest_size, found_index, found_size) \<Rightarrow>
          if found_size > longest_size then found_index else longest_index)"

fun serialize_ipv6_loop :: "ipv6_address \<Rightarrow> nat option \<Rightarrow> bool \<Rightarrow> nat list \<Rightarrow> string result" where
  "serialize_ipv6_loop address compress ignore0 [] = Inr []"
| "serialize_ipv6_loop address compress ignore0 (piece_index # rest) =
     (if ignore0 \<and> ipv6_piece address piece_index = 0 then serialize_ipv6_loop address compress ignore0 rest
      else if compress = Some piece_index then
        bind_result (serialize_ipv6_loop address compress True rest) (\<lambda>out.
          Inr ((if piece_index = 0 then ''::'' else '':'') @ out))
      else
        bind_result (format_hex (unat (ipv6_piece address piece_index))) (\<lambda>digits.
        bind_result (serialize_ipv6_loop address compress False rest) (\<lambda>out.
          Inr (digits @ (if piece_index \<noteq> 7 then '':'' else []) @ out))))"

definition serialize_ipv6_address :: "ipv6_address \<Rightarrow> string result" where
  "serialize_ipv6_address address =
     serialize_ipv6_loop address (find_the_ipv6_address_compressed_piece_index address) False [0..<8]"

definition is_domain :: "host \<Rightarrow> bool" where
  "is_domain h = (case h of Host_String s \<Rightarrow> s \<noteq> [] | _ \<Rightarrow> False)"

definition is_empty_host :: "host \<Rightarrow> bool" where
  "is_empty_host h = (case h of Host_String s \<Rightarrow> s = [] | _ \<Rightarrow> False)"

definition host_serialize :: "host \<Rightarrow> string result" where
  "host_serialize h =
     (case h of
        Host_IPv4 address \<Rightarrow> serialize_ipv4_address address
      | Host_IPv6 address \<Rightarrow>
          bind_result (serialize_ipv6_address address) (\<lambda>out. Inr (''['' @ out @ '']''))
      | Host_String s \<Rightarrow> Inr s)"

subsection \<open>Public suffixes\<close>

definition is_public_suffix :: "ext \<Rightarrow> string \<Rightarrow> bool" where
  "is_public_suffix x host = (host \<in> set (s_public_suffixes x))"

fun public_suffix_loop :: "ext \<Rightarrow> string list \<Rightarrow> string \<Rightarrow> string" where
  "public_suffix_loop x [] overall_search_string = overall_search_string"
| "public_suffix_loop x (part # input) overall_search_string =
     (if is_public_suffix x (overall_search_string @ part) then
        public_suffix_loop x input (overall_search_string @ part @ ''.'')
      else if is_public_suffix x (overall_search_string @ ''.'') then
        public_suffix_loop x input (overall_search_string @ part @ ''.'')
      else overall_search_string)"

fun join :: "char \<Rightarrow> string list \<Rightarrow> string" where
  "join separator [] = []"
| "join separator [item] = item"
| "join separator (item # items) = item @ separator # join separator items"

definition get_public_suffix :: "ext \<Rightarrow> string \<Rightarrow> string option result" where
  "get_public_suffix x string =
     bind_result (split_view string ''.'' False False) (\<lambda>input.
     bind_result (split_view (public_suffix_loop x (rev input) []) ''.'' False False) (\<lambda>view.
     let return_string = join CHR ''.'' (rev view)
     in if return_string = [] then Inr None
        else bind_result (must (string_from_utf8 x return_string)) (\<lambda>r. Inr (Some r))))"

definition get_registrable_domain :: "ext \<Rightarrow> string \<Rightarrow> string option result" where
  "get_registrable_domain x host =
     bind_result (get_public_suffix x host) (\<lambda>public_suffix.
     case public_suffix of
       None \<Rightarrow> Inr None
     | Some public_suffix \<Rightarrow>
         if \<not> ends_with host public_suffix CaseSensitive then Inr None
         else if host = public_suffix then Inr None
         else
           bind_result (substring_view host 0 (length host - length public_suffix)) (\<lambda>subhost.
           let subhost = trim subhost ''.'' TrimRight in
           if subhost = [] then Inr None
           else
             let start_index = (case find_last subhost CHR ''.'' of None \<Rightarrow> 0 | Some index \<Rightarrow> index + 1) in
             bind_result (substring_view_from host start_index) (\<lambda>domain.
             bind_result (must (string_from_utf8 x domain)) (\<lambda>r. Inr (Some r)))))"

definition host_without_trailing_dot :: "string \<Rightarrow> string result" where
  "host_without_trailing_dot host_string =
     (if ends_with_char host_string CHR ''.'' then substring_view host_string 0 (length host_string - 1)
      else Inr host_string)"

definition public_suffix :: "ext \<Rightarrow> host \<Rightarrow> string option result" where
  "public_suffix x h =
     (case h of
        Host_String host_string \<Rightarrow>
          if \<not> is_domain h then Inr None
          else
            let trailing_dot = (if ends_with_char host_string CHR ''.'' then ''.'' else []) in
            bind_result (host_without_trailing_dot host_string) (\<lambda>host_without_trailing_dot.
            bind_result (get_public_suffix x host_without_trailing_dot) (\<lambda>found.
            bind_result
              (case found of
                 Some p \<Rightarrow> Inr p
               | None \<Rightarrow>
                   (case find_last host_without_trailing_dot CHR ''.'' of
                      Some last_dot \<Rightarrow>
                        bind_result (substring_view_from host_without_trailing_dot (last_dot + 1)) (\<lambda>s.
                          must (string_from_utf8 x s))
                    | None \<Rightarrow> must (string_from_utf8 x host_without_trailing_dot))) (\<lambda>public_suffix.
            bind_result (verify (is_ascii_view x public_suffix)) (\<lambda>_.
            bind_result (verify (\<not> ends_with_char public_suffix CHR ''.'')) (\<lambda>_.
              Inr (Some (public_suffix @ trailing_dot)))))))
      | _ \<Rightarrow> Inr None)"

definition registrable_domain :: "ext \<Rightarrow> host \<Rightarrow> string option result" where
  "registrable_domain x h =
     bind_result (public_suffix x h) (\<lambda>public_suffix.
     case h of
       Host_String host_string \<Rightarrow>
         if public_suffix = None \<or> public_suffix = Some host_string then Inr None
         else
           let trailing_dot = (if ends_with_char host_string CHR ''.'' then ''.'' else []) in
           bind_result (host_without_trailing_dot host_string) (\<lambda>host_without_trailing_dot.
           bind_result (get_registrable_domain x host_without_trailing_dot) (\<lambda>found.
           bind_result
             (case found of
                Some d \<Rightarrow> Inr (Some d)
              | None \<Rightarrow>
                  (case find_last host_without_trailing_dot CHR ''.'' of
                     None \<Rightarrow> Inr None
                   | Some last_dot \<Rightarrow>
                       bind_result (substring_view host_without_trailing_dot 0 last_dot) (\<lambda>s.
                       case find_last s CHR ''.'' of
                         None \<Rightarrow> Inr None
                       | Some second_last_dot \<Rightarrow>
                           bind_result (substring_view_from host_without_trailing_dot (second_last_dot + 1)) (\<lambda>d.
                           bind_result (must (string_from_utf8 x d)) (\<lambda>d. Inr (Some d)))))) (\<lambda>found.
           bind_result
             (case found of Some d \<Rightarrow> Inr d | None \<Rightarrow> must (string_from_utf8 x host_without_trailing_dot)) (\<lambda>domain.
           bind_result (verify (is_ascii_view x domain)) (\<lambda>_.
           bind_result (verify (\<not> ends_with_char domain CHR ''.'')) (\<lambda>_.
             Inr (Some (domain @ trailing_dot))))))))
     | _ \<Rightarrow> Inr None)"

subsection \<open>Labels\<close>

lemma find_last_loop_None: "n \<le> length s \<Longrightarrow> find_last_loop s c n = None \<longleftrightarrow> c \<notin> set (take n s)"
  by (induction n) (auto simp: take_Suc_conv_app_nth)

lemma find_last_loop_Some:
  "find_last_loop s c n = Some i \<Longrightarrow> i < n \<and> s ! i = c \<and> (\<forall>j. i < j \<and> j < n \<longrightarrow> s ! j \<noteq> c)"
  by (induction n) (auto split: if_splits simp: less_Suc_eq)

lemma find_last_None: "find_last s c = None \<longleftrightarrow> c \<notin> set s"
  by (simp add: find_last_def find_last_loop_None)

lemma find_last_Some: "find_last s c = Some i \<Longrightarrow> i < length s \<and> s ! i = c \<and> c \<notin> set (drop (i + 1) s)"
  using find_last_loop_Some [of s c "length s" i] by (auto simp: find_last_def in_set_conv_nth)

lemma ends_with_char_last: "ends_with_char s c \<longleftrightarrow> s \<noteq> [] \<and> last s = c"
  by (auto simp: ends_with_char_def last_conv_nth)

lemma split_on_label: "p \<in> set (split_on c s) \<Longrightarrow> c \<notin> set p \<and> set p \<subseteq> set s"
proof (induction s arbitrary: p)
  case (Cons b s)
  obtain q qs where q: "split_on c s = q # qs" by (cases "split_on c s") simp_all
  have IH: "c \<notin> set r \<and> set r \<subseteq> set s" if "r \<in> set (q # qs)" for r
    using Cons.IH [of r] that q by simp
  from Cons.prems have "p = [] \<and> b = c \<or> p = b # q \<and> b \<noteq> c \<or> p \<in> set (q # qs)"
    by (auto simp: q split: if_splits)
  with IH [of p] IH [of q] show ?case by auto
qed simp

lemma set_join: "set (join c items) \<subseteq> insert c (\<Union> (set ` set items))"
  by (induction c items rule: join.induct) auto

lemma last_join: "items \<noteq> [] \<Longrightarrow> last items \<noteq> [] \<Longrightarrow> join c items \<noteq> [] \<and> last (join c items) = last (last items)"
  by (induction c items rule: join.induct) (auto split: if_splits)

lemma set_public_suffix_loop:
  "set (public_suffix_loop x input acc) \<subseteq> insert CHR ''.'' (set acc \<union> \<Union> (set ` set input))"
proof (induction input arbitrary: acc)
  case (Cons part input)
  from Cons.IH [of "acc @ part @ ''.''"] show ?case
    by (simp split: if_split) blast
qed auto

lemma ascii_string_subset: "ascii_string s \<Longrightarrow> set t \<subseteq> set s \<Longrightarrow> ascii_string t"
  by (auto simp: ascii_string_def list_all_iff)

lemma ascii_string_set: "ascii_string s \<longleftrightarrow> (\<forall>b \<in> set s. cp b < 0x80)"
  by (auto simp: ascii_string_def list_all_iff)

context external_laws
begin

lemma is_ascii_view_eq: "is_ascii_view x s = ascii_string s"
  by (simp add: is_ascii_view_def validate_ascii)

lemma get_public_suffix_ok:
  assumes "ascii_string s"
  shows "\<exists>r. get_public_suffix x s = Inr r \<and>
    (\<forall>p. r = Some p \<longrightarrow> ascii_string p \<and> p \<noteq> [] \<and> \<not> ends_with_char p CHR ''.'')"
proof -
  define input where "input = filter (\<lambda>p. p \<noteq> []) (split_on CHR ''.'' s)"
  define found where "found = public_suffix_loop x (rev input) []"
  define view where "view = filter (\<lambda>p. p \<noteq> []) (split_on CHR ''.'' found)"
  define out where "out = join CHR ''.'' (rev view)"
  have "set out \<subseteq> insert CHR ''.'' (set found)"
    using set_join [of "CHR ''.''" "rev view"] split_on_label [of _ "CHR ''.''" found] by (auto simp: out_def view_def)
  moreover have "set found \<subseteq> insert CHR ''.'' (set s)"
    using set_public_suffix_loop [of x "rev input" "[]"] split_on_label [of _ "CHR ''.''" s]
    by (auto simp: found_def input_def)
  ultimately have "set out \<subseteq> insert CHR ''.'' (set s)" by blast
  then have ascii: "ascii_string out"
    using assms by (auto simp: ascii_string_set subset_iff)
  have "\<not> ends_with_char out CHR ''.''" if "out \<noteq> []"
  proof -
    have "rev view \<noteq> []" using that by (auto simp: out_def)
    moreover from this have "last (rev view) \<in> set view" using last_in_set [of "rev view"] by simp
    then have "last (rev view) \<noteq> []" "CHR ''.'' \<notin> set (last (rev view))"
      using split_on_label [of "last (rev view)" "CHR ''.''" found] by (auto simp: view_def)
    moreover from this have "last (last (rev view)) \<noteq> CHR ''.''" by (metis last_in_set)
    ultimately show ?thesis
      using last_join [of "rev view" "CHR ''.''"] by (simp add: out_def ends_with_char_last)
  qed
  moreover have "get_public_suffix x s = Inr (if out = [] then None else Some out)"
    using ascii
    by (simp add: get_public_suffix_def split_view_byte_nonempty input_def [symmetric] found_def [symmetric]
        view_def [symmetric] out_def [symmetric] string_from_utf8_ascii must_def)
  ultimately show ?thesis
    using ascii by auto
qed

end

subsection \<open>When a registrable domain exists\<close>

definition without_dot :: "string \<Rightarrow> string" where
  "without_dot s = (if ends_with_char s CHR ''.'' then butlast s else s)"

lemma host_without_trailing_dot_eq: "host_without_trailing_dot s = Inr (without_dot s)"
  by (simp add: host_without_trailing_dot_def without_dot_def substring_view_def butlast_conv_take)

lemma substring_view_from_eq: "k \<le> length s \<Longrightarrow> substring_view_from s k = Inr (drop k s)"
  by (simp add: substring_view_from_def substring_view_def)

lemma ascii_drop: "ascii_string s \<Longrightarrow> ascii_string (drop k s)"
  by (auto intro: ascii_string_subset dest: in_set_dropD)

lemma ascii_without_dot: "ascii_string s \<Longrightarrow> ascii_string (without_dot s)"
  by (auto simp: without_dot_def intro: ascii_string_subset dest: in_set_butlastD)

lemma length_trim_le: "length (trim s cs mode) \<le> length s"
  by (auto simp: trim_def Let_def)

lemma no_dot_no_end: "c \<notin> set s \<Longrightarrow> \<not> ends_with_char s c"
  by (auto simp: ends_with_char_last)

context external_laws
begin

lemma public_suffix_ok:
  assumes "ascii_string s" and "s \<noteq> []"
  shows "\<exists>p. public_suffix x (Host_String s) = Inr (Some (p @ (if ends_with_char s CHR ''.'' then ''.'' else []))) \<and>
    \<not> ends_with_char p CHR ''.''"
proof -
  let ?w = "without_dot s"
  obtain r where r: "get_public_suffix x ?w = Inr r"
      "\<And>p. r = Some p \<Longrightarrow> ascii_string p \<and> p \<noteq> [] \<and> \<not> ends_with_char p CHR ''.''"
    using get_public_suffix_ok [OF ascii_without_dot [OF assms(1)]] by blast
  define p where "p = (case r of Some p \<Rightarrow> p | None \<Rightarrow>
      (case find_last ?w CHR ''.'' of Some i \<Rightarrow> drop (i + 1) ?w | None \<Rightarrow> ?w))"
  have p: "ascii_string p" "\<not> ends_with_char p CHR ''.''"
    using r(2) assms(1) find_last_Some [of ?w "CHR ''.''"] find_last_None [of ?w "CHR ''.''"]
    by (auto simp: p_def ascii_drop ascii_without_dot no_dot_no_end split: option.split)
  moreover have "(case r of Some p \<Rightarrow> Inr p | None \<Rightarrow>
      (case find_last ?w CHR ''.'' of
         Some i \<Rightarrow> bind_result (substring_view_from ?w (i + 1)) (\<lambda>s. must (string_from_utf8 x s))
       | None \<Rightarrow> must (string_from_utf8 x ?w))) = Inr p"
    using assms(1) find_last_Some [of ?w "CHR ''.''"]
    by (auto simp: p_def substring_view_from_eq string_from_utf8_ascii ascii_drop ascii_without_dot must_def
        split: option.split)
  ultimately show ?thesis
    using assms(2) r(1)
    by (simp add: public_suffix_def is_domain_def host_without_trailing_dot_eq is_ascii_view_eq del: Suc_eq_plus1)
qed

lemma get_registrable_domain_ok:
  assumes "ascii_string w"
  shows "\<exists>r. get_registrable_domain x w = Inr r \<and> (\<forall>d. r = Some d \<longrightarrow> (\<exists>k < length w. d = drop k w))"
proof -
  obtain r where r: "get_public_suffix x w = Inr r" "\<And>p. r = Some p \<Longrightarrow> p \<noteq> []"
    using get_public_suffix_ok [OF assms] by blast
  show ?thesis
  proof (cases r)
    case (Some p)
    let ?sub = "trim (take (length w - length p) w) ''.'' TrimRight"
    let ?start = "case find_last ?sub CHR ''.'' of None \<Rightarrow> 0 | Some index \<Rightarrow> index + 1"
    have "?start < length w" if "?sub \<noteq> []" "w \<noteq> []"
      using find_last_Some [of ?sub "CHR ''.''"] length_trim_le [of "take (length w - length p) w" "''.''" TrimRight] r(2) [OF Some] that
      by (cases p) (auto split: option.split)
    then show ?thesis
      using r(1) Some r(2) [OF Some] assms
      by (auto simp: get_registrable_domain_def substring_view_def substring_view_from_eq Let_def
          string_from_utf8_ascii ascii_drop must_def trim_def del: Suc_eq_plus1)
  qed (simp add: get_registrable_domain_def r)
qed

end

definition second_level :: "string \<Rightarrow> string option" where
  "second_level w =
     (case find_last w CHR ''.'' of None \<Rightarrow> None
      | Some last_dot \<Rightarrow>
          (case find_last (take last_dot w) CHR ''.'' of None \<Rightarrow> None
           | Some second_last_dot \<Rightarrow> Some (drop (second_last_dot + 1) w)))"

lemma second_level_suffix: "second_level w = Some d \<Longrightarrow> \<exists>k < length w. d = drop k w"
proof -
  assume "second_level w = Some d"
  then obtain i j where "find_last w CHR ''.'' = Some i" "find_last (take i w) CHR ''.'' = Some j"
      "d = drop (j + 1) w"
    by (auto simp: second_level_def split: option.splits)
  then have "j + 1 < length w" "d = drop (j + 1) w"
    using find_last_Some [of w "CHR ''.''" i] find_last_Some [of "take i w" "CHR ''.''" j] by auto
  then show ?thesis by blast
qed

lemma substring_view_after_label:
  "find_last (take n w) c = Some j \<Longrightarrow> substring_view_from w (Suc j) = Inr (drop (Suc j) w)"
  using find_last_Some [of "take n w" c j] by (intro substring_view_from_eq) simp

lemma ends_with_char_drop: "k < length w \<Longrightarrow> ends_with_char (drop k w) c \<longleftrightarrow> ends_with_char w c"
  by (auto simp: ends_with_char_last)

lemma ends_with_two_dots:
  "(\<exists>t. s = t @ ''..'') \<longleftrightarrow> ends_with_char s CHR ''.'' \<and> ends_with_char (without_dot s) CHR ''.''"
proof
  assume r: "ends_with_char s CHR ''.'' \<and> ends_with_char (without_dot s) CHR ''.''"
  then have "s = butlast (butlast s) @ [last (butlast s), last s]"
    by (metis append_butlast_last_id append_Cons append_Nil append_assoc butlast.simps(1) ends_with_char_last without_dot_def)
  with r show "\<exists>t. s = t @ ''..''"
    by (auto simp: ends_with_char_last without_dot_def intro!: exI [of _ "butlast (butlast s)"])
qed (auto simp: ends_with_char_last without_dot_def butlast_append)

context external_laws
begin

lemma registrable_domain_eq:
  assumes "ascii_string s" and "s \<noteq> []"
    and "public_suffix x (Host_String s) = Inr (Some p)" and "p \<noteq> s"
  shows "\<exists>d. (d = without_dot s \<or> (\<exists>k < length (without_dot s). d = drop k (without_dot s))) \<and>
    registrable_domain x (Host_String s) =
      (if ends_with_char d CHR ''.'' then Inl Verify_failed
       else Inr (Some (d @ (if ends_with_char s CHR ''.'' then ''.'' else []))))"
proof -
  let ?w = "without_dot s"
  note w = ascii_without_dot [OF assms(1)]
  obtain r where r: "get_registrable_domain x ?w = Inr r" "\<And>d. r = Some d \<Longrightarrow> \<exists>k < length ?w. d = drop k ?w"
    using get_registrable_domain_ok [OF w] by blast
  define f where "f = (case r of Some d \<Rightarrow> Some d | None \<Rightarrow> second_level ?w)"
  have f: "\<exists>k < length ?w. d = drop k ?w" if "f = Some d" for d
    using that r(2) second_level_suffix [of ?w] by (auto simp: f_def split: option.splits)
  have inner: "(case r of Some d \<Rightarrow> Inr (Some d) | None \<Rightarrow>
      (case find_last ?w CHR ''.'' of None \<Rightarrow> Inr None
       | Some last_dot \<Rightarrow> bind_result (substring_view ?w 0 last_dot) (\<lambda>s.
           case find_last s CHR ''.'' of None \<Rightarrow> Inr None
           | Some second_last_dot \<Rightarrow> bind_result (substring_view_from ?w (second_last_dot + 1)) (\<lambda>d.
               bind_result (must (string_from_utf8 x d)) (\<lambda>d. Inr (Some d)))))) = Inr f"
    using w find_last_Some [of ?w "CHR ''.''"]
    by (auto simp: f_def second_level_def substring_view_def substring_view_after_label string_from_utf8_ascii
        ascii_drop must_def less_imp_le split: option.split)
  define d where "d = (case f of Some d \<Rightarrow> d | None \<Rightarrow> ?w)"
  have d: "d = ?w \<or> (\<exists>k < length ?w. d = drop k ?w)" using f by (auto simp: d_def split: option.split)
  then have "ascii_string d" using w by (auto simp: ascii_drop)
  moreover have "(case f of Some d \<Rightarrow> Inr d | None \<Rightarrow> must (string_from_utf8 x ?w)) = Inr d"
    using w by (auto simp: d_def string_from_utf8_ascii must_def split: option.split)
  ultimately have "registrable_domain x (Host_String s) =
      (if ends_with_char d CHR ''.'' then Inl Verify_failed
       else Inr (Some (d @ (if ends_with_char s CHR ''.'' then ''.'' else []))))"
    using assms(3,4) r(1) inner
    by (simp add: registrable_domain_def host_without_trailing_dot_eq is_ascii_view_eq verify_def Let_def)
  with d show ?thesis by blast
qed

lemma registrable_domain_aborts_iff:
  assumes "ascii_string s"
  shows "registrable_domain x (Host_String s) = Inl Verify_failed \<longleftrightarrow> (\<exists>t. s = t @ ''..'')"
proof (cases "s = []")
  case True
  then show ?thesis by (simp add: registrable_domain_def public_suffix_def is_domain_def)
next
  case False
  let ?w = "without_dot s"
  obtain p where p: "public_suffix x (Host_String s) = Inr (Some (p @ (if ends_with_char s CHR ''.'' then ''.'' else [])))"
      "\<not> ends_with_char p CHR ''.''"
    using public_suffix_ok [OF assms False] by blast
  show ?thesis
  proof (cases "p @ (if ends_with_char s CHR ''.'' then ''.'' else []) = s")
    case True
    then have "?w = p" using p(2) by (auto simp: without_dot_def split: if_splits)
    with True p show ?thesis
      by (simp add: registrable_domain_def ends_with_two_dots)
  next
    case False
    obtain d where d: "d = ?w \<or> (\<exists>k < length ?w. d = drop k ?w)"
        "registrable_domain x (Host_String s) =
          (if ends_with_char d CHR ''.'' then Inl Verify_failed
           else Inr (Some (d @ (if ends_with_char s CHR ''.'' then ''.'' else []))))"
      using registrable_domain_eq [OF assms \<open>s \<noteq> []\<close> p(1) False] by blast
    have "ends_with_char d CHR ''.'' \<longleftrightarrow> ends_with_char ?w CHR ''.''"
      using d(1) by (auto simp: ends_with_char_drop)
    moreover have "ends_with_char ?w CHR ''.'' \<Longrightarrow> ends_with_char s CHR ''.''"
      by (simp add: without_dot_def split: if_splits)
    ultimately show ?thesis
      using d(2) by (auto simp: ends_with_two_dots)
  qed
qed

end

text \<open>
  C27: \<^verbatim>\<open>Host::registrable_domain\<close> of an ASCII host string aborts the process exactly when the string ends
  in two dots, whatever the public suffix table is: then none of the candidates for the registrable
  domain is free of a final dot, and the assertion on it fails.  For every other host it returns.
\<close>

theorem registrable_domain_aborts_on_two_dots:
  assumes "external_laws x" and "ascii_string s"
  shows "registrable_domain x (Host_String s) = Inl Verify_failed \<longleftrightarrow> (\<exists>t. s = t @ ''..'')"
  using assms by (rule external_laws.registrable_domain_aborts_iff)

theorem registrable_domain_aborts_on_two_dots_witness:
  "registrable_domain reference_ext (Host_String ''example.com..'') = Inl Verify_failed"
proof -
  have "\<exists>t. ''example.com..'' = t @ ''..''" by (rule exI [of _ "''example.com''"]) simp
  moreover have "ascii_string ''example.com..''" by simp
  ultimately show ?thesis
    using registrable_domain_aborts_on_two_dots [OF reference.external_laws_axioms] by blast
qed

subsection \<open>Wildcard rules\<close>

lemma utf8_validate_table: "utf8_validate (x\<lparr>s_public_suffixes := t\<rparr>) allow s = utf8_validate x allow s"
proof (induction s rule: measure_induct_rule [of length])
  case (less s)
  then show ?case
    by (auto simp: utf8_validate.simps [of _ allow s] split: prod.split)
qed

lemma string_from_utf8_table: "string_from_utf8 (x\<lparr>s_public_suffixes := t\<rparr>) s = string_from_utf8 x s"
  by (simp add: string_from_utf8_def utf8_validate_table)

lemma public_suffix_loop_table:
  assumes "\<And>q. CHR ''*'' \<notin> set q \<Longrightarrow> is_public_suffix y q = is_public_suffix x q"
    and "CHR ''*'' \<notin> set acc" and "\<And>p. p \<in> set input \<Longrightarrow> CHR ''*'' \<notin> set p"
  shows "public_suffix_loop y input acc = public_suffix_loop x input acc"
  using assms(2,3)
proof (induction input arbitrary: acc)
  case (Cons part input)
  then have "is_public_suffix y (acc @ part) = is_public_suffix x (acc @ part)"
    "is_public_suffix y (acc @ ''.'') = is_public_suffix x (acc @ ''.'')"
    using assms(1) by simp_all
  with Cons show ?case by simp
qed simp

text \<open>
  C28: The wildcard rules of the public suffix list have no effect.  The generator writes a rule \<open>*.ck\<close> as
  the table entry \<open>ck.*\<close>, and \<^verbatim>\<open>get_public_suffix\<close> only searches for strings made of the labels of the
  host, so removing all entries that contain an asterisk changes the result for no host without one.
\<close>

theorem get_public_suffix_ignores_wildcards:
  assumes "CHR ''*'' \<notin> set s"
  shows "get_public_suffix (x\<lparr>s_public_suffixes := filter (\<lambda>r. CHR ''*'' \<notin> set r) (s_public_suffixes x)\<rparr>) s =
    get_public_suffix x s"
proof -
  let ?y = "x\<lparr>s_public_suffixes := filter (\<lambda>r. CHR ''*'' \<notin> set r) (s_public_suffixes x)\<rparr>"
  have "public_suffix_loop ?y (rev (filter (\<lambda>p. p \<noteq> []) (split_on CHR ''.'' s))) [] =
      public_suffix_loop x (rev (filter (\<lambda>p. p \<noteq> []) (split_on CHR ''.'' s))) []"
    using assms split_on_label [of _ "CHR ''.''" s]
    by (intro public_suffix_loop_table) (auto simp: is_public_suffix_def)
  then show ?thesis
    by (simp add: get_public_suffix_def split_view_byte_nonempty string_from_utf8_table Let_def)
qed

theorem get_public_suffix_ignores_wildcards_witness:
  "get_public_suffix (reference_ext\<lparr>s_public_suffixes := []\<rparr>) ''www.foo.ck'' =
   get_public_suffix (reference_ext\<lparr>s_public_suffixes := [''ck.*'']\<rparr>) ''www.foo.ck''"
  using get_public_suffix_ignores_wildcards [of "''www.foo.ck''" "reference_ext\<lparr>s_public_suffixes := [''ck.*'']\<rparr>"]
  by simp

subsection \<open>The compressed piece\<close>

definition zeros :: "ipv6_address \<Rightarrow> nat \<Rightarrow> nat \<Rightarrow> bool" where
  "zeros a i l = (\<forall>j \<in> {i..<i + l}. ipv6_piece a j = 0)"

lemma zeros_prefix: "zeros a i l \<Longrightarrow> i \<le> j \<Longrightarrow> j < i + l \<Longrightarrow> ipv6_piece a j = 0"
  by (simp add: zeros_def)

definition compress_inv :: "ipv6_address \<Rightarrow> nat \<Rightarrow> nat option \<times> nat \<times> nat option \<times> nat \<Rightarrow> bool" where
  "compress_inv a n = (\<lambda>(longest_index, longest_size, found_index, found_size).
     found_size \<le> n \<and> zeros a (n - found_size) found_size \<and>
     (found_size < n \<longrightarrow> ipv6_piece a (n - found_size - 1) \<noteq> 0) \<and>
     found_index = (if found_size = 0 then None else Some (n - found_size)) \<and>
     (case longest_index of
        None \<Rightarrow> longest_size = 1
      | Some i \<Rightarrow> 2 \<le> longest_size \<and> i + longest_size \<le> n - found_size \<and> zeros a i longest_size) \<and>
     (\<forall>i l. i + l \<le> n - found_size \<and> zeros a i l \<longrightarrow>
        l \<le> longest_size \<and> (l = longest_size \<longrightarrow> (case longest_index of None \<Rightarrow> True | Some k \<Rightarrow> k \<le> i))))"

lemma zeros_split:
  assumes "zeros a i l" and "i + l \<le> n" and "m \<le> n" and "0 < m \<longrightarrow> ipv6_piece a (m - 1) \<noteq> 0"
  shows "i + l \<le> m \<or> m \<le> i"
  using assms zeros_prefix [OF assms(1), of "m - 1"] by force

lemma zeros_0 [simp]: "zeros a i 0"
  by (simp add: zeros_def)

lemma zeros_Suc: "zeros a i (Suc l) \<longleftrightarrow> zeros a i l \<and> ipv6_piece a (i + l) = 0"
  by (auto simp: zeros_def atLeastLessThanSuc)

lemma zeros_region:
  assumes "zeros a i l" and "i + l \<le> n" and "fs \<le> n" and "fs < n \<longrightarrow> ipv6_piece a (n - fs - 1) \<noteq> 0"
  shows "i + l \<le> n - fs \<or> (n - fs \<le> i \<and> l \<le> fs)"
  using zeros_split [OF assms(1,2), of "n - fs"] assms by auto

lemma compress_inv_nonzero:
  assumes inv: "compress_inv a n (li, ls, fi, fs)" and nz: "ipv6_piece a n \<noteq> 0"
    and run: "zeros a i l" "i + l \<le> n + 1" "0 < l"
  shows "l \<le> max ls fs \<and> (l = ls \<and> fs \<le> ls \<longrightarrow> (case li of None \<Rightarrow> True | Some k \<Rightarrow> k \<le> i)) \<and>
    (l = fs \<and> ls < fs \<longrightarrow> n - fs \<le> i)"
proof -
  have "i + l \<le> n"
    using zeros_prefix [OF run(1), of n] nz run by (cases "i + l = n + 1") auto
  moreover have fs: "fs \<le> n" "fs < n \<longrightarrow> ipv6_piece a (n - fs - 1) \<noteq> 0"
    and li: "case li of None \<Rightarrow> True | Some k \<Rightarrow> k + ls \<le> n - fs"
    and old: "i + l \<le> n - fs \<Longrightarrow> l \<le> ls \<and> (l = ls \<longrightarrow> (case li of None \<Rightarrow> True | Some k \<Rightarrow> k \<le> i))"
    using inv run(1) by (auto simp: compress_inv_def split: option.splits)
  ultimately consider "i + l \<le> n - fs" | "n - fs \<le> i" "l \<le> fs"
    using zeros_region [OF run(1)] by blast
  then show ?thesis
  proof cases
    case 1
    then show ?thesis using old by auto
  next
    case 2
    then show ?thesis using li by (auto split: option.splits)
  qed
qed

lemma compress_inv_step:
  assumes "compress_inv a n s"
  shows "compress_inv a (n + 1) (compressed_piece_step a s n)"
proof -
  obtain li ls fi fs where s: "s = (li, ls, fi, fs)" by (cases s)
  show ?thesis
  proof (cases "ipv6_piece a n = 0")
    case True
    then show ?thesis
      using assms zeros_Suc [of a "n - fs" fs] by (cases li) (auto simp: s compress_inv_def)
  next
    case False
    note runs = compress_inv_nonzero [OF assms [unfolded s] False]
    have ls: "1 \<le> ls" using assms by (auto simp: s compress_inv_def split: option.splits)
    show ?thesis
    proof (cases "ls < fs")
      case True
      have "l \<le> fs \<and> (l = fs \<longrightarrow> n - fs \<le> i)" if "i + l \<le> n + 1" "zeros a i l" for i l
        using runs [of i l] that True by (cases "l = 0") auto
      moreover have "fi = Some (n - fs)" "zeros a (n - fs) fs" "fs \<le> n" "2 \<le> fs"
        using assms ls True by (auto simp: s compress_inv_def)
      moreover from this have "compressed_piece_step a s n = (Some (n - fs), fs, None, 0)"
        using True False by (simp add: s)
      ultimately show ?thesis
        using False by (simp only: compress_inv_def) auto
    next
      case le: False
      have "l \<le> ls \<and> (l = ls \<longrightarrow> (case li of None \<Rightarrow> True | Some k \<Rightarrow> k \<le> i))" if "i + l \<le> n + 1" "zeros a i l" for i l
        using runs [of i l] that le ls by (cases "l = 0") (auto simp: max_def)
      moreover have "case li of None \<Rightarrow> ls = 1 | Some i \<Rightarrow> 2 \<le> ls \<and> i + ls \<le> n + 1 - 0 \<and> zeros a i ls"
        using assms by (auto simp: s compress_inv_def split: option.splits)
      moreover have "compressed_piece_step a s n = (li, ls, None, 0)"
        using le False by (simp add: s)
      ultimately show ?thesis
        using False by (simp only: compress_inv_def) auto
    qed
  qed
qed

lemma compress_inv_fold: "compress_inv a n (foldl (compressed_piece_step a) (None, 1, None, 0) [0..<n])"
proof (induction n)
  case 0
  then show ?case by (auto simp: compress_inv_def zeros_def)
next
  case (Suc n)
  then show ?case using compress_inv_step [of a n] by simp
qed

lemma compressed_piece_longest:
  "case find_the_ipv6_address_compressed_piece_index a of
     None \<Rightarrow> \<forall>i l. i + l \<le> 8 \<and> zeros a i l \<longrightarrow> l \<le> 1
   | Some k \<Rightarrow> \<exists>l \<ge> 2. k + l \<le> 8 \<and> zeros a k l \<and>
       (\<forall>i m. i + m \<le> 8 \<and> zeros a i m \<longrightarrow> m \<le> l \<and> (m = l \<longrightarrow> k \<le> i))"
proof -
  obtain li ls fi fs where s: "foldl (compressed_piece_step a) (None, 1, None, 0) [0..<8] = (li, ls, fi, fs)"
    by (cases "foldl (compressed_piece_step a) (None, 1, None, 0) [0..<8]")
  have inv: "fs \<le> 8" "zeros a (8 - fs) fs" "fs < 8 \<longrightarrow> ipv6_piece a (8 - fs - 1) \<noteq> 0"
      "fi = (if fs = 0 then None else Some (8 - fs))"
      "case li of None \<Rightarrow> ls = 1 | Some i \<Rightarrow> 2 \<le> ls \<and> i + ls \<le> 8 - fs \<and> zeros a i ls"
      "\<And>i l. i + l \<le> 8 - fs \<Longrightarrow> zeros a i l \<Longrightarrow> l \<le> ls \<and> (l = ls \<longrightarrow> (case li of None \<Rightarrow> True | Some k \<Rightarrow> k \<le> i))"
    using compress_inv_fold [of a 8] unfolding s compress_inv_def by auto
  have old: "1 \<le> ls" using inv(5) by (auto split: option.splits)
  have find: "find_the_ipv6_address_compressed_piece_index a = (if ls < fs then fi else li)"
    by (simp only: find_the_ipv6_address_compressed_piece_index_def s prod.case)
  show ?thesis
  proof (cases "ls < fs")
    case True
    have "l \<le> fs \<and> (l = fs \<longrightarrow> 8 - fs \<le> i)" if "i + l \<le> 8 \<and> zeros a i l" for i l
      using zeros_region [of a i l 8 fs] that inv(1,3) inv(6) [of i l] True by auto
    then show ?thesis
      using inv(1,2,4) old True by (auto simp: find intro!: exI [of _ fs])
  next
    case False
    have "l \<le> ls \<and> (l = ls \<longrightarrow> (case li of None \<Rightarrow> True | Some k \<Rightarrow> k \<le> i))" if "i + l \<le> 8 \<and> zeros a i l" for i l
      using zeros_region [of a i l 8 fs] that inv(1,3,5) inv(6) [of i l] False old by (auto split: option.splits)
    then show ?thesis
      using inv(5) False by (auto simp: find split: option.splits)
  qed
qed

lemma compressed_piece_zero:
  assumes "find_the_ipv6_address_compressed_piece_index a = Some k"
  shows "k < 8 \<and> ipv6_piece a k = 0"
proof -
  from compressed_piece_longest [of a] assms obtain l where "2 \<le> l" "k + l \<le> 8" "zeros a k l" by auto
  then show ?thesis using zeros_prefix [of a k l k] by auto
qed

text \<open>
  C18: The piece that the IPv6 serializer compresses is the start of the longest run of zero pieces, and the
  first of the longest ones; a run of a single zero is never compressed.
\<close>

theorem compressed_piece_is_longest_run:
  "case find_the_ipv6_address_compressed_piece_index a of
     None \<Rightarrow> \<forall>i l. i + l \<le> 8 \<and> zeros a i l \<longrightarrow> l \<le> 1
   | Some k \<Rightarrow> \<exists>l \<ge> 2. k + l \<le> 8 \<and> zeros a k l \<and>
       (\<forall>i m. i + m \<le> 8 \<and> zeros a i m \<longrightarrow> m \<le> l \<and> (m = l \<longrightarrow> k \<le> i))"
  by (rule compressed_piece_longest)

theorem compressed_piece_is_longest_run_witness:
  "\<exists>l. find_the_ipv6_address_compressed_piece_index (ipv6_of_pieces [1, 0, 0, 2, 0, 0, 0, 3]) = Some 4 \<and>
     2 \<le> l \<and> 4 + l \<le> 8 \<and> zeros (ipv6_of_pieces [1, 0, 0, 2, 0, 0, 0, 3]) 4 l"
proof -
  have "find_the_ipv6_address_compressed_piece_index (ipv6_of_pieces [1, 0, 0, 2, 0, 0, 0, 3]) = Some 4"
    by code_simp
  with compressed_piece_is_longest_run [of "ipv6_of_pieces [1, 0, 0, 2, 0, 0, 0, 3]"] show ?thesis
    by auto
qed

end
