(* ===== verification/Hash_Functions.thy ===== *)
theory Hash_Functions
  imports Strings
begin

text \<open>
  The hash functions of \<^verbatim>\<open>AK/StringHash.h\<close> and \<^verbatim>\<open>AK/HashFunctions.h\<close>.
\<close>

text \<open>The \<^verbatim>\<open>char\<close>s of a string are signed (\<^verbatim>\<open>-fsigned-char\<close>), so a byte is sign-extended.\<close>

definition string_hash_step :: "32 word \<Rightarrow> char \<Rightarrow> 32 word" where
  "string_hash_step h c =
     (let h = h + scast (of_nat (cp c) :: 8 word);
          h = h + push_bit 10 h
      in h XOR drop_bit 6 h)"

definition string_hash :: "string \<Rightarrow> 32 word \<Rightarrow> 32 word" where
  "string_hash characters seed =
     (let h = foldl string_hash_step seed characters;
          h = h + push_bit 3 h;
          h = h XOR drop_bit 11 h
      in h + push_bit 15 h)"

definition u64_hash :: "64 word \<Rightarrow> 32 word" where
  "u64_hash key =
     (let key = key XOR drop_bit 33 key;
          key = key * 0xff51afd7ed558ccd;
          key = key XOR drop_bit 33 key;
          key = key * 0xc4ceb9fe1a85ec53;
          key = key XOR drop_bit 33 key
      in ucast key)"

definition pair_int_hash :: "32 word \<Rightarrow> 32 word \<Rightarrow> 32 word" where
  "pair_int_hash key1 key2 = u64_hash (push_bit 32 (ucast key1) OR ucast key2)"

definition u32_hash :: "32 word \<Rightarrow> 32 word" where
  "u32_hash key =
     (let key = key XOR drop_bit 16 key;
          key = key * 0x85ebca6b;
          key = key XOR drop_bit 13 key;
          key = key * 0xc2b2ae35
      in key XOR drop_bit 16 key)"

text \<open>The comparison with the letters is one of signed characters; bytes above \<^verbatim>\<open>0x7f\<close> are negative.\<close>

definition hash_lowercase :: "char \<Rightarrow> 32 word" where
  "hash_lowercase ch =
     (if cp CHR ''A'' \<le> cp ch \<and> cp ch \<le> cp CHR ''Z'' then scast (of_nat (cp ch) :: 8 word) + 0x20
      else scast (of_nat (cp ch) :: 8 word))"

definition case_insensitive_hash_step :: "32 word \<Rightarrow> char \<Rightarrow> 32 word" where
  "case_insensitive_hash_step h c =
     (let h = h + hash_lowercase c;
          h = h + push_bit 10 h
      in h XOR drop_bit 6 h)"

definition case_insensitive_string_hash :: "string \<Rightarrow> 32 word \<Rightarrow> 32 word" where
  "case_insensitive_string_hash characters seed =
     (let h = foldl case_insensitive_hash_step seed characters;
          h = h + push_bit 3 h;
          h = h XOR drop_bit 11 h
      in h + push_bit 15 h)"

lemma hash_lowercase_eq:
  assumes "to_ascii_lowercase (cp c) = to_ascii_lowercase (cp d)"
  shows "hash_lowercase c = hash_lowercase d"
proof -
  have lower: "hash_lowercase a = scast (of_nat (to_ascii_lowercase (cp a)) :: 8 word)" for a
  proof (cases "cp CHR ''A'' \<le> cp a \<and> cp a \<le> cp CHR ''Z''")
    case True
    then have "cp a \<in> set [65..<91]" unfolding set_upt by simp
    moreover have "\<forall>n \<in> set [65..<91]. (scast (of_nat n :: 8 word) :: 32 word) + 0x20 = scast (of_nat (n + 0x20) :: 8 word)"
      by code_simp
    ultimately show ?thesis using True by (auto simp: hash_lowercase_def ak_defs)
  qed (auto simp: hash_lowercase_def ak_defs)
  show ?thesis by (simp only: lower assms)
qed

lemma case_insensitive_string_hash_eq:
  assumes "same_ascii_lowercase a b"
  shows "case_insensitive_string_hash a seed = case_insensitive_string_hash b seed"
proof -
  have "foldl case_insensitive_hash_step h a = foldl case_insensitive_hash_step h b" for h
    using assms unfolding same_ascii_lowercase_def
  proof (induction arbitrary: h rule: list_all2_induct)
    case (Cons c a d b)
    then show ?case using hash_lowercase_eq [of c d] by (simp add: case_insensitive_hash_step_def)
  qed simp
  then show ?thesis by (simp add: case_insensitive_string_hash_def)
qed

end
