(* ===== verification/Origin_Site.thy ===== *)
theory Origin_Site
  imports Host Hash_Functions
begin

text \<open>
  Origins and sites: \<^verbatim>\<open>Libraries/LibURL/Origin.cpp\<close>, \<^verbatim>\<open>Libraries/LibURL/Site.cpp\<close>, and the decision of
  \<^verbatim>\<open>Libraries/LibWeb/SecureContexts\<close> whether an origin is potentially trustworthy.
\<close>

datatype opaque_type = Opaque_Standard | Opaque_File

record opaque_data =
  nonce :: "8 word list"
  opaque_type :: opaque_type

record origin_tuple =
  origin_scheme :: "string option"
  origin_host :: host
  origin_port :: "16 word option"
  origin_domain :: "string option"

datatype origin = Tuple_origin origin_tuple | Opaque_origin opaque_data

text \<open>The random bytes that \<^verbatim>\<open>get_random\<close> supplies are an argument.\<close>

definition create_opaque :: "8 word list \<Rightarrow> opaque_type \<Rightarrow> origin" where
  "create_opaque random type = Opaque_origin \<lparr>nonce = random, opaque_type = type\<rparr>"

definition origin_create :: "string option \<Rightarrow> host \<Rightarrow> 16 word option \<Rightarrow> string option \<Rightarrow> origin" where
  "origin_create s h p d =
     Tuple_origin \<lparr>origin_scheme = s, origin_host = h, origin_port = p, origin_domain = d\<rparr>"

definition is_opaque :: "origin \<Rightarrow> bool" where
  "is_opaque a = (case a of Opaque_origin _ \<Rightarrow> True | Tuple_origin _ \<Rightarrow> False)"

definition is_opaque_file_origin :: "origin \<Rightarrow> bool" where
  "is_opaque_file_origin a =
     (case a of Opaque_origin d \<Rightarrow> opaque_type d = Opaque_File | Tuple_origin _ \<Rightarrow> False)"

definition is_same_origin :: "origin \<Rightarrow> origin \<Rightarrow> bool" where
  "is_same_origin a b =
     (case (a, b) of
        (Opaque_origin d, Opaque_origin d') \<Rightarrow> nonce d = nonce d'
      | (Tuple_origin t, Tuple_origin t') \<Rightarrow>
          origin_scheme t = origin_scheme t' \<and> origin_host t = origin_host t' \<and> origin_port t = origin_port t'
      | _ \<Rightarrow> False)"

definition is_same_origin_domain :: "origin \<Rightarrow> origin \<Rightarrow> bool" where
  "is_same_origin_domain a b =
     (case (a, b) of
        (Opaque_origin d, Opaque_origin d') \<Rightarrow> nonce d = nonce d'
      | (Tuple_origin t, Tuple_origin t') \<Rightarrow>
          if origin_domain t \<noteq> None \<and> origin_domain t = origin_domain t' \<and> origin_scheme t = origin_scheme t' then True
          else if origin_domain t = None \<and> origin_domain t' = None \<and> is_same_origin a b then True
          else False
      | _ \<Rightarrow> False)"

definition effective_domain :: "origin \<Rightarrow> host option" where
  "effective_domain a =
     (case a of
        Opaque_origin _ \<Rightarrow> None
      | Tuple_origin t \<Rightarrow>
          (case origin_domain t of Some d \<Rightarrow> Some (Host_String d) | None \<Rightarrow> Some (origin_host t)))"

definition origin_serialize :: "origin \<Rightarrow> string result" where
  "origin_serialize a =
     (case a of
        Opaque_origin _ \<Rightarrow> Inr ''null''
      | Tuple_origin t \<Rightarrow>
          bind_result (host_serialize (origin_host t)) (\<lambda>h.
            Inr ((case origin_scheme t of Some s \<Rightarrow> s | None \<Rightarrow> []) @ ''://'' @ h @
              (case origin_port t of
                 Some p \<Rightarrow> '':'' @ create_string_from_number 16 (uint p)
               | None \<Rightarrow> []))))"

subsection \<open>Sites\<close>

datatype site = Site_origin origin | Scheme_and_host string host

definition site_obtain :: "ext \<Rightarrow> origin \<Rightarrow> site result" where
  "site_obtain x a =
     (case a of
        Opaque_origin _ \<Rightarrow> Inr (Site_origin a)
      | Tuple_origin t \<Rightarrow>
          let s = (case origin_scheme t of Some s \<Rightarrow> s | None \<Rightarrow> []) in
          bind_result (registrable_domain x (origin_host t)) (\<lambda>d.
            case d of
              None \<Rightarrow> Inr (Scheme_and_host s (origin_host t))
            | Some d \<Rightarrow> Inr (Scheme_and_host s (Host_String d))))"

text \<open>An origin in a site is opaque: the other case is the failed access to the opaque data.\<close>

definition site_is_same_site :: "site \<Rightarrow> site \<Rightarrow> bool result" where
  "site_is_same_site a b =
     (case (a, b) of
        (Site_origin c, Site_origin d) \<Rightarrow>
          (case (c, d) of
             (Opaque_origin p, Opaque_origin q) \<Rightarrow> Inr (nonce p = nonce q)
           | _ \<Rightarrow> Inl Verify_failed)
      | (Scheme_and_host s h, Scheme_and_host s' h') \<Rightarrow>
          if s \<noteq> s' then Inr False else if h \<noteq> h' then Inr False else Inr True
      | _ \<Rightarrow> Inr False)"

definition site_serialize :: "site \<Rightarrow> string result" where
  "site_serialize a =
     (case a of
        Site_origin _ \<Rightarrow> Inr ''null''
      | Scheme_and_host s h \<Rightarrow> bind_result (host_serialize h) (\<lambda>out. Inr (s @ ''://'' @ out)))"

definition is_same_site :: "ext \<Rightarrow> origin \<Rightarrow> origin \<Rightarrow> bool result" where
  "is_same_site x a b =
     bind_result (site_obtain x a) (\<lambda>site_a.
     bind_result (site_obtain x b) (\<lambda>site_b.
       site_is_same_site site_a site_b))"

subsection \<open>Hashing\<close>

definition origin_hash :: "origin \<Rightarrow> 32 word result" where
  "origin_hash a =
     (case a of
        Opaque_origin d \<Rightarrow>
          Inr (push_bit 24 (ucast (nonce d ! 0)) OR push_bit 16 (ucast (nonce d ! 1))
            OR push_bit 8 (ucast (nonce d ! 2)) OR ucast (nonce d ! 3))
      | Tuple_origin t \<Rightarrow>
          let h = string_hash (case origin_scheme t of Some s \<Rightarrow> s | None \<Rightarrow> []) 0;
              h = (case origin_port t of Some p \<Rightarrow> pair_int_hash h (ucast p) | None \<Rightarrow> h)
          in bind_result (host_serialize (origin_host t)) (\<lambda>serialized.
               let h = pair_int_hash h (string_hash serialized 0) in
               Inr (case origin_domain t of
                      Some d \<Rightarrow> pair_int_hash h (string_hash d 0)
                    | None \<Rightarrow> h)))"

subsection \<open>Trustworthy origins\<close>

datatype trustworthiness = PotentiallyTrustworthy | NotTrustworthy

definition is_origin_potentially_trustworthy :: "origin \<Rightarrow> trustworthiness" where
  "is_origin_potentially_trustworthy a =
     (case a of
        Opaque_origin _ \<Rightarrow> if is_opaque_file_origin a then PotentiallyTrustworthy else NotTrustworthy
      | Tuple_origin t \<Rightarrow>
          if origin_scheme t \<in> {Some ''https'', Some ''wss''} then PotentiallyTrustworthy
          else if (case origin_host t of
                     Host_IPv4 address \<Rightarrow> address AND 0xff000000 \<noteq> 0
                   | Host_IPv6 address \<Rightarrow> address = ipv6_loopback
                   | Host_String h \<Rightarrow>
                       h \<in> {''localhost'', ''localhost.''} \<or>
                       ends_with h ''.localhost'' CaseSensitive \<or> ends_with h ''.localhost.'' CaseSensitive)
            then PotentiallyTrustworthy
          else if origin_scheme t \<in> {Some ''file'', Some ''resource''} then PotentiallyTrustworthy
          else NotTrustworthy)"

subsection \<open>Equivalence of origins and sites\<close>

lemma equivp_kernel:
  assumes "\<And>a b. R a b \<longleftrightarrow> f a = f b"
  shows "equivp R"
  using assms by (auto intro!: equivpI reflpI sympI transpI)

text \<open>
  What two origins of the same origin have in common: the nonce, or scheme, host and port; for the same
  origin-domain it is the nonce, the scheme and domain, or, without a domain, the whole tuple.
\<close>

definition origin_key :: "origin \<Rightarrow> 8 word list + string option \<times> host \<times> 16 word option" where
  "origin_key a =
     (case a of
        Opaque_origin d \<Rightarrow> Inl (nonce d)
      | Tuple_origin t \<Rightarrow> Inr (origin_scheme t, origin_host t, origin_port t))"

definition domain_key ::
    "origin \<Rightarrow> (8 word list + string option \<times> host \<times> 16 word option) + string option \<times> string" where
  "domain_key a =
     (case a of
        Opaque_origin d \<Rightarrow> Inl (origin_key a)
      | Tuple_origin t \<Rightarrow>
          (case origin_domain t of Some d \<Rightarrow> Inr (origin_scheme t, d) | None \<Rightarrow> Inl (origin_key a)))"

definition site_key :: "site \<Rightarrow> 8 word list + string \<times> host" where
  "site_key a =
     (case a of
        Site_origin (Opaque_origin d) \<Rightarrow> Inl (nonce d)
      | Site_origin (Tuple_origin t) \<Rightarrow> Inl []
      | Scheme_and_host s h \<Rightarrow> Inr (s, h))"

lemma is_same_origin_key: "is_same_origin a b \<longleftrightarrow> origin_key a = origin_key b"
  by (cases a; cases b) (auto simp: is_same_origin_def origin_key_def)

lemma is_same_origin_domain_key: "is_same_origin_domain a b \<longleftrightarrow> domain_key a = domain_key b"
  by (cases a; cases b)
    (auto simp: is_same_origin_domain_def is_same_origin_key domain_key_def origin_key_def split: option.splits)

lemma site_obtain_opaque: "site_obtain x a = Inr (Site_origin b) \<Longrightarrow> is_opaque b"
  by (cases a) (auto simp: site_obtain_def is_opaque_def Let_def split: option.splits)

lemma site_is_same_site_key:
  assumes "site_obtain x a = Inr s" and "site_obtain x b = Inr t"
  shows "site_is_same_site s t = Inr (site_key s = site_key t)"
  using assms site_obtain_opaque [of x a] site_obtain_opaque [of x b]
  by (cases s; cases t) (auto simp: site_is_same_site_def site_key_def is_opaque_def split: origin.splits)

lemma same_origin_obtain:
  assumes "is_same_origin a b" and "site_obtain x a = Inr s"
  shows "\<exists>t. site_obtain x b = Inr t \<and> site_key t = site_key s"
  using assms by (cases a; cases b) (auto simp: is_same_origin_def site_obtain_def site_key_def)




subsection \<open>Hashes of equal origins\<close>

definition domain_of_origin :: "origin \<Rightarrow> string option" where
  "domain_of_origin a = (case a of Tuple_origin t \<Rightarrow> origin_domain t | Opaque_origin _ \<Rightarrow> None)"




subsection \<open>IPv4 hosts and trust\<close>



end
