(* ===== verification/Url.thy ===== *)
theory Url
  imports Origin_Site
begin

text \<open>
  The URL record of \<^verbatim>\<open>Libraries/LibURL/URL.h\<close> with its accessors, setters and serializers
  (\<^verbatim>\<open>Libraries/LibURL/URL.cpp\<close>).  The shared copy-on-write data of the class is a value of the model.
\<close>

subsection \<open>The record\<close>

datatype blob_object = Blob string string | MediaSource

record blob_url_entry =
  blob_object :: blob_object
  environment_origin :: origin

record url =
  scheme :: string
  username :: string
  password :: string
  host :: "host option"
  port :: "16 word option"
  paths :: "string list"
  query :: "string option"
  fragment :: "string option"
  has_an_opaque_path :: bool
  url_blob_entry :: "blob_url_entry option"

definition empty_url :: url where
  "empty_url =
     \<lparr>scheme = [], username = [], password = [], host = None, port = None, paths = [], query = None,
      fragment = None, has_an_opaque_path = False, url_blob_entry = None\<rparr>"

datatype exclude_fragment = ExcludeFragment_No | ExcludeFragment_Yes

subsection \<open>Schemes\<close>

definition default_port_for_scheme :: "string \<Rightarrow> 16 word option" where
  "default_port_for_scheme s =
     (if s = ''ftp'' then Some 21
      else if s = ''http'' then Some 80
      else if s = ''https'' then Some 443
      else if s = ''ws'' then Some 80
      else if s = ''wss'' then Some 443
      else None)"

definition special_schemes :: "string list" where
  "special_schemes = [''ftp'', ''file'', ''http'', ''https'', ''ws'', ''wss'']"

definition is_special_scheme :: "string \<Rightarrow> bool" where
  "is_special_scheme s = list_ex (\<lambda>t. t = s) special_schemes"

subsection \<open>Accessors\<close>

definition is_special :: "url \<Rightarrow> bool" where
  "is_special u = is_special_scheme (scheme u)"

definition includes_credentials :: "url \<Rightarrow> bool" where
  "includes_credentials u = (username u \<noteq> [] \<or> password u \<noteq> [])"

definition cannot_have_a_username_or_password_or_port :: "url \<Rightarrow> bool" where
  "cannot_have_a_username_or_password_or_port u =
     ((case host u of None \<Rightarrow> True | Some h \<Rightarrow> is_empty_host h) \<or> scheme u = ''file'')"

definition port_or_default :: "url \<Rightarrow> 16 word" where
  "port_or_default u =
     (case port u of
        Some p \<Rightarrow> p
      | None \<Rightarrow> (case default_port_for_scheme (scheme u) of Some p \<Rightarrow> p | None \<Rightarrow> 0))"

definition path_segment_count :: "url \<Rightarrow> nat" where
  "path_segment_count u = length (paths u)"

definition path_segment_at_index :: "url \<Rightarrow> nat \<Rightarrow> string result" where
  "path_segment_at_index u index =
     bind_result (verify (index < path_segment_count u)) (\<lambda>_. percent_decode (paths u ! index))"

definition url_basename :: "url \<Rightarrow> string result" where
  "url_basename u = (if paths u = [] then Inr [] else percent_decode (last (paths u)))"

definition serialized_host :: "url \<Rightarrow> string result" where
  "serialized_host u = (case host u of None \<Rightarrow> Inl Verify_failed | Some h \<Rightarrow> host_serialize h)"

subsection \<open>Setters\<close>

definition set_scheme :: "string \<Rightarrow> url \<Rightarrow> url" where
  "set_scheme s u = u\<lparr>scheme := s\<rparr>"

definition set_username :: "ext \<Rightarrow> string \<Rightarrow> url \<Rightarrow> url result" where
  "set_username x s u =
     bind_result (percent_encode x s Userinfo SpaceAsPlus_No) (\<lambda>out. Inr (u\<lparr>username := out\<rparr>))"

definition set_password :: "ext \<Rightarrow> string \<Rightarrow> url \<Rightarrow> url result" where
  "set_password x s u =
     bind_result (percent_encode x s Userinfo SpaceAsPlus_No) (\<lambda>out. Inr (u\<lparr>password := out\<rparr>))"

definition set_host :: "host \<Rightarrow> url \<Rightarrow> url" where
  "set_host h u = u\<lparr>host := Some h\<rparr>"

definition set_port :: "16 word option \<Rightarrow> url \<Rightarrow> url" where
  "set_port p u =
     (if p = default_port_for_scheme (scheme u) then u\<lparr>port := None\<rparr> else u\<lparr>port := p\<rparr>)"

fun encode_paths :: "ext \<Rightarrow> string list \<Rightarrow> string list result" where
  "encode_paths x [] = Inr []"
| "encode_paths x (segment # rest) =
     bind_result (percent_encode x segment PathSet SpaceAsPlus_No) (\<lambda>out.
     bind_result (encode_paths x rest) (\<lambda>outs. Inr (out # outs)))"

definition set_paths :: "ext \<Rightarrow> string list \<Rightarrow> url \<Rightarrow> url result" where
  "set_paths x ss u = bind_result (encode_paths x ss) (\<lambda>outs. Inr (u\<lparr>paths := outs\<rparr>))"

definition set_raw_paths :: "string list \<Rightarrow> url \<Rightarrow> url" where
  "set_raw_paths ss u = u\<lparr>paths := ss\<rparr>"

definition append_path :: "ext \<Rightarrow> string \<Rightarrow> url \<Rightarrow> url result" where
  "append_path x s u =
     bind_result (percent_encode x s PathSet SpaceAsPlus_No) (\<lambda>out. Inr (u\<lparr>paths := paths u @ [out]\<rparr>))"

definition append_slash :: "url \<Rightarrow> url" where
  "append_slash u = u\<lparr>paths := paths u @ [[]]\<rparr>"

definition set_query :: "string option \<Rightarrow> url \<Rightarrow> url" where
  "set_query q u = u\<lparr>query := q\<rparr>"

definition set_fragment :: "string option \<Rightarrow> url \<Rightarrow> url" where
  "set_fragment f u = u\<lparr>fragment := f\<rparr>"

definition set_has_an_opaque_path :: "bool \<Rightarrow> url \<Rightarrow> url" where
  "set_has_an_opaque_path b u = u\<lparr>has_an_opaque_path := b\<rparr>"

definition set_blob_url_entry :: "blob_url_entry option \<Rightarrow> url \<Rightarrow> url" where
  "set_blob_url_entry e u = u\<lparr>url_blob_entry := e\<rparr>"

definition about :: "string \<Rightarrow> url" where
  "about path = empty_url\<lparr>scheme := ''about'', paths := [path], has_an_opaque_path := True\<rparr>"

definition create_with_data :: "ext \<Rightarrow> string \<Rightarrow> string \<Rightarrow> bool \<Rightarrow> url result" where
  "create_with_data x mime_type payload is_base64 =
     set_paths x [mime_type @ (if is_base64 then '';base64'' else []) @ '','' @ payload]
       (set_scheme ''data'' (set_has_an_opaque_path True empty_url))"

subsection \<open>Serialization\<close>

definition serialize_path :: "url \<Rightarrow> string result" where
  "serialize_path u =
     (if has_an_opaque_path u then
        (case paths u of [] \<Rightarrow> Inl Verify_failed | path # _ \<Rightarrow> Inr path)
      else Inr (concat (map (\<lambda>segment. ''/'' @ segment) (paths u))))"

text \<open>On systems other than Windows.\<close>

definition file_path :: "url \<Rightarrow> string result" where
  "file_path u = bind_result (serialize_path u) percent_decode"

definition serialize_authority :: "bool \<Rightarrow> url \<Rightarrow> string result" where
  "serialize_authority credentials u =
     (case host u of
        None \<Rightarrow> Inr []
      | Some _ \<Rightarrow>
          bind_result (serialized_host u) (\<lambda>h.
          bind_result (case port u of
                         None \<Rightarrow> Inr []
                       | Some p \<Rightarrow> bind_result (format_decimal (unat p)) (\<lambda>digits. Inr ('':'' @ digits))) (\<lambda>p.
            Inr (''//'' @
              (if credentials \<and> includes_credentials u then
                 username u @ (if password u \<noteq> [] then '':'' @ password u else []) @ ''@''
               else []) @ h @ p))))"

definition serialize :: "exclude_fragment \<Rightarrow> url \<Rightarrow> string result" where
  "serialize exclude_fragment u =
     bind_result (serialize_authority True u) (\<lambda>authority.
     bind_result (serialize_path u) (\<lambda>path.
       Inr (scheme u @ '':'' @ authority @
         (if host u = None \<and> \<not> has_an_opaque_path u \<and> length (paths u) > 1 \<and> paths u ! 0 = [] then ''/.'' else []) @
         path @
         (case query u of None \<Rightarrow> [] | Some q \<Rightarrow> ''?'' @ q) @
         (case fragment u of
            None \<Rightarrow> []
          | Some f \<Rightarrow> if exclude_fragment = ExcludeFragment_No then ''#'' @ f else []))))"

definition serialize_for_display :: "url \<Rightarrow> string result" where
  "serialize_for_display u =
     bind_result (serialize_authority False u) (\<lambda>authority.
     bind_result
       (if has_an_opaque_path u then
          (case paths u of [] \<Rightarrow> Inl Verify_failed | path # _ \<Rightarrow> Inr path)
        else
          Inr ((if host u = None \<and> length (paths u) > 1 \<and> paths u ! 0 = [] then ''/.'' else []) @
            concat (map (\<lambda>segment. ''/'' @ segment) (paths u)))) (\<lambda>path.
       Inr (scheme u @ '':'' @ authority @ path @
         (case query u of None \<Rightarrow> [] | Some q \<Rightarrow> ''?'' @ q) @
         (case fragment u of None \<Rightarrow> [] | Some f \<Rightarrow> ''#'' @ f))))"

text \<open>Two URLs that share their data are equal; the serializations of a URL and itself are, too.\<close>

definition equals :: "exclude_fragment \<Rightarrow> url \<Rightarrow> url \<Rightarrow> bool result" where
  "equals exclude_fragments u v =
     bind_result (serialize exclude_fragments u) (\<lambda>s.
     bind_result (serialize exclude_fragments v) (\<lambda>t. Inr (s = t)))"

end
