(* ===== verification/Host_Parser.thy ===== *)
theory Host_Parser
  imports Host
begin

text \<open>
  The host parser of \<^verbatim>\<open>Libraries/LibURL/Parser.cpp\<close> (opaque hosts, IPv4, IPv6, domains), \<^verbatim>\<open>pow\<close> of
  \<^verbatim>\<open>AK/IntegralMath.h\<close> and \<^verbatim>\<open>to_ascii\<close> of \<^verbatim>\<open>Libraries/LibUnicode/IDNA.cpp\<close>.  Validation errors are only
  reported in debug builds and have no effect, so they are left out.
\<close>

definition end_of_file :: code_point where
  "end_of_file = 0xFFFFFFFF"

definition is_forbidden_host_code_point :: "code_point \<Rightarrow> bool result" where
  "is_forbidden_host_code_point c =
     contains_code_point
       ([CHR 0x00, CHR 0x09, CHR 0x0A, CHR 0x0D] @ '' #/:<>?@['' @ [CHR 0x5C] @ '']^|'') c"

definition is_forbidden_domain_code_point :: "code_point \<Rightarrow> bool result" where
  "is_forbidden_domain_code_point c =
     bind_result (is_forbidden_host_code_point c) (\<lambda>forbidden.
       Inr (forbidden \<or> is_ascii_c0_control c \<or> c = cp CHR ''%'' \<or> c = 0x7F))"

text \<open>Whether one of the code points satisfies a predicate that may abort, as the early-return loops do.\<close>

fun any_code_point :: "(code_point \<Rightarrow> bool result) \<Rightarrow> code_point list \<Rightarrow> bool result" where
  "any_code_point p [] = Inr False"
| "any_code_point p (c # cs) =
     bind_result (p c) (\<lambda>b. if b then Inr True else any_code_point p cs)"

definition parse_opaque_host :: "ext \<Rightarrow> string \<Rightarrow> host result" where
  "parse_opaque_host x input =
     bind_result (any_code_point is_forbidden_host_code_point (utf8_code_points input)) (\<lambda>forbidden.
       if forbidden then Inl Failure
       else bind_result (percent_encode x input C0Control SpaceAsPlus_No) (\<lambda>s. Inr (Host_String s)))"

subsection \<open>IPv4\<close>

text \<open>\<^verbatim>\<open>AK::pow<size_t>\<close>; the products wrap around at 64 bits.\<close>

function pow_loop :: "nat \<Rightarrow> nat \<Rightarrow> nat \<Rightarrow> nat" where
  "pow_loop res base exponent =
     (if exponent > 0 then
        pow_loop (if exponent mod 2 = 1 then res * base mod 2 ^ 64 else res) (base * base mod 2 ^ 64) (exponent div 2)
      else res)"
  by pat_completeness auto
termination
  by (relation "measure (\<lambda>(_, _, exponent). exponent)") auto

declare pow_loop.simps [simp del]

definition ak_pow :: "nat \<Rightarrow> nat \<Rightarrow> nat" where
  "ak_pow base exponent = (if exponent = 0 then 1 else pow_loop 1 base exponent)"

definition parse_ipv4_number :: "ext \<Rightarrow> string \<Rightarrow> (nat \<times> bool) result" where
  "parse_ipv4_number x input =
     (if input = [] then Inl Failure
      else
        bind_result
          (if length input \<ge> 2 \<and> (starts_with input ''0X'' CaseSensitive \<or> starts_with input ''0x'' CaseSensitive) then
             bind_result (substring_view_from input 2) (\<lambda>input. Inr (input, 16, True))
           else if length input \<ge> 2 \<and> input ! 0 = CHR ''0'' then
             bind_result (substring_view_from input 1) (\<lambda>input. Inr (input, 8, True))
           else Inr (input, 10, False)) (\<lambda>(input, radix, validation_error).
        if input = [] then Inr (0, True)
        else case parse_number x u32_max input False radix of
            None \<Rightarrow> Inl Failure
          | Some output \<Rightarrow> Inr (output, validation_error)))"

fun parse_ipv4_numbers :: "ext \<Rightarrow> string list \<Rightarrow> nat list result" where
  "parse_ipv4_numbers x [] = Inr []"
| "parse_ipv4_numbers x (part # parts) =
     bind_result (parse_ipv4_number x part) (\<lambda>r.
     bind_result (parse_ipv4_numbers x parts) (\<lambda>numbers. Inr (fst r # numbers)))"

fun ipv4_sum_loop :: "nat list \<Rightarrow> nat \<Rightarrow> ipv4_address \<Rightarrow> ipv4_address" where
  "ipv4_sum_loop [] counter ipv4 = ipv4"
| "ipv4_sum_loop (n # numbers) counter ipv4 =
     ipv4_sum_loop numbers (counter + 1) (of_nat ((unat ipv4 + n * ak_pow 256 (3 - counter)) mod 2 ^ 64))"

definition parse_ipv4_address :: "ext \<Rightarrow> string \<Rightarrow> ipv4_address result" where
  "parse_ipv4_address x input =
     bind_result (split_view input ''.'' True False) (\<lambda>parts.
     bind_result (verify (parts \<noteq> [])) (\<lambda>_.
     let parts = (if last parts = [] \<and> length parts > 1 then butlast parts else parts) in
     if length parts > 4 then Inl Failure
     else
       bind_result (parse_ipv4_numbers x parts) (\<lambda>numbers.
       if list_ex (\<lambda>i. numbers ! i > 255 \<and> i \<noteq> length numbers - 1) [0..<length numbers] then Inl Failure
       else
         bind_result (verify (numbers \<noteq> [])) (\<lambda>_.
         if last numbers \<ge> ak_pow 256 (5 - length numbers) then Inl Failure
         else Inr (ipv4_sum_loop (butlast numbers) 0 (of_nat (last numbers)))))))"

subsection \<open>IPv6\<close>

definition code_point_at :: "code_point list \<Rightarrow> nat \<Rightarrow> code_point" where
  "code_point_at code_points pointer =
     (if pointer \<ge> length code_points then end_of_file else code_points ! pointer)"

text \<open>Step 6.4: up to four hexadecimal digits.\<close>

function ipv6_value_loop :: "code_point list \<Rightarrow> nat \<Rightarrow> nat \<Rightarrow> nat \<Rightarrow> (nat \<times> nat \<times> nat) result" where
  "ipv6_value_loop code_points pointer value len =
     (if len < 4 \<and> is_ascii_hex_digit (code_point_at code_points pointer) then
        bind_result (parse_ascii_hex_digit (code_point_at code_points pointer)) (\<lambda>digit.
          ipv6_value_loop code_points (pointer + 1) (value * 0x10 + digit) (len + 1))
      else Inr (pointer, value, len))"
  by pat_completeness auto
termination
  by (relation "measure (\<lambda>(_, _, _, len). 4 - len)") auto

text \<open>Step 6.5.5.4: one decimal number of an embedded IPv4 address.\<close>

function ipv4_piece_loop :: "code_point list \<Rightarrow> nat \<Rightarrow> nat option \<Rightarrow> (nat \<times> nat option) result" where
  "ipv4_piece_loop code_points pointer ipv4_piece =
     (if pointer < length code_points \<and> is_ascii_digit (code_point_at code_points pointer) then
        bind_result (parse_ascii_digit (code_point_at code_points pointer)) (\<lambda>number.
        bind_result
          (case ipv4_piece of
             None \<Rightarrow> Inr number
           | Some piece \<Rightarrow> if piece = 0 then Inl Failure else Inr (piece * 10 + number)) (\<lambda>piece.
        if piece > 255 then Inl Failure
        else ipv4_piece_loop code_points (pointer + 1) (Some piece)))
      else Inr (pointer, ipv4_piece))"
  by pat_completeness auto
termination
  by (relation "measure (\<lambda>(code_points, pointer, _). length code_points - pointer)") auto

declare ipv6_value_loop.simps [simp del] ipv4_piece_loop.simps [simp del]

lemma ipv6_value_loop_pointer:
  "ipv6_value_loop code_points pointer w len = Inr (p, v, n) \<Longrightarrow> pointer \<le> p \<and> p + len = pointer + n"
proof (induction code_points pointer w len rule: ipv6_value_loop.induct)
  case (1 code_points pointer w len)
  show ?case
  proof (cases "len < 4 \<and> is_ascii_hex_digit (code_point_at code_points pointer)")
    case True
    then obtain digit where
      "ipv6_value_loop code_points (pointer + 1) (w * 0x10 + digit) (len + 1) = Inr (p, v, n)"
      "parse_ascii_hex_digit (code_point_at code_points pointer) = Inr digit"
      using 1(2) by (auto simp: ipv6_value_loop.simps [of code_points pointer])
    with 1(1) [OF True, of digit] show ?thesis by auto
  next
    case False
    with 1(2) show ?thesis by (auto simp: ipv6_value_loop.simps [of code_points pointer])
  qed
qed

lemma ipv4_piece_loop_pointer:
  "ipv4_piece_loop code_points pointer piece = Inr (p, q) \<Longrightarrow> pointer \<le> p"
proof (induction "length code_points - pointer" arbitrary: pointer piece rule: less_induct)
  case less
  show ?case
  proof (cases "pointer < length code_points \<and> is_ascii_digit (code_point_at code_points pointer)")
    case True
    then obtain n where "ipv4_piece_loop code_points (pointer + 1) (Some n) = Inr (p, q)"
      using less.prems by (auto simp: ipv4_piece_loop.simps [of code_points pointer] split: if_splits)
    moreover have "length code_points - (pointer + 1) < length code_points - pointer"
      using True by (intro diff_less_mono2) auto
    ultimately show ?thesis using less.hyps [of "pointer + 1" "Some n"] by simp
  next
    case False
    with less.prems show ?thesis by (auto simp: ipv4_piece_loop.simps [of code_points pointer])
  qed
qed

lemma end_of_file_class [simp]:
  "\<not> is_ascii_digit end_of_file" "\<not> is_ascii_hex_digit end_of_file"
  by (simp_all add: end_of_file_def ak_defs)

lemma ipv4_piece_loop_advances:
  assumes "ipv4_piece_loop code_points pointer None = Inr (p, q)"
    and "is_ascii_digit (code_point_at code_points pointer)"
  shows "pointer < p"
proof -
  have "pointer < length code_points"
    using assms(2) by (auto simp: code_point_at_def split: if_splits)
  with assms obtain n where "ipv4_piece_loop code_points (pointer + 1) (Some n) = Inr (p, q)"
    by (auto simp: ipv4_piece_loop.simps [of code_points pointer] split: if_splits)
  then show ?thesis using ipv4_piece_loop_pointer by fastforce
qed

text \<open>Step 6.5.5: the numbers of an embedded IPv4 address.\<close>

function ipv4_in_ipv6_loop :: "code_point list \<Rightarrow> nat \<Rightarrow> 16 word list \<Rightarrow> nat \<Rightarrow> nat \<Rightarrow>
    (16 word list \<times> nat \<times> nat) result" where
  "ipv4_in_ipv6_loop code_points pointer address piece_index numbers_seen =
     (if code_point_at code_points pointer \<noteq> end_of_file then
        bind_result
          (if numbers_seen > 0 then
             if code_point_at code_points pointer = cp CHR ''.'' \<and> numbers_seen < 4 then Inr (pointer + 1)
             else Inl Failure
           else Inr pointer) (\<lambda>pointer'.
        if \<not> is_ascii_digit (code_point_at code_points pointer') then Inl Failure
        else
          case ipv4_piece_loop code_points pointer' None of
            Inl e \<Rightarrow> Inl e
          | Inr (pointer'', None) \<Rightarrow> Inl Verify_failed
          | Inr (pointer'', Some ipv4_piece) \<Rightarrow>
              if \<not> piece_index < length address then Inl Verify_failed
              else
                let address = address[piece_index := address ! piece_index * 0x100 + of_nat ipv4_piece];
                    numbers_seen = numbers_seen + 1;
                    piece_index = (if numbers_seen = 2 \<or> numbers_seen = 4 then piece_index + 1 else piece_index)
                in ipv4_in_ipv6_loop code_points pointer'' address piece_index numbers_seen)
      else Inr (address, piece_index, numbers_seen))"
  by pat_completeness auto
termination
proof (relation "measure (\<lambda>(code_points, pointer, _). length code_points - pointer)", simp, clarsimp)
  fix code_points pointer address piece_index numbers_seen pointer' pointer'' piece
  assume "code_point_at code_points pointer \<noteq> end_of_file"
    and *: "(if 0 < numbers_seen then
        if code_point_at code_points pointer = cp CHR ''.'' \<and> numbers_seen < 4 then Inr (pointer + 1) else Inl Failure
      else Inr pointer) = Inr pointer'"
    and "is_ascii_digit (code_point_at code_points pointer')"
    and "ipv4_piece_loop code_points pointer' None = Inr (pointer'', Some piece)"
  then have "pointer < length code_points" "pointer' < pointer''"
    using ipv4_piece_loop_advances by (auto simp: code_point_at_def split: if_splits)
  moreover have "pointer \<le> pointer'"
    using * by (auto split: if_splits)
  ultimately show "length code_points - pointer'' < length code_points - pointer" by linarith
qed

declare ipv4_in_ipv6_loop.simps [simp del]

text \<open>Step 6: the loop over the pieces, on address, piece index and compress.\<close>

function ipv6_loop :: "code_point list \<Rightarrow> nat \<Rightarrow> 16 word list \<Rightarrow> nat \<Rightarrow> nat option \<Rightarrow>
    (16 word list \<times> nat \<times> nat option) result" where
  "ipv6_loop code_points pointer address piece_index compress =
     (if code_point_at code_points pointer \<noteq> end_of_file then
        if piece_index = 8 then Inl Failure
        else if code_point_at code_points pointer = cp CHR '':'' then
          if compress \<noteq> None then Inl Failure
          else ipv6_loop code_points (pointer + 1) address (piece_index + 1) (Some (piece_index + 1))
        else
          case ipv6_value_loop code_points pointer 0 0 of
            Inl e \<Rightarrow> Inl e
          | Inr (pointer', value, len) \<Rightarrow>
              if code_point_at code_points pointer' = cp CHR ''.'' then
                if len = 0 then Inl Failure
                else if piece_index > 6 then Inl Failure
                else
                  bind_result (ipv4_in_ipv6_loop code_points (pointer' - len) address piece_index 0)
                    (\<lambda>(address, piece_index, numbers_seen).
                      if numbers_seen \<noteq> 4 then Inl Failure else Inr (address, piece_index, compress))
              else if code_point_at code_points pointer' = cp CHR '':'' then
                if code_point_at code_points (pointer' + 1) = end_of_file then Inl Failure
                else if \<not> piece_index < length address then Inl Verify_failed
                else ipv6_loop code_points (pointer' + 1) (address[piece_index := of_nat value]) (piece_index + 1) compress
              else if code_point_at code_points pointer' \<noteq> end_of_file then Inl Failure
              else if \<not> piece_index < length address then Inl Verify_failed
              else ipv6_loop code_points pointer' (address[piece_index := of_nat value]) (piece_index + 1) compress
      else Inr (address, piece_index, compress))"
  by pat_completeness auto
termination
proof (relation "measure (\<lambda>(code_points, pointer, _). length code_points - pointer)", goal_cases)
  case (2 code_points pointer address piece_index compress)
  then show ?case by (auto simp: code_point_at_def split: if_splits)
next
  case (3 code_points pointer address piece_index compress r pointer' y v len)
  then have "pointer \<le> pointer'" using ipv6_value_loop_pointer by blast
  with 3 show ?case by (auto simp: code_point_at_def split: if_splits)
next
  case (4 code_points pointer address piece_index compress r pointer' y v len)
  then have "length code_points \<le> pointer' \<or> code_points ! pointer' = end_of_file" "pointer < length code_points"
    by (auto simp: code_point_at_def split: if_splits)
  moreover have "pointer \<le> pointer'" using 4 ipv6_value_loop_pointer by blast
  moreover have "pointer \<noteq> pointer'" using 4(1,9) by auto
  ultimately show ?case by auto
qed simp

declare ipv6_loop.simps [simp del]

text \<open>Step 7: the pieces after the compression move to the end.\<close>

fun ipv6_swap_loop :: "16 word list \<Rightarrow> nat \<Rightarrow> nat \<Rightarrow> nat \<Rightarrow> 16 word list result" where
  "ipv6_swap_loop address compress piece_index swaps =
     (if piece_index \<noteq> 0 \<and> swaps > 0 then
        if piece_index < length address \<and> compress + swaps - 1 < length address then
          ipv6_swap_loop
            (address[piece_index := address ! (compress + swaps - 1), compress + swaps - 1 := address ! piece_index])
            compress (piece_index - 1) (swaps - 1)
        else Inl Verify_failed
      else Inr address)"

declare ipv6_swap_loop.simps [simp del]

text \<open>Step 5, the start with two colons, and steps 7 to 9.\<close>

definition ipv6_start :: "code_point list \<Rightarrow> (nat \<times> nat \<times> nat option) result" where
  "ipv6_start code_points =
     (if code_point_at code_points 0 = cp CHR '':'' then
        if code_point_at code_points 1 \<noteq> cp CHR '':'' then Inl Failure else Inr (2, 1, Some 1)
      else Inr (0, 0, None))"

definition ipv6_finish :: "16 word list \<times> nat \<times> nat option \<Rightarrow> ipv6_address result" where
  "ipv6_finish = (\<lambda>(address, piece_index, compress).
     case compress of
       Some compress \<Rightarrow>
         bind_result (verify (compress \<le> piece_index)) (\<lambda>_.
         bind_result (ipv6_swap_loop address compress 7 (piece_index - compress)) (\<lambda>address.
           Inr (ipv6_of_pieces address)))
     | None \<Rightarrow>
         if piece_index \<noteq> 8 then Inl Failure else Inr (ipv6_of_pieces address))"

definition parse_ipv6_address :: "string \<Rightarrow> ipv6_address result" where
  "parse_ipv6_address input =
     (let code_points = utf8_code_points input in
      bind_result (ipv6_start code_points) (\<lambda>(pointer, piece_index, compress).
      bind_result (ipv6_loop code_points pointer (replicate 8 0) piece_index compress) ipv6_finish))"

subsection \<open>Domains\<close>

definition ends_in_a_number_checker :: "string \<Rightarrow> bool result" where
  "ends_in_a_number_checker input =
     bind_result (split_view input ''.'' True False) (\<lambda>parts.
     bind_result (verify (parts \<noteq> [])) (\<lambda>_.
     if last parts = [] \<and> length parts = 1 then Inr False
     else
       let parts = (if last parts = [] then butlast parts else parts) in
       bind_result (verify (parts \<noteq> [])) (\<lambda>_.
       if last parts \<noteq> [] \<and> list_all (\<lambda>b. is_ascii_digit (cp b)) (last parts) then Inr True
       else if starts_with (last parts) ''0x'' CaseInsensitive then
         bind_result (substring_view_from (last parts) 2) (\<lambda>rest.
           Inr (list_all (\<lambda>b. is_ascii_hex_digit (cp b)) rest))
       else Inr False)))"

text \<open>\<^verbatim>\<open>ToAsciiOptions\<close> of \<^verbatim>\<open>IDNA.h\<close>; a field is true for \<^verbatim>\<open>Yes\<close>.\<close>

record to_ascii_options =
  check_hyphens :: bool
  check_bidi :: bool
  check_joiners :: bool
  use_std3_ascii_rules :: bool
  transitional_processing :: bool
  verify_dns_length :: bool
  ignore_invalid_punycode :: bool

definition to_ascii :: "ext \<Rightarrow> string \<Rightarrow> to_ascii_options \<Rightarrow> string result" where
  "to_ascii x domain_name options =
     (let icu_options =
            (if check_bidi options then [UIDNA_CHECK_BIDI] else []) @
            (if check_joiners options then [UIDNA_CHECK_CONTEXTJ] else []) @
            (if use_std3_ascii_rules options then [UIDNA_USE_STD3_RULES] else []) @
            (if \<not> transitional_processing options
             then [UIDNA_NONTRANSITIONAL_TO_ASCII, UIDNA_NONTRANSITIONAL_TO_UNICODE] else [])
      in if icu_create_uts46_fails x icu_options then Inl Failure
         else case icu_name_to_ascii x icu_options domain_name of (failed, errors, builder) \<Rightarrow>
           let errors = (if \<not> check_hyphens options then
                 filter (\<lambda>e. e \<notin> {UIDNA_ERROR_HYPHEN_3_4, UIDNA_ERROR_LEADING_HYPHEN, UIDNA_ERROR_TRAILING_HYPHEN}) errors
               else errors);
               errors = (if \<not> verify_dns_length options then
                 filter (\<lambda>e. e \<notin> {UIDNA_ERROR_EMPTY_LABEL, UIDNA_ERROR_LABEL_TOO_LONG, UIDNA_ERROR_DOMAIN_NAME_TOO_LONG}) errors
               else errors);
               errors = (if ignore_invalid_punycode options then
                 filter (\<lambda>e. e \<noteq> UIDNA_ERROR_PUNYCODE) errors
               else errors)
           in if failed \<or> errors \<noteq> [] then Inl Failure else string_from_utf8 x builder)"

definition domain_to_ascii :: "ext \<Rightarrow> string \<Rightarrow> bool \<Rightarrow> string result" where
  "domain_to_ascii x domain be_strict =
     bind_result
       (if \<not> be_strict \<and> is_ascii_view x domain then
          if domain = [] then Inl Failure
          else
            bind_result (split_view domain ''.'' False False) (\<lambda>parts.
              if list_ex (\<lambda>part. starts_with part ''xn--'' CaseInsensitive) parts then Inr None
              else bind_result (to_ascii_lowercase_string x domain) (\<lambda>s. Inr (Some s)))
        else Inr None) (\<lambda>fast_path.
     case fast_path of
       Some s \<Rightarrow> Inr s
     | None \<Rightarrow>
         bind_result
           (to_ascii x domain
             \<lparr>check_hyphens = be_strict, check_bidi = True, check_joiners = True,
              use_std3_ascii_rules = be_strict, transitional_processing = False,
              verify_dns_length = be_strict, ignore_invalid_punycode = False\<rparr>) (\<lambda>result.
           if result = [] then Inl Failure else Inr result))"

definition parse_host :: "ext \<Rightarrow> string \<Rightarrow> bool \<Rightarrow> host result" where
  "parse_host x input is_opaque =
     (if starts_with_char input CHR ''['' then
        if \<not> ends_with_char input CHR '']'' then Inl Failure
        else
          bind_result (substring_view input 1 (length input - 2)) (\<lambda>inner.
          bind_result (parse_ipv6_address inner) (\<lambda>address. Inr (Host_IPv6 address)))
      else if is_opaque then parse_opaque_host x input
      else
        bind_result (verify (input \<noteq> [])) (\<lambda>_.
        bind_result (percent_decode input) (\<lambda>domain.
        bind_result (domain_to_ascii x domain False) (\<lambda>ascii_domain.
        bind_result (any_code_point is_forbidden_domain_code_point (map cp ascii_domain)) (\<lambda>forbidden.
        if forbidden then Inl Failure
        else
          bind_result (ends_in_a_number_checker ascii_domain) (\<lambda>number.
          if number then
            bind_result (parse_ipv4_address x ascii_domain) (\<lambda>address. Inr (Host_IPv4 address))
          else Inr (Host_String ascii_domain)))))))"

subsection \<open>Searching for code points\<close>

lemma append_code_point_high:
  assumes "0x80 \<le> c"
  shows "2 \<le> length (append_code_point c) \<and> length (append_code_point c) < 32 \<and>
    (\<forall>b \<in> set (append_code_point c). 0x80 \<le> cp b)"
proof -
  define d where "d = (if is_unicode c then c else REPLACEMENT_CODE_POINT)"
  have d: "0x80 \<le> d" "d \<le> 0x10ffff" "append_code_point c = code_point_to_utf8 d"
    using assms by (auto simp: d_def append_code_point_def is_unicode_def REPLACEMENT_CODE_POINT_def)
  then show ?thesis
    using code_point_to_utf8_high_bytes [of d] length_code_point_to_utf8 [of d]
    by (auto simp: bytes_to_store_code_point_in_utf8_def)
qed

lemma contains_code_point_ascii:
  assumes "ascii_string s"
  shows "contains_code_point s c = Inr (c < 0x80 \<and> char_of c \<in> set s)"
proof (cases "c < 0x80")
  case True
  then show ?thesis
    by (simp add: contains_code_point_def contains_string_def append_code_point_ascii contains_char_def)
next
  case False
  let ?n = "append_code_point c"
  have n: "2 \<le> length ?n" "length ?n < 32" "\<And>b. b \<in> set ?n \<Longrightarrow> 0x80 \<le> cp b"
    using append_code_point_high [of c] False by auto
  then obtain r where r: "memmem_optional s ?n = Inr r" "first_occurrence s ?n r"
    using memmem_optional_first by blast
  have "r = None"
  proof (rule ccontr)
    assume "r \<noteq> None"
    then obtain i where "occurs_at s ?n i" using r(2) by (auto simp: first_occurrence_def)
    then have "set ?n \<subseteq> set s" by (auto simp: occurs_at_def) (metis in_set_dropD in_set_takeD)
    moreover have "hd ?n \<in> set ?n" using n(1) by (intro hd_in_set) auto
    ultimately show False using n(3) assms by (fastforce simp: ascii_string_set)
  qed
  with r(1) n(1) False show ?thesis
    by (auto simp: contains_code_point_def contains_string_def)
qed

definition forbidden_host_bytes :: string where
  "forbidden_host_bytes = [CHR 0x00, CHR 0x09, CHR 0x0A, CHR 0x0D] @ '' #/:<>?@['' @ [CHR 0x5C] @ '']^|''"

lemma is_forbidden_host_code_point_eq:
  "is_forbidden_host_code_point c = Inr (c < 0x80 \<and> char_of c \<in> set forbidden_host_bytes)"
proof -
  have "ascii_string forbidden_host_bytes" by (simp add: forbidden_host_bytes_def)
  then show ?thesis
    unfolding is_forbidden_host_code_point_def forbidden_host_bytes_def [symmetric]
    by (rule contains_code_point_ascii)
qed

definition forbidden_host :: "code_point \<Rightarrow> bool" where
  "forbidden_host c = (c < 0x80 \<and> char_of c \<in> set forbidden_host_bytes)"

definition forbidden_domain :: "code_point \<Rightarrow> bool" where
  "forbidden_domain c = (forbidden_host c \<or> is_ascii_c0_control c \<or> c = cp CHR ''%'' \<or> c = 0x7F)"

lemma forbidden_eq:
  "is_forbidden_host_code_point c = Inr (forbidden_host c)"
  "is_forbidden_domain_code_point c = Inr (forbidden_domain c)"
  by (simp_all add: is_forbidden_domain_code_point_def is_forbidden_host_code_point_eq forbidden_host_def
      forbidden_domain_def)

lemma any_code_point_eq:
  "(\<And>c. p c = Inr (q c)) \<Longrightarrow> any_code_point p cs = Inr (list_ex q cs)"
  by (induction cs) auto

context external_laws
begin

lemma parse_opaque_host_eq:
  "parse_opaque_host x input =
     (if list_ex forbidden_host (utf8_code_points input) then Inl Failure
      else Inr (Host_String (percent_encoded C0Control SpaceAsPlus_No (utf8_code_points input))))"
  by (simp add: parse_opaque_host_def any_code_point_eq [OF forbidden_eq(1)] percent_encode_eq)

lemma utf8_validate_no_verify: "utf8_validate x allow s \<noteq> Inl Verify_failed"
proof (induction s rule: measure_induct_rule [of length])
  case (less s)
  show ?case
    using less.IH validate_utf8_surrogate [of s]
    by (auto simp: utf8_validate.simps [of x allow s] split: prod.split)
qed

lemma string_from_utf8_no_verify: "string_from_utf8 x s \<noteq> Inl Verify_failed"
  using utf8_validate_no_verify by (auto simp: string_from_utf8_def bind_result_eq_Inl)

lemma to_ascii_lowercase_string_eq:
  "ascii_string s \<Longrightarrow> to_ascii_lowercase_string x s = Inr (map (\<lambda>b. char_of (to_ascii_lowercase (cp b))) s)"
  by (simp add: to_ascii_lowercase_string_def utf8_validate_well_formed ascii_string_well_formed)

lemma domain_to_ascii_no_verify: "domain_to_ascii x domain strict \<noteq> Inl Verify_failed"
proof -
  have "to_ascii x domain options \<noteq> Inl Verify_failed" for options
    unfolding to_ascii_def Let_def case_prod_beta
    by (intro if_no_error string_from_utf8_no_verify; simp (no_asm))
  then show ?thesis
    unfolding domain_to_ascii_def is_ascii_view_eq split_view_byte_nonempty bind_result_Inr
    by (cases "ascii_string domain"; intro bind_result_no_error)
      (auto simp: to_ascii_lowercase_string_eq bind_result_eq_Inl split: option.split)
qed

lemma domain_to_ascii_result:
  assumes "domain_to_ascii x domain False = Inr s"
  shows "s \<noteq> [] \<and> ascii_string s"
proof -
  have slow: "ascii_string r"
    if "to_ascii x domain \<lparr>check_hyphens = False, check_bidi = True, check_joiners = True,
              use_std3_ascii_rules = False, transitional_processing = False,
              verify_dns_length = False, ignore_invalid_punycode = False\<rparr> = Inr r" for r
  proof -
    from that obtain opts errs where "icu_name_to_ascii x opts domain = (False, errs, r)"
      "\<forall>e \<in> set errs. e \<in> {UIDNA_ERROR_HYPHEN_3_4, UIDNA_ERROR_LEADING_HYPHEN, UIDNA_ERROR_TRAILING_HYPHEN,
        UIDNA_ERROR_EMPTY_LABEL, UIDNA_ERROR_LABEL_TOO_LONG, UIDNA_ERROR_DOMAIN_NAME_TOO_LONG}"
      by (auto simp: to_ascii_def string_from_utf8_def filter_empty_conv Let_def split: prod.splits if_splits)
    then show ?thesis using name_to_ascii by blast
  qed
  have fast: "ascii_string (map (\<lambda>b. char_of (to_ascii_lowercase (cp b))) domain)" if "ascii_string domain"
    using that to_ascii_lowercase_bound
    by (auto simp: ascii_string_set intro: le_less_trans [OF mod_less_eq_dividend])
  show ?thesis
    using assms slow fast unfolding domain_to_ascii_def is_ascii_view_eq split_view_byte_nonempty bind_result_Inr
    by (cases "ascii_string domain"; cases "domain = []";
        cases "list_ex (\<lambda>part. starts_with part ''xn--'' CaseInsensitive) (filter (\<lambda>p. p \<noteq> []) (split_on CHR ''.'' domain))")
      (simp_all add: to_ascii_lowercase_string_eq split: if_splits, blast+)
qed

end

subsection \<open>IPv4 hosts\<close>

lemma ak_pow_256:
  "ak_pow 256 0 = 1" "ak_pow 256 1 = 256" "ak_pow 256 2 = 65536" "ak_pow 256 3 = 16777216" "ak_pow 256 4 = 4294967296"
  by (simp_all add: ak_pow_def pow_loop.simps)

lemma starts_with_hd: "starts_with s (c # cs) CaseSensitive \<Longrightarrow> s \<noteq> [] \<and> hd s = c"
  by (cases s) (auto simp: starts_with_def split: if_splits)

lemma starts_with_length: "starts_with s t m \<Longrightarrow> length t \<le> length s"
  by (auto simp: starts_with_def split: if_splits)

lemma parse_ipv4_number_no_verify: "parse_ipv4_number x s \<noteq> Inl Verify_failed"
  unfolding parse_ipv4_number_def
  by (intro if_no_error bind_result_no_error)
    (auto simp: substring_view_from_eq bind_result_eq_Inl split: option.split prod.split)

lemma parse_ipv4_numbers_no_verify: "parse_ipv4_numbers x parts \<noteq> Inl Verify_failed"
  using parse_ipv4_number_no_verify by (induction parts) (auto simp: bind_result_eq_Inl)

lemma parse_ipv4_numbers_length: "parse_ipv4_numbers x parts = Inr ns \<Longrightarrow> length ns = length parts"
  by (induction parts arbitrary: ns) auto

lemma split_on_length_1: "split_on c s = [[]] \<longleftrightarrow> s = []"
  by (cases s) auto

lemma parse_ipv4_address_no_verify:
  assumes "s \<noteq> []"
  shows "parse_ipv4_address x s \<noteq> Inl Verify_failed"
proof -
  have "numbers \<noteq> []" if "parse_ipv4_numbers x (if last (split_on c s) = [] \<and> length (split_on c s) > 1
      then butlast (split_on c s) else split_on c s) = Inr numbers" for numbers c
    using parse_ipv4_numbers_length [OF that] by (auto split: if_splits)
  then show ?thesis
    using assms parse_ipv4_numbers_no_verify unfolding parse_ipv4_address_def split_view_byte Let_def
    by (intro if_no_error bind_result_no_error) (auto simp: verify_def)
qed

lemma ends_in_a_number_checker_total:
  assumes "s \<noteq> []"
  shows "ends_in_a_number_checker s \<noteq> Inl e"
proof -
  have "butlast ps = [] \<Longrightarrow> ps \<noteq> [] \<Longrightarrow> length ps = Suc 0" for ps :: "string list"
    by (cases ps) (auto split: if_splits)
  then show ?thesis
    using assms unfolding ends_in_a_number_checker_def split_view_byte Let_def
    by (intro if_no_error bind_result_no_error) (auto simp: verify_def substring_view_from_eq dest: starts_with_length)
qed

lemma ipv4_digits_sum:
  fixes n :: nat
  shows "n div 256 div 256 div 256 mod 256 * 16777216 + n div 256 div 256 mod 256 * 65536 + n div 256 mod 256 * 256 + n mod 256
    = n mod 4294967296"
proof -
  have "n mod (256 * (256 * (256 * 256))) = n mod 4294967296" by simp
  then show ?thesis
    unfolding mod_mult2_eq by simp
qed

lemma ipv4_sum_step:
  "(of_nat ((unat w + m) mod 18446744073709551616) :: 32 word) = w + of_nat m"
proof -
  have "(of_nat (k mod 18446744073709551616) :: 32 word) = of_nat k" for k
    by (simp add: word_unat_eq_iff unat_of_nat mod_mod_cancel)
  then show ?thesis by simp
qed

context external_laws
begin

lemma parse_ipv4_number_digits:
  assumes "v \<le> u32_max"
  shows "parse_ipv4_number x (number_digits 10 False v) = Inr (v, False)"
proof -
  let ?d = "number_digits 10 False v"
  have "\<not> (length ?d \<ge> 2 \<and> hd ?d = CHR ''0'')"
    using number_digits_hd [of 10 v False] by (cases "v = 0") (auto simp: number_digits_def)
  then have "\<not> (length ?d \<ge> 2 \<and> (starts_with ?d ''0X'' CaseSensitive \<or> starts_with ?d ''0x'' CaseSensitive))"
    "\<not> (length ?d \<ge> 2 \<and> ?d ! 0 = CHR ''0'')"
    by (auto dest: starts_with_hd simp: hd_conv_nth)
  then show ?thesis
    using parse_number_digits [of 10 v u32_max False] assms
    by (simp only: parse_ipv4_number_def if_False) simp
qed

lemma parse_dotted:
  assumes "a \<le> 255" "b \<le> 255" "c \<le> 255" "d \<le> 255"
  shows "bind_result (format_dotted a b c d) (parse_ipv4_address x) = Inr (ipv4_sum_loop [a, b, c] 0 (of_nat d))"
proof -
  have "parse_ipv4_numbers x [number_digits 10 False a, number_digits 10 False b, number_digits 10 False c,
      number_digits 10 False d] = Inr [a, b, c, d]"
    using parse_ipv4_number_digits assms by (simp add: u32_max_def)
  then show ?thesis
    using assms
    by (simp add: format_dotted_eq parse_ipv4_address_def split_view_byte split_dotted [simplified] Let_def
        ak_pow_256 [unfolded One_nat_def] del: parse_ipv4_numbers.simps ipv4_sum_loop.simps)
qed

lemma parse_serialize_ipv4:
  "bind_result (serialize_ipv4_address a) (parse_ipv4_address x) = Inr a"
proof -
  define n where "n = unat a"
  have le: "k mod 256 \<le> 255" for k :: nat by (simp add: less_Suc_eq_le [symmetric])
  have "ipv4_sum_loop [n div 256 div 256 div 256 mod 256, n div 256 div 256 mod 256, n div 256 mod 256] 0
      (of_nat (n mod 256)) = of_nat (n mod 4294967296)"
    unfolding ipv4_digits_sum [symmetric] by (simp add: ipv4_sum_step ak_pow_256 [unfolded One_nat_def])
  moreover have "of_nat (n mod 4294967296) = a"
    using unsigned_less [of a, where 'a = nat] by (simp add: n_def)
  ultimately show ?thesis
    unfolding serialize_ipv4_address_def n_def [symmetric] Let_def by (simp only: parse_dotted le)
qed

end

subsection \<open>The IPv6 parser stays in range\<close>

lemma ipv6_value_loop_total: "\<exists>p v n. ipv6_value_loop cps pointer w len = Inr (p, v, n)"
proof (induction "4 - len" arbitrary: pointer w len rule: less_induct)
  case less
  show ?case
  proof (cases "len < 4 \<and> is_ascii_hex_digit (code_point_at cps pointer)")
    case True
    then obtain d where "parse_ascii_hex_digit (code_point_at cps pointer) = Inr d"
      using parse_ascii_hex_digit_ok by blast
    moreover have "4 - (len + 1) < 4 - len" using True by (intro diff_less_mono2) auto
    ultimately show ?thesis
      using True less [of "len + 1" "pointer + 1" "w * 16 + d"]
      by (simp add: ipv6_value_loop.simps [of cps pointer])
  qed (auto simp: ipv6_value_loop.simps [of cps pointer])
qed

lemma ipv4_piece_loop_no_verify:
  "ipv4_piece_loop cps pointer q \<noteq> Inl Verify_failed \<and>
   (q \<noteq> None \<longrightarrow> (\<forall>p. ipv4_piece_loop cps pointer q \<noteq> Inr (p, None)))"
proof (induction "length cps - pointer" arbitrary: pointer q rule: less_induct)
  case less
  show ?case
  proof (cases "pointer < length cps \<and> is_ascii_digit (code_point_at cps pointer)")
    case True
    then obtain d where d: "parse_ascii_digit (code_point_at cps pointer) = Inr d"
      using parse_ascii_digit_ok by blast
    have "length cps - (pointer + 1) < length cps - pointer"
      using True by (intro diff_less_mono2) auto
    from less [OF this] True d show ?thesis
      by (auto simp: ipv4_piece_loop.simps [of cps pointer] split: option.split)
  qed (auto simp: ipv4_piece_loop.simps [of cps pointer])
qed

lemma ipv4_piece_loop_digit:
  assumes "is_ascii_digit (code_point_at cps pointer)"
  shows "ipv4_piece_loop cps pointer None \<noteq> Inr (p, None)"
proof -
  have "pointer < length cps" using assms by (auto simp: code_point_at_def split: if_splits)
  moreover obtain d where "parse_ascii_digit (code_point_at cps pointer) = Inr d"
    using parse_ascii_digit_ok assms by blast
  ultimately show ?thesis
    using ipv4_piece_loop_no_verify [of cps "pointer + 1"] assms
    by (auto simp: ipv4_piece_loop.simps [of cps pointer])
qed

lemma ipv4_in_ipv6_loop_range:
  assumes "length address = 8" and "piece_index = p + numbers_seen div 2" and "p \<le> 6" and "numbers_seen \<le> 4"
  shows "ipv4_in_ipv6_loop cps pointer address piece_index numbers_seen \<noteq> Inl Verify_failed \<and>
    (\<forall>address' piece_index' numbers_seen'.
       ipv4_in_ipv6_loop cps pointer address piece_index numbers_seen = Inr (address', piece_index', numbers_seen') \<longrightarrow>
       length address' = 8 \<and> piece_index \<le> piece_index' \<and> piece_index' \<le> 8)"
  using assms
proof (induction "length cps - pointer" arbitrary: pointer address piece_index numbers_seen rule: less_induct)
  case less
  let ?c = "code_point_at cps pointer"
  define q where "q = (if numbers_seen > 0 then pointer + 1 else pointer)"
  have base: "piece_index \<le> 8" using less.prems by auto
  show ?case
  proof (cases "?c \<noteq> end_of_file \<and> (numbers_seen > 0 \<longrightarrow> ?c = cp CHR ''.'' \<and> numbers_seen < 4) \<and>
      is_ascii_digit (code_point_at cps q)")
    case True
    then have p: "pointer < length cps" by (auto simp: code_point_at_def split: if_splits)
    show ?thesis
    proof (cases "ipv4_piece_loop cps q None")
      case (Inr r)
      obtain p' n where r: "ipv4_piece_loop cps q None = Inr (p', Some n)"
        using Inr ipv4_piece_loop_digit [of cps q] True by (cases r; cases "snd r") auto
      have "q < p'" using ipv4_piece_loop_advances r True by blast
      then have m: "length cps - p' < length cps - pointer" using p by (auto simp: q_def split: if_splits)
      have ns: "numbers_seen < 4" using True by (cases "numbers_seen > 0") auto
      then have pi: "piece_index < 8" using less.prems by auto
      let ?i = "if numbers_seen + 1 = 2 \<or> numbers_seen + 1 = 4 then piece_index + 1 else piece_index"
      have "?i = p + (numbers_seen + 1) div 2"
        using ns less.prems(2)
        by (cases "numbers_seen = 0"; cases "numbers_seen = 1"; cases "numbers_seen = 2"; cases "numbers_seen = 3") auto
      then show ?thesis
        using less.hyps [OF m, of "address[piece_index := address ! piece_index * 0x100 + of_nat n]" ?i "numbers_seen + 1"]
          less.prems ns True r pi
        by (auto simp: ipv4_in_ipv6_loop.simps [of cps pointer] q_def Let_def split: if_splits)
    qed (use True ipv4_piece_loop_no_verify [of cps q None] in
        \<open>auto simp: ipv4_in_ipv6_loop.simps [of cps pointer] q_def split: if_splits\<close>)
  next
    case False
    then show ?thesis
      using base less.prems(1) by (auto simp: ipv4_in_ipv6_loop.simps [of cps pointer] q_def)
  qed
qed

definition ipv6_inv :: "16 word list \<times> nat \<times> nat option \<Rightarrow> bool" where
  "ipv6_inv = (\<lambda>(address, piece_index, compress).
     length address = 8 \<and> piece_index \<le> 8 \<and>
     (case compress of None \<Rightarrow> True | Some k \<Rightarrow> 0 < k \<and> k \<le> piece_index))"

definition ipv6_ok :: "(16 word list \<times> nat \<times> nat option) result \<Rightarrow> bool" where
  "ipv6_ok r = (case r of Inl e \<Rightarrow> e \<noteq> Verify_failed | Inr s \<Rightarrow> ipv6_inv s)"

lemma ipv6_ok_simps [simp]: "ipv6_ok (Inl Failure)" "ipv6_ok (Inr s) = ipv6_inv s"
  by (simp_all add: ipv6_ok_def)

lemma ipv6_inv_step:
  assumes "ipv6_inv (address, piece_index, compress)" and "piece_index < 8"
  shows "ipv6_inv (address[piece_index := v], piece_index + 1, compress)"
    and "ipv6_inv (address, piece_index + 1, Some (piece_index + 1))"
  using assms by (auto simp: ipv6_inv_def split: option.splits)

lemma ipv6_dotted_ok:
  assumes "ipv6_inv (address, piece_index, compress)" and "piece_index \<le> 6"
  shows "ipv6_ok (bind_result (ipv4_in_ipv6_loop cps pointer address piece_index 0)
    (\<lambda>(address, piece_index, numbers_seen).
       if numbers_seen \<noteq> 4 then Inl Failure else Inr (address, piece_index, compress)))"
proof (cases "ipv4_in_ipv6_loop cps pointer address piece_index 0")
  case (Inr r)
  with assms show ?thesis
    using ipv4_in_ipv6_loop_range [of address piece_index piece_index 0 cps pointer]
    by (cases r) (auto simp: ipv6_inv_def split: option.splits)
next
  case (Inl e)
  with assms show ?thesis
    using ipv4_in_ipv6_loop_range [of address piece_index piece_index 0 cps pointer]
    by (auto simp: ipv6_ok_def ipv6_inv_def)
qed

lemma ipv6_loop_ok:
  "ipv6_inv (address, piece_index, compress) \<Longrightarrow> ipv6_ok (ipv6_loop cps pointer address piece_index compress)"
proof (induction "length cps - pointer" arbitrary: pointer address piece_index compress rule: less_induct)
  case less
  let ?c = "code_point_at cps pointer"
  show ?case
  proof (cases "?c = end_of_file \<or> piece_index = 8")
    case True
    with less.prems show ?thesis by (auto simp: ipv6_loop.simps [of cps pointer])
  next
    case False
    then have p: "pointer < length cps" "piece_index < 8" "length address = 8"
      using less.prems by (auto simp: code_point_at_def ipv6_inv_def split: if_splits)
    obtain p' v n where v: "ipv6_value_loop cps pointer 0 0 = Inr (p', v, n)"
      using ipv6_value_loop_total by blast
    then have le: "pointer \<le> p'" using ipv6_value_loop_pointer by blast
    have m: "length cps - (pointer + 1) < length cps - pointer" "length cps - (p' + 1) < length cps - pointer"
      using p le by linarith+
    have eof: "length cps - p' < length cps - pointer" if "code_point_at cps p' = end_of_file"
      using that p False le by (cases "pointer = p'") auto
    note steps = ipv6_inv_step [OF less.prems p(2)] ipv6_dotted_ok [OF less.prems]
    have colon: "ipv6_ok (ipv6_loop cps (pointer + 1) address (piece_index + 1) (Some (piece_index + 1)))"
      by (rule less.hyps [OF m(1) steps(2)])
    have next_piece: "ipv6_ok (ipv6_loop cps (p' + 1) (address[piece_index := of_nat v]) (piece_index + 1) compress)"
      by (rule less.hyps [OF m(2) steps(1)])
    have last_piece: "ipv6_ok (ipv6_loop cps p' (address[piece_index := of_nat v]) (piece_index + 1) compress)"
      if "code_point_at cps p' = end_of_file"
      by (rule less.hyps [OF eof [OF that] steps(1)])
    show ?thesis
      unfolding ipv6_loop.simps [of cps pointer] v sum.case prod.case
      using colon next_piece last_piece steps(3) p False by (auto simp del: One_nat_def)
  qed
qed

lemma ipv6_swap_loop_ok:
  "length address = 8 \<Longrightarrow> piece_index < 8 \<Longrightarrow> compress + swaps \<le> 8 \<Longrightarrow>
     \<exists>r. ipv6_swap_loop address compress piece_index swaps = Inr r \<and> length r = 8"
proof (induction swaps arbitrary: address piece_index)
  case (Suc swaps)
  then show ?case
    by (simp add: ipv6_swap_loop.simps [of address])
qed (simp add: ipv6_swap_loop.simps)

lemma ipv6_finish_ok:
  assumes "ipv6_inv s"
  shows "(\<exists>a. ipv6_finish s = Inr a \<and> length a = 16) \<or> ipv6_finish s = Inl Failure"
proof -
  obtain address i c where s: "s = (address, i, c)" by (cases s)
  show ?thesis
  proof (cases c)
    case None
    with s assms show ?thesis by (simp add: ipv6_finish_def ipv6_inv_def)
  next
    case (Some k)
    with s assms have "\<exists>a. ipv6_swap_loop address k 7 (i - k) = Inr a \<and> length a = 8"
      by (intro ipv6_swap_loop_ok) (auto simp: ipv6_inv_def)
    with s Some assms show ?thesis by (auto simp: ipv6_finish_def ipv6_inv_def)
  qed
qed

lemma parse_ipv6_address_ok:
  "(\<exists>a. parse_ipv6_address s = Inr a \<and> length a = 16) \<or> parse_ipv6_address s = Inl Failure"
proof -
  let ?cps = "utf8_code_points s"
  consider "ipv6_start ?cps = Inl Failure" | p i c where "ipv6_start ?cps = Inr (p, i, c)" "ipv6_inv (replicate 8 0, i, c)"
    by (cases "code_point_at ?cps 0 = cp CHR '':''"; cases "code_point_at ?cps 1 = cp CHR '':''")
      (auto simp: ipv6_start_def ipv6_inv_def)
  then show ?thesis
  proof cases
    case (2 p i c)
    have ok: "ipv6_ok (ipv6_loop ?cps p (replicate 8 0) i c)" by (rule ipv6_loop_ok [OF 2(2)])
    show ?thesis
    proof (cases "ipv6_loop ?cps p (replicate 8 0) i c")
      case (Inl e)
      with ok have "e = Failure" by (cases e) (simp_all add: ipv6_ok_def)
      with Inl 2(1) show ?thesis by (simp add: parse_ipv6_address_def)
    next
      case (Inr r)
      with ok 2(1) ipv6_finish_ok [of r] show ?thesis by (simp add: parse_ipv6_address_def)
    qed
  qed (simp add: parse_ipv6_address_def)
qed

text \<open>What a host that the host parser returns looks like.\<close>

definition host_ok :: "bool \<Rightarrow> host \<Rightarrow> bool" where
  "host_ok is_opaque h =
     (case h of
        Host_IPv4 a \<Rightarrow> \<not> is_opaque
      | Host_IPv6 a \<Rightarrow> length a = 16
      | Host_String s \<Rightarrow>
          ascii_string s \<and>
          (if is_opaque then list_all (\<lambda>b. \<not> forbidden_host (cp b)) s
           else s \<noteq> [] \<and> list_all (\<lambda>b. \<not> forbidden_domain (cp b)) s))"

lemma percent_encoded_not_forbidden:
  assumes "\<not> list_ex forbidden_host cs" and "b \<in> set (percent_encoded es SpaceAsPlus_No cs)"
  shows "\<not> forbidden_host (cp b)"
proof -
  obtain c where c: "c \<in> set cs" "b \<in> set (percent_encoded_char es SpaceAsPlus_No c)"
    using assms(2) by (auto simp: percent_encoded_def)
  show ?thesis
  proof (cases "code_point_is_in_percent_encode_set c es")
    case True
    then obtain b' where "b \<in> set (percent_byte b')"
      using c(2) by (auto simp: percent_encoded_char_def)
    moreover have "cp b' div 16 < 16" using cp_less_256 [of b'] by (simp add: div_less_iff_less_mult)
    ultimately have "b = CHR ''%'' \<or> is_ascii_hex_digit (cp b)"
      by (auto simp: percent_byte_def intro: lookup_digit(4))
    then show ?thesis
      by (auto simp: forbidden_host_def forbidden_host_bytes_def ak_defs)
  next
    case False
    with c assms(1) not_in_set_ascii [OF False] show ?thesis
      by (auto simp: percent_encoded_char_def list_ex_iff)
  qed
qed

context external_laws
begin

lemma parse_host_outcome:
  assumes "input \<noteq> [] \<or> is_opaque"
  shows "parse_host x input is_opaque = Inl Failure \<or>
    (\<exists>h. parse_host x input is_opaque = Inr h \<and> host_ok is_opaque h)"
proof -
  consider "starts_with_char input CHR ''[''" | "\<not> starts_with_char input CHR ''[''" "is_opaque"
    | "\<not> starts_with_char input CHR ''[''" "\<not> is_opaque" "input \<noteq> []" using assms by blast
  then show ?thesis
  proof cases
    case 1
    let ?inner = "take (length input - 2) (drop 1 input)"
    have "parse_host x input is_opaque =
        (if \<not> ends_with_char input CHR '']'' then Inl Failure
         else bind_result (parse_ipv6_address ?inner) (\<lambda>a. Inr (Host_IPv6 a)))"
      using 1 bracketed_length [of input] by (auto simp: parse_host_def substring_view_def verify_def)
    then show ?thesis
      using parse_ipv6_address_ok [of ?inner] by (auto simp: host_ok_def)
  next
    case 2
    let ?s = "percent_encoded C0Control SpaceAsPlus_No (utf8_code_points input)"
    have "host_ok True (Host_String ?s)" if "\<not> list_ex forbidden_host (utf8_code_points input)"
      using percent_encoded_not_forbidden [OF that, of _ C0Control] percent_encoded_ascii
      by (simp add: host_ok_def list_all_iff)
    then show ?thesis
      using 2 by (simp add: parse_host_def parse_opaque_host_eq)
  next
    case 3
    show ?thesis
    proof (cases "domain_to_ascii x (percent_decoded input) False")
      case (Inl e)
      with domain_to_ascii_no_verify [of "percent_decoded input" False] have "e = Failure" by (cases e) auto
      with 3 Inl show ?thesis by (simp add: parse_host_def percent_decode_eq)
    next
      case (Inr s)
      have s: "s \<noteq> []" "ascii_string s" using domain_to_ascii_result [OF Inr] by auto
      have "parse_ipv4_address x s = Inl Failure \<or> (\<exists>a. parse_ipv4_address x s = Inr a)"
        by (rule no_verify_cases [OF parse_ipv4_address_no_verify [OF s(1)]])
      moreover obtain n where "ends_in_a_number_checker s = Inr n"
        using ends_in_a_number_checker_total [OF s(1)] by (cases "ends_in_a_number_checker s") auto
      moreover have "parse_host x input is_opaque =
          (if list_ex forbidden_domain (map cp s) then Inl Failure
           else if n then bind_result (parse_ipv4_address x s) (\<lambda>a. Inr (Host_IPv4 a))
           else Inr (Host_String s))"
        using 3 Inr \<open>ends_in_a_number_checker s = Inr n\<close>
        by (simp add: parse_host_def percent_decode_eq any_code_point_eq [OF forbidden_eq(2)])
      ultimately show ?thesis
        using 3(2) s by (auto simp: host_ok_def list_all_iff list_ex_iff)
    qed
  qed
qed

end

text \<open>
  C4: The host parser never aborts, on an opaque host of any bytes and on a non-empty domain of any bytes,
  malformed UTF-8 and percent-encoding included.  A host that it returns is an IPv6 address of sixteen bytes,
  an IPv4 address (only when the host is not opaque), or an ASCII string without a forbidden code point,
  which is non-empty when the host is not opaque.
\<close>

theorem parse_host_safe:
  assumes "external_laws x" and "input \<noteq> [] \<or> is_opaque"
  shows "parse_host x input is_opaque = Inl Failure \<or>
    (\<exists>h. parse_host x input is_opaque = Inr h \<and> host_ok is_opaque h)"
  using assms by (rule external_laws.parse_host_outcome)

theorem parse_host_safe_witness:
  "parse_host reference_ext ''[1::2'' False = Inl Failure \<or>
    (\<exists>h. parse_host reference_ext ''[1::2'' False = Inr h \<and> host_ok False h)"
  by (rule parse_host_safe) (simp_all add: reference.external_laws_axioms)

text \<open>
  C6: Parsing the serialization of an IPv4 host gives the same 32-bit address.
\<close>

theorem parse_serialize_ipv4_address:
  assumes "external_laws x"
  shows "bind_result (serialize_ipv4_address a) (parse_ipv4_address x) = Inr a"
  using assms by (rule external_laws.parse_serialize_ipv4)

theorem parse_serialize_ipv4_address_witness:
  "bind_result (serialize_ipv4_address 0x7F000001) (parse_ipv4_address reference_ext) = Inr 0x7F000001"
  by (rule parse_serialize_ipv4_address) (rule reference.external_laws_axioms)

subsection \<open>Reading back a serialized IPv6 address\<close>

lemma convert_unsigned_loop_length:
  "2 \<le> base \<Longrightarrow> v < base ^ k \<Longrightarrow> length (convert_unsigned_loop v base u False n) \<le> k"
proof (induction k arbitrary: v n)
  case (Suc k)
  show ?case
  proof (cases "v = 0")
    case False
    have "v div base < base ^ k" using Suc.prems by (simp add: less_mult_imp_div_less mult.commute)
    with Suc False show ?thesis by (simp add: convert_unsigned_loop_step)
  qed simp
qed simp

lemma length_hex_digits: "v < 65536 \<Longrightarrow> length (number_digits 16 False v) \<le> 4"
  using convert_unsigned_loop_length [of 16 v 4 False 0] by (simp add: number_digits_def)

lemma code_point_at_drop:
  "code_point_at cps p = (case drop p cps of [] \<Rightarrow> end_of_file | c # _ \<Rightarrow> c)"
  by (auto simp: code_point_at_def split: list.split) (metis Cons_nth_drop_Suc list.inject not_le)

lemma drop_add: "drop p cps = a @ b \<Longrightarrow> drop (p + length a) cps = b"
  by (metis add.commute append_eq_conv_conj drop_drop)

lemma drop_add_Suc: "drop p cps = a @ c # b \<Longrightarrow> drop (p + length a + 1) cps = b"
  using drop_add [of p cps "a @ [c]" b] by simp

lemma ipv6_value_loop_digits:
  assumes "drop pointer cps = map cp ds @ rest" and "\<And>c. c \<in> set ds \<Longrightarrow> is_ascii_hex_digit (cp c)"
    and "len + length ds \<le> 4" and "case rest of [] \<Rightarrow> True | c # _ \<Rightarrow> \<not> is_ascii_hex_digit c"
  shows "ipv6_value_loop cps pointer v len =
    Inr (pointer + length ds, foldl (\<lambda>v c. v * 16 + digit_value c) v ds, len + length ds)"
  using assms(1-3)
proof (induction ds arbitrary: pointer v len)
  case Nil
  then have "\<not> is_ascii_hex_digit (code_point_at cps pointer)"
    using assms(4) by (auto simp: code_point_at_drop split: list.splits)
  then show ?case by (simp add: ipv6_value_loop.simps)
next
  case (Cons d ds)
  have "code_point_at cps pointer = cp d" using Cons.prems(1) by (simp add: code_point_at_drop)
  moreover have "drop (pointer + 1) cps = map cp ds @ rest"
    using drop_add [of pointer cps "[cp d]"] Cons.prems(1) by simp
  ultimately show ?case
    using Cons.IH [of "pointer + 1" "len + 1"] Cons.prems parse_ascii_hex_digit_value [of d]
    by (simp add: ipv6_value_loop.simps [of cps pointer])
qed

lemma ipv6_value_loop_number:
  assumes "drop pointer cps = map cp (number_digits 16 False v) @ rest" and "v < 65536"
    and "case rest of [] \<Rightarrow> True | c # _ \<Rightarrow> \<not> is_ascii_hex_digit c"
  shows "ipv6_value_loop cps pointer 0 0 =
    Inr (pointer + length (number_digits 16 False v), v, length (number_digits 16 False v))"
  using ipv6_value_loop_digits [OF assms(1) _ _ assms(3), of 0 0] number_digits_hex [of 16 _ False v]
    length_hex_digits [OF assms(2)] number_digits_value [of 16 False v]
  by (simp add: digits_value_def)

text \<open>The text of pieces that are each followed by a colon, and of pieces with colons between them.\<close>

definition hex_piece :: "16 word \<Rightarrow> string" where
  "hex_piece q = number_digits 16 False (unat q)"

fun pieces_text :: "16 word list \<Rightarrow> string" where
  "pieces_text [] = []"
| "pieces_text [q] = hex_piece q"
| "pieces_text (q # qs) = hex_piece q @ '':'' @ pieces_text qs"

definition set_pieces :: "16 word list \<Rightarrow> nat \<Rightarrow> 16 word list \<Rightarrow> 16 word list" where
  "set_pieces address i qs = take i address @ qs @ drop (i + length qs) address"

lemma set_pieces_Nil [simp]: "set_pieces address i [] = address"
  by (simp add: set_pieces_def)

lemma set_pieces_Cons:
  "i < length address \<Longrightarrow> set_pieces (address[i := q]) (i + 1) qs = set_pieces address i (q # qs)"
  by (simp add: set_pieces_def take_Suc_conv_app_nth)

lemma hex_piece_nonempty [simp]: "hex_piece q \<noteq> []"
  by (simp add: hex_piece_def)

lemma hex_piece_start:
  assumes "drop pointer cps = map cp (hex_piece q) @ rest"
  shows "is_ascii_hex_digit (code_point_at cps pointer)"
proof -
  have "hd (hex_piece q) \<in> set (hex_piece q)" by simp
  then have "is_ascii_hex_digit (cp (hd (hex_piece q)))"
    unfolding hex_piece_def by (intro number_digits_hex [of 16 _ False "unat q"]) simp_all
  then show ?thesis
    using assms by (cases "hex_piece q") (simp_all add: code_point_at_drop)
qed

lemma ipv6_loop_piece:
  assumes "drop pointer cps = map cp (hex_piece q) @ rest" and "i < 8" and "length address = 8"
    and "rest = [] \<and> p' = pointer + length (hex_piece q) \<or>
      (\<exists>c cs. rest = cp CHR '':'' # c # cs \<and> c \<noteq> end_of_file) \<and> p' = pointer + length (hex_piece q) + 1"
  shows "ipv6_loop cps pointer address i compress = ipv6_loop cps p' (address[i := q]) (i + 1) compress"
proof -
  let ?p = "pointer + length (hex_piece q)"
  note start = hex_piece_start [OF assms(1)]
  have v: "ipv6_value_loop cps pointer 0 0 = Inr (?p, unat q, length (hex_piece q))"
    using assms(1,4) unsigned_less [of q, where 'a = nat] unfolding hex_piece_def
    by (intro ipv6_value_loop_number [where rest = rest]) (auto simp: ak_defs)
  have c: "code_point_at cps pointer \<noteq> end_of_file" "code_point_at cps pointer \<noteq> cp CHR '':''"
    using start by (auto simp: ak_defs end_of_file_def)
  have rest: "drop ?p cps = rest" using drop_add [OF assms(1)] by simp
  have rest': "drop (?p + 1) cps = tl rest"
    unfolding rest [symmetric] by (simp add: drop_Suc tl_drop)
  show ?thesis
    using assms(2-4) c rest rest'
    by (auto simp: ipv6_loop.simps [of cps pointer] v code_point_at_drop [of cps ?p] code_point_at_drop [of cps "Suc ?p"]
        end_of_file_def)
qed

lemma pieces_text_Cons:
  "pieces_text (q # qs) = hex_piece q @ (if qs = [] then [] else '':'' @ pieces_text qs)"
  by (cases qs) simp_all

lemma pieces_text_eq_Nil [simp]: "pieces_text qs = [] \<longleftrightarrow> qs = []"
  by (cases qs) (auto simp: pieces_text_Cons simp del: pieces_text.simps(2,3))

lemma text_not_eof: "cp b \<noteq> end_of_file"
  using cp_less_256 [of b] unfolding end_of_file_def by linarith

lemma ipv6_loop_eof:
  "drop pointer cps = [] \<Longrightarrow> ipv6_loop cps pointer address i compress = Inr (address, i, compress)"
  by (simp add: ipv6_loop.simps code_point_at_drop)

lemma ipv6_loop_tail:
  assumes "drop pointer cps = map cp (pieces_text qs)" and "i + length qs \<le> 8" and "length address = 8"
  shows "ipv6_loop cps pointer address i compress = Inr (set_pieces address i qs, i + length qs, compress)"
  using assms
proof (induction qs arbitrary: pointer address i)
  case Nil
  then show ?case by (simp add: ipv6_loop_eof)
next
  case (Cons q qs)
  let ?p = "pointer + length (hex_piece q)"
  show ?case
  proof (cases "qs = []")
    case True
    then have t: "drop pointer cps = map cp (hex_piece q) @ []" using Cons.prems(1) by simp
    have "ipv6_loop cps pointer address i compress = ipv6_loop cps ?p (address[i := q]) (i + 1) compress"
      using Cons.prems by (intro ipv6_loop_piece [OF t]) auto
    moreover have "drop ?p cps = []" using drop_add [OF t] by simp
    ultimately show ?thesis
      using True Cons.prems set_pieces_Cons [of i address q "[]"] by (simp add: ipv6_loop_eof)
  next
    case False
    then obtain b bs where b: "pieces_text qs = b # bs" by (cases "pieces_text qs") auto
    have t: "drop pointer cps = map cp (hex_piece q) @ cp CHR '':'' # map cp (pieces_text qs)"
      using False Cons.prems(1) by (simp add: pieces_text_Cons)
    have "ipv6_loop cps pointer address i compress = ipv6_loop cps (?p + 1) (address[i := q]) (i + 1) compress"
      using Cons.prems b text_not_eof by (intro ipv6_loop_piece [OF t]) auto
    moreover have "drop (?p + 1) cps = map cp (pieces_text qs)"
      using drop_add_Suc [OF t] by simp
    ultimately show ?thesis
      using Cons.IH [of "?p + 1" "i + 1" "address[i := q]"] Cons.prems set_pieces_Cons [of i address q qs] by simp
  qed
qed

lemma ipv6_loop_head:
  assumes "drop pointer cps = map cp (concat (map (\<lambda>q. hex_piece q @ '':'') qs)) @ c # cs" and "c \<noteq> end_of_file"
    and "i + length qs \<le> 8" and "length address = 8"
  shows "\<exists>p. drop p cps = c # cs \<and>
    ipv6_loop cps pointer address i compress = ipv6_loop cps p (set_pieces address i qs) (i + length qs) compress"
  using assms(1,3,4)
proof (induction qs arbitrary: pointer address i)
  case Nil
  then show ?case by auto
next
  case (Cons q qs)
  let ?p = "pointer + length (hex_piece q)"
  define rest where "rest = map cp (concat (map (\<lambda>q. hex_piece q @ '':'') qs)) @ c # cs"
  have t: "drop pointer cps = map cp (hex_piece q) @ cp CHR '':'' # rest"
    using Cons.prems(1) by (simp add: rest_def)
  obtain d ds where d: "rest = d # ds" "d \<noteq> end_of_file"
    using assms(2) text_not_eof by (cases "concat (map (\<lambda>q. hex_piece q @ '':'') qs)") (auto simp: rest_def)
  have "ipv6_loop cps pointer address i compress = ipv6_loop cps (?p + 1) (address[i := q]) (i + 1) compress"
    using Cons.prems d by (intro ipv6_loop_piece [OF t]) auto
  moreover have "drop (?p + 1) cps = rest"
    using drop_add_Suc [OF t] by simp
  ultimately show ?case
    using Cons.IH [of "?p + 1" "i + 1" "address[i := q]"] Cons.prems set_pieces_Cons [of i address q qs]
    by (simp add: rest_def)
qed

lemma ipv6_swap_loop_eq:
  assumes "length a > 0"
  shows "ipv6_swap_loop (a @ qs @ replicate r 0 @ s) (length a) (length a + length qs + r - 1) (length qs) =
    Inr (a @ replicate r 0 @ qs @ s)"
proof (induction qs arbitrary: s rule: rev_induct)
  case Nil
  then show ?case by (simp add: ipv6_swap_loop.simps)
next
  case (snoc q qs)
  show ?case
  proof (cases r)
    case 0
    with snoc [of "q # s"] assms show ?thesis
      by (subst ipv6_swap_loop.simps) (simp add: nth_append list_update_append)
  next
    case (Suc r')
    have rep: "replicate r 0 @ t = replicate r' 0 @ 0 # t" for t :: "16 word list"
      using Suc by (simp add: replicate_app_Cons_same)
    have "ipv6_swap_loop (a @ qs @ 0 # replicate r' 0 @ q # s) (length a) (length a + length qs + r') (length qs) =
      Inr (a @ replicate r 0 @ qs @ q # s)"
      using snoc [of "q # s"] Suc by simp
    then show ?thesis
      using assms Suc unfolding append_assoc rep
      by (subst ipv6_swap_loop.simps) (simp add: nth_append list_update_append)
  qed
qed

lemma upt_8: "k < 8 \<Longrightarrow> [k..<8] = k # [k + 1..<8]"
  by (simp add: upt_conv_Cons)

lemma serialize_ipv6_rest:
  "k \<le> 8 \<Longrightarrow> (\<And>j. k \<le> j \<Longrightarrow> compress \<noteq> Some j) \<Longrightarrow>
     serialize_ipv6_loop a compress False [k..<8] = Inr (pieces_text (map (ipv6_piece a) [k..<8]))"
proof (induction "8 - k" arbitrary: k)
  case (Suc n)
  then have "k < 8" by simp
  moreover have "serialize_ipv6_loop a compress False [k + 1..<8] = Inr (pieces_text (map (ipv6_piece a) [k + 1..<8]))"
    using Suc by (intro Suc.hyps) auto
  moreover have "[k + 1..<8] = [] \<longleftrightarrow> k = 7" using \<open>k < 8\<close> by auto
  ultimately show ?case
    using Suc.prems(2) [of k]
    by (simp add: upt_8 pieces_text_Cons hex_piece_def del: upt_Suc pieces_text.simps(2,3) upt_eq_Nil_conv)
qed simp

lemma serialize_ipv6_skip:
  "k \<le> 8 \<Longrightarrow> c < k \<Longrightarrow> \<exists>m. k \<le> m \<and> m \<le> 8 \<and> (\<forall>j. k \<le> j \<and> j < m \<longrightarrow> ipv6_piece a j = 0) \<and>
     serialize_ipv6_loop a (Some c) True [k..<8] = Inr (pieces_text (map (ipv6_piece a) [m..<8]))"
proof (induction "8 - k" arbitrary: k)
  case 0
  then show ?case by (intro exI [of _ 8]) auto
next
  case (Suc n)
  then have k: "k < 8" and n: "n = 8 - (k + 1)" by simp_all
  show ?case
  proof (cases "ipv6_piece a k = 0")
    case True
    obtain m where "k + 1 \<le> m" "m \<le> 8" "\<forall>j. k + 1 \<le> j \<and> j < m \<longrightarrow> ipv6_piece a j = 0"
      "serialize_ipv6_loop a (Some c) True [k + 1..<8] = Inr (pieces_text (map (ipv6_piece a) [m..<8]))"
      using Suc.hyps(1) [OF n] Suc.prems(2) k by auto
    with True k show ?thesis
      by (intro exI [of _ m]) (auto simp: upt_8 le_Suc_eq Suc_le_eq nat_less_le)
  next
    case False
    have "serialize_ipv6_loop a (Some c) True [k..<8] = serialize_ipv6_loop a (Some c) False [k..<8]"
      using False k Suc.prems by (simp add: upt_8)
    with serialize_ipv6_rest [of k "Some c" a] Suc.prems show ?thesis
      by (intro exI [of _ k]) auto
  qed
qed

lemma serialize_ipv6_head:
  assumes "serialize_ipv6_loop a (Some c) True [c + 1..<8] = Inr rest" and "c < 8"
  shows "k \<le> c \<Longrightarrow> serialize_ipv6_loop a (Some c) False [k..<8] =
    Inr (concat (map (\<lambda>q. hex_piece q @ '':'') (map (ipv6_piece a) [k..<c])) @
         (if c = 0 then ''::'' else '':'') @ rest)"
proof (induction "c - k" arbitrary: k)
  case 0
  with assms show ?case by (simp add: upt_8)
next
  case (Suc n)
  then have k: "k < c" "k < 8" "k \<noteq> 7" using assms(2) by auto
  have "serialize_ipv6_loop a (Some c) False [k + 1..<8] =
      Inr (concat (map (\<lambda>q. hex_piece q @ '':'') (map (ipv6_piece a) [k + 1..<c])) @
         (if c = 0 then ''::'' else '':'') @ rest)"
    using Suc k by (intro Suc.hyps) auto
  with k show ?case
    by (simp add: upt_8 upt_conv_Cons [of k c] hex_piece_def)
qed

lemma ascii_hex_piece: "ascii_string (hex_piece q)"
  using ascii_classes_are_ascii(4) number_digits_hex [of 16 _ False "unat q"]
  by (auto simp: hex_piece_def ascii_string_set)

lemma ascii_pieces_text: "ascii_string (pieces_text qs)"
  by (induction qs) (auto simp: pieces_text_Cons ascii_hex_piece simp del: pieces_text.simps(2,3))

lemma code_points_of_ascii: "ascii_string s \<Longrightarrow> utf8_code_points s = map cp s"
  by (simp add: utf8_code_points_ascii ascii_string_def)

lemma ipv6_start_digit:
  "drop 0 cps = map cp (hex_piece q) @ rest \<Longrightarrow> ipv6_start cps = Inr (0, 0, None)"
  using hex_piece_start [of 0 cps q rest] by (auto simp: ipv6_start_def ak_defs)

lemma parse_ipv6_uncompressed:
  assumes "length qs = 8"
  shows "parse_ipv6_address (pieces_text qs) = Inr (ipv6_of_pieces qs)"
proof -
  let ?cps = "map cp (pieces_text qs)"
  obtain q qs' where "qs = q # qs'" using assms by (cases qs) auto
  then have "ipv6_start ?cps = Inr (0, 0, None)"
    by (intro ipv6_start_digit) (simp add: pieces_text_Cons del: pieces_text.simps(2,3))
  moreover have "ipv6_loop ?cps 0 (replicate 8 0) 0 None = Inr (qs, 8, None)"
    using ipv6_loop_tail [of 0 ?cps qs 0 "replicate 8 0" None] assms by (simp add: set_pieces_def)
  ultimately show ?thesis
    by (simp add: parse_ipv6_address_def code_points_of_ascii ascii_pieces_text ipv6_finish_def)
qed

lemma ipv6_finish_compressed:
  assumes "length hs + 1 + length qs \<le> 8"
  shows "ipv6_finish (set_pieces (set_pieces (replicate 8 0) 0 hs) (length hs + 1) qs, length hs + 1 + length qs,
      Some (length hs + 1)) = Inr (ipv6_of_pieces (hs @ replicate (8 - length hs - length qs) 0 @ qs))"
proof -
  let ?r = "8 - length hs - length qs - 1"
  have "8 - length hs = Suc (7 - length hs)" using assms by linarith
  then have "set_pieces (set_pieces (replicate 8 0) 0 hs) (length hs + 1) qs = (hs @ [0]) @ qs @ replicate ?r 0 @ []"
    using assms by (simp add: set_pieces_def)
  moreover have "replicate (8 - length hs - length qs) (0 :: 16 word) = 0 # replicate ?r 0"
    using assms by (cases "8 - length hs - length qs") auto
  ultimately show ?thesis
    using ipv6_swap_loop_eq [of "hs @ [0]" qs ?r "[]"] assms by (simp add: ipv6_finish_def)
qed

lemma parse_ipv6_compressed:
  assumes "length hs + 1 + length qs \<le> 8"
  shows "parse_ipv6_address
      (concat (map (\<lambda>q. hex_piece q @ '':'') hs) @ (if hs = [] then ''::'' else '':'') @ pieces_text qs) =
    Inr (ipv6_of_pieces (hs @ replicate (8 - length hs - length qs) 0 @ qs))"
proof -
  define t where "t = concat (map (\<lambda>q. hex_piece q @ '':'') hs) @ (if hs = [] then ''::'' else '':'') @ pieces_text qs"
  let ?cps = "map cp t" and ?a = "set_pieces (replicate 8 0) 0 hs"
  have ascii: "ascii_string t"
    by (auto simp: t_def ascii_pieces_text ascii_hex_piece intro!: ascii_string_concat)
  have len: "length ?a = 8" using assms by (simp add: set_pieces_def)
  have "\<exists>p i c. ipv6_start ?cps = Inr (p, i, c) \<and> ipv6_loop ?cps p (replicate 8 0) i c =
      Inr (set_pieces ?a (length hs + 1) qs, length hs + 1 + length qs, Some (length hs + 1))"
  proof (cases hs)
    case Nil
    then have "ipv6_start ?cps = Inr (2, 1, Some 1)"
      by (simp add: t_def ipv6_start_def code_point_at_def)
    moreover have "drop 2 ?cps = map cp (pieces_text qs)" using Nil by (simp add: t_def)
    ultimately show ?thesis
      using ipv6_loop_tail [of 2 ?cps qs 1 "replicate 8 0" "Some 1"] assms Nil by simp
  next
    case (Cons q hs')
    then have "ipv6_start ?cps = Inr (0, 0, None)"
      by (intro ipv6_start_digit) (simp add: t_def)
    moreover have d0: "drop 0 ?cps = map cp (concat (map (\<lambda>q. hex_piece q @ '':'') hs)) @ cp CHR '':'' # map cp (pieces_text qs)"
      using Cons by (simp add: t_def)
    moreover obtain p where p: "drop p ?cps = cp CHR '':'' # map cp (pieces_text qs)"
        "ipv6_loop ?cps 0 (replicate 8 0) 0 None = ipv6_loop ?cps p ?a (length hs) None"
      using ipv6_loop_head [OF d0 text_not_eof, of 0 "replicate 8 0" None] assms by auto
    moreover have "ipv6_loop ?cps p ?a (length hs) None = ipv6_loop ?cps (p + 1) ?a (length hs + 1) (Some (length hs + 1))"
      using p(1) assms text_not_eof [of "CHR '':''"]
      by (simp add: ipv6_loop.simps [of _ p] code_point_at_drop)
    moreover have "drop (p + 1) ?cps = map cp (pieces_text qs)"
      using drop_add_Suc [of p ?cps "[]"] p(1) by simp
    ultimately show ?thesis
      using ipv6_loop_tail [of "p + 1" ?cps qs "length hs + 1" ?a "Some (length hs + 1)"] assms len by simp
  qed
  then show ?thesis
    using ipv6_finish_compressed [OF assms]
    by (auto simp: parse_ipv6_address_def t_def [symmetric] code_points_of_ascii ascii)
qed

lemma parse_serialize_ipv6:
  assumes "length a = 16"
  shows "bind_result (serialize_ipv6_address a) parse_ipv6_address = Inr a"
proof -
  let ?P = "ipv6_piece a"
  have a: "ipv6_of_pieces (map ?P [0..<8]) = a" using ipv6_of_pieces_piece [OF assms] .
  show ?thesis
  proof (cases "find_the_ipv6_address_compressed_piece_index a")
    case None
    then show ?thesis
      using serialize_ipv6_rest [of 0 None a] parse_ipv6_uncompressed [of "map ?P [0..<8]"] a
      by (simp add: serialize_ipv6_address_def)
  next
    case (Some c)
    have c: "c < 8" "?P c = 0" using compressed_piece_zero [OF Some] by auto
    obtain m where m: "c + 1 \<le> m" "m \<le> 8" "\<forall>j. c + 1 \<le> j \<and> j < m \<longrightarrow> ?P j = 0"
        "serialize_ipv6_loop a (Some c) True [c + 1..<8] = Inr (pieces_text (map ?P [m..<8]))"
      using serialize_ipv6_skip [of "c + 1" c a] c(1) by auto
    let ?hs = "map ?P [0..<c]" and ?qs = "map ?P [m..<8]"
    have out: "serialize_ipv6_address a =
        Inr (concat (map (\<lambda>q. hex_piece q @ '':'') ?hs) @ (if ?hs = [] then ''::'' else '':'') @ pieces_text ?qs)"
      using serialize_ipv6_head [OF m(4) c(1), of 0] by (simp add: serialize_ipv6_address_def Some)
    have "?P j = 0" if "c \<le> j" "j < m" for j
      using c(2) m(3) that by (cases "j = c") auto
    then have "map ?P [c..<m] = map (\<lambda>_. 0) [c..<m]" by simp
    moreover have "[0..<8] = [0..<c] @ [c..<m] @ [m..<8]"
      using c(1) m(1,2) upt_add_eq_append [of 0 c "8 - c"] upt_add_eq_append [of c m "8 - m"] by simp
    ultimately have "map ?P [0..<8] = ?hs @ replicate (8 - length ?hs - length ?qs) 0 @ ?qs"
      using m(1,2) by (simp add: map_replicate_const)
    then show ?thesis
      using parse_ipv6_compressed [of ?hs ?qs] out a m(1,2) c(1) by simp
  qed
qed

text \<open>
  C5: Parsing the serialization of an IPv6 host gives the same address, for every address: whatever run of
  zero pieces the serializer compresses, the parser puts the remaining pieces back in their places.
\<close>

theorem parse_serialize_ipv6_address:
  assumes "length a = 16"
  shows "bind_result (serialize_ipv6_address a) parse_ipv6_address = Inr a"
  using assms by (rule parse_serialize_ipv6)

theorem parse_serialize_ipv6_address_witness:
  "bind_result (serialize_ipv6_address ipv6_loopback) parse_ipv6_address = Inr ipv6_loopback"
  by (rule parse_serialize_ipv6_address) (simp add: ipv6_loopback_def)

end
