(* ===== verification/Url_Parser.thy ===== *)
theory Url_Parser
  imports Url Host_Parser
begin

text \<open>
  The URL parser of \<^verbatim>\<open>Libraries/LibURL/Parser.cpp\<close>: a state machine over the code points of the input.
  Each case of the \<^verbatim>\<open>switch\<close> is a definition, and \<open>parse_loop\<close> is the loop around it.  The iterator is
  the byte offset \<open>pointer\<close> into the processed input.  Validation errors only produce debug output and are
  left out, together with the computations that serve only them.
\<close>

subsection \<open>Path segments\<close>

definition starts_with_windows_drive_letter :: "string \<Rightarrow> bool" where
  "starts_with_windows_drive_letter s =
     (if length s < 2 then False
      else if \<not> is_ascii_alpha (cp (s ! 0)) \<or> \<not> (s ! 1 = CHR '':'' \<or> s ! 1 = CHR ''|'') then False
      else if length s = 2 then True
      else contains_char (''/'' @ [CHR 0x5C] @ ''?#'') (s ! 2))"

definition is_windows_drive_letter :: "string \<Rightarrow> bool" where
  "is_windows_drive_letter s =
     (length s = 2 \<and> is_ascii_alpha (cp (s ! 0)) \<and> (s ! 1 = CHR '':'' \<or> s ! 1 = CHR ''|''))"

definition is_normalized_windows_drive_letter :: "string \<Rightarrow> bool" where
  "is_normalized_windows_drive_letter s =
     (length s = 2 \<and> is_ascii_alpha (cp (s ! 0)) \<and> s ! 1 = CHR '':'')"

definition is_single_dot_path_segment :: "string \<Rightarrow> bool" where
  "is_single_dot_path_segment s = (s = ''.'' \<or> equals_ignoring_ascii_case s ''%2e'')"

definition is_double_dot_path_segment :: "string \<Rightarrow> bool" where
  "is_double_dot_path_segment s =
     (s = ''..'' \<or> equals_ignoring_ascii_case s ''.%2e'' \<or> equals_ignoring_ascii_case s ''%2e.'' \<or>
      equals_ignoring_ascii_case s ''%2e%2e'')"

definition shorten_urls_path :: "url \<Rightarrow> url result" where
  "shorten_urls_path u =
     bind_result (verify (\<not> has_an_opaque_path u)) (\<lambda>_.
       if scheme u = ''file'' \<and> length (paths u) = 1 \<and> is_normalized_windows_drive_letter (paths u ! 0) then Inr u
       else if paths u \<noteq> [] then Inr (u\<lparr>paths := butlast (paths u)\<rparr>)
       else Inr u)"

subsection \<open>Encoders\<close>

text \<open>
  An encoder of \<^verbatim>\<open>Libraries/LibTextCodec\<close> is the sequence of calls it makes for an input: bytes, and code
  points that it cannot encode.  The UTF-8 encoder passes the bytes through.
\<close>

datatype encoder_call = On_byte char | On_error code_point

type_synonym encoder = "string \<Rightarrow> encoder_call list"

definition utf8_encoder :: encoder where
  "utf8_encoder s = map On_byte s"

fun encode_calls :: "percent_encode_set \<Rightarrow> bool \<Rightarrow> encoder_call list \<Rightarrow> string result" where
  "encode_calls encode_set space_as_plus [] = Inr []"
| "encode_calls encode_set space_as_plus (On_byte b # rest) =
     bind_result
       (if space_as_plus \<and> b = CHR '' '' then Inr ''+''
        else if \<not> code_point_is_in_percent_encode_set (cp b) encode_set then Inr (append_code_point (cp b))
        else append_percent_bytes [cp b]) (\<lambda>out.
     bind_result (encode_calls encode_set space_as_plus rest) (\<lambda>outs. Inr (out @ outs)))"
| "encode_calls encode_set space_as_plus (On_error c # rest) =
     bind_result (format_decimal c) (\<lambda>digits.
     bind_result (encode_calls encode_set space_as_plus rest) (\<lambda>outs.
       Inr (''%26%23'' @ digits @ ''%3B'' @ outs)))"

definition percent_encode_after_encoding ::
    "ext \<Rightarrow> encoder \<Rightarrow> string \<Rightarrow> percent_encode_set \<Rightarrow> bool \<Rightarrow> string result" where
  "percent_encode_after_encoding x encoder input encode_set space_as_plus =
     bind_result (encode_calls encode_set space_as_plus (encoder input)) (\<lambda>output.
       must (string_from_utf8 x output))"

subsection \<open>Input\<close>

definition contains_ascii_tab_or_newline :: "string \<Rightarrow> bool" where
  "contains_ascii_tab_or_newline s =
     list_ex (\<lambda>c. c = CHR 0x09 \<or> c = CHR 0x0A \<or> c = CHR 0x0D) s"

definition remove_ascii_tab_or_newline :: "ext \<Rightarrow> string \<Rightarrow> string result" where
  "remove_ascii_tab_or_newline x s =
     must (string_from_utf8 x (filter (\<lambda>c. c \<noteq> CHR 0x09 \<and> c \<noteq> CHR 0x0A \<and> c \<noteq> CHR 0x0D) s))"

text \<open>The two loops at the start of \<^verbatim>\<open>basic_parse\<close>: the first byte kept and the end of the bytes kept.\<close>

fun start_index_loop :: "string \<Rightarrow> nat \<Rightarrow> nat" where
  "start_index_loop [] start_index = start_index"
| "start_index_loop (b # rest) start_index =
     (if \<not> is_ascii_c0_control_or_space (cp b) then start_index else start_index_loop rest (Suc start_index))"

fun end_index_loop :: "string \<Rightarrow> nat \<Rightarrow> nat \<Rightarrow> nat" where
  "end_index_loop raw_input start_index 0 = 0"
| "end_index_loop raw_input start_index (Suc end_index) =
     (if Suc end_index > start_index then
        if \<not> is_ascii_c0_control_or_space (cp (raw_input ! end_index)) then Suc end_index
        else end_index_loop raw_input start_index end_index
      else Suc end_index)"

definition trimmed_input :: "string \<Rightarrow> string result" where
  "trimmed_input raw_input =
     (let start_index = start_index_loop raw_input 0;
          end_index = end_index_loop raw_input start_index (length raw_input)
      in substring_view raw_input start_index (end_index - start_index))"

definition process_input :: "ext \<Rightarrow> string \<Rightarrow> string result" where
  "process_input x raw_input =
     bind_result (from_utf8_with_replacement_character x raw_input) (\<lambda>processed_input.
       if contains_ascii_tab_or_newline processed_input then remove_ascii_tab_or_newline x processed_input
       else Inr processed_input)"

subsection \<open>States\<close>

datatype state = State_SchemeStart | State_Scheme | State_NoScheme | State_SpecialRelativeOrAuthority
  | State_PathOrAuthority | State_Relative | State_RelativeSlash | State_SpecialAuthoritySlashes
  | State_SpecialAuthorityIgnoreSlashes | State_Authority | State_Host | State_Hostname | State_Port
  | State_File | State_FileSlash | State_FileHost | State_PathStart | State_Path | State_OpaquePath
  | State_Query | State_Fragment

text \<open>The local variables of \<^verbatim>\<open>basic_parse\<close> that the loop changes, and those it only reads.\<close>

record parser =
  parsed_url :: url
  state :: state
  pointer :: nat
  buffer :: string
  at_sign_seen :: bool
  inside_brackets :: bool
  password_token_seen :: bool
  username_builder :: string
  password_builder :: string
  query_encoder :: encoder

record parse_context =
  input :: string
  base_url :: "url option"
  state_override :: "state option"

text \<open>
  How a case of the \<^verbatim>\<open>switch\<close> ends: \<^verbatim>\<open>break\<close>, \<^verbatim>\<open>continue\<close>, \<^verbatim>\<open>return *url\<close> or \<^verbatim>\<open>return {}\<close>.  The URL that
  the caller passed by pointer has been changed also when the parser returns nothing.
\<close>

datatype outcome = Break parser | Continue parser | Return parser | Return_failure parser

definition on_url :: "(url \<Rightarrow> url) \<Rightarrow> parser \<Rightarrow> parser" where
  "on_url f p = p\<lparr>parsed_url := f (parsed_url p)\<rparr>"

definition iterator_done :: "parse_context \<Rightarrow> parser \<Rightarrow> bool" where
  "iterator_done ctx p = (length (input ctx) \<le> pointer p)"

definition current_code_point :: "parse_context \<Rightarrow> parser \<Rightarrow> code_point" where
  "current_code_point ctx p =
     (case drop (pointer p) (input ctx) of [] \<Rightarrow> end_of_file | b # rest \<Rightarrow> utf8_deref b rest)"

text \<open>\<^verbatim>\<open>++iterator\<close>.\<close>

definition increment_iterator :: "parse_context \<Rightarrow> parser \<Rightarrow> parser result" where
  "increment_iterator ctx p =
     (case drop (pointer p) (input ctx) of
        [] \<Rightarrow> Inl Verify_failed
      | b # rest \<Rightarrow> Inr (p\<lparr>pointer := pointer p + utf8_advance b rest\<rparr>))"

definition get_remaining :: "parse_context \<Rightarrow> parser \<Rightarrow> string result" where
  "get_remaining ctx p =
     (case drop (pointer p) (input ctx) of
        [] \<Rightarrow> Inl Verify_failed
      | b # rest \<Rightarrow> substring_view_from (input ctx) (pointer p + underlying_code_point_length_in_bytes b rest))"

definition get_remaining_including_code_point :: "parse_context \<Rightarrow> code_point \<Rightarrow> parser \<Rightarrow> string result" where
  "get_remaining_including_code_point ctx c p =
     (if c = end_of_file then Inr []
      else
        (case drop (pointer p) (input ctx) of
           [] \<Rightarrow> Inl Verify_failed
         | b # rest \<Rightarrow>
             substring_view_from (input ctx)
               (pointer p + underlying_code_point_length_in_bytes b rest - code_unit_length_for_code_point c)))"

definition append_as_lowercase :: "code_point \<Rightarrow> string" where
  "append_as_lowercase c =
     (if c \<ge> cp CHR ''A'' \<and> c \<le> cp CHR ''Z'' then [char_of (c + 0x20)] else [char_of c])"

subsection \<open>The cases of the switch\<close>

definition scheme_start_state :: "parse_context \<Rightarrow> code_point \<Rightarrow> parser \<Rightarrow> outcome result" where
  "scheme_start_state ctx c p =
     (if is_ascii_alpha c then
        Inr (Break (p\<lparr>buffer := buffer p @ append_as_lowercase c, state := State_Scheme\<rparr>))
      else if state_override ctx = None then Inr (Continue (p\<lparr>state := State_NoScheme\<rparr>))
      else Inr (Return_failure p))"

text \<open>The four conditions under which an overridden scheme is left as it is.\<close>

definition keeps_scheme :: "url \<Rightarrow> string \<Rightarrow> bool" where
  "keeps_scheme u new_scheme =
     (if is_special_scheme (scheme u) \<and> \<not> is_special_scheme new_scheme then True
      else if \<not> is_special_scheme (scheme u) \<and> is_special_scheme new_scheme then True
      else if (includes_credentials u \<or> port u \<noteq> None) \<and> new_scheme = ''file'' then True
      else scheme u = ''file'' \<and> (case host u of Some h \<Rightarrow> is_empty_host h | None \<Rightarrow> False))"

text \<open>What follows a scheme that is not overridden.\<close>

definition after_scheme :: "parse_context \<Rightarrow> parser \<Rightarrow> outcome result" where
  "after_scheme ctx p =
     (let u = parsed_url p in
      if scheme u = ''file'' then
        bind_result (get_remaining ctx p) (\<lambda>_. Inr (Break (p\<lparr>state := State_File\<rparr>)))
      else if is_special u \<and> (case base_url ctx of Some b \<Rightarrow> scheme b = scheme u | None \<Rightarrow> False) then
        bind_result (verify (case base_url ctx of Some b \<Rightarrow> is_special b | None \<Rightarrow> False)) (\<lambda>_.
          Inr (Break (p\<lparr>state := State_SpecialRelativeOrAuthority\<rparr>)))
      else if is_special u then Inr (Break (p\<lparr>state := State_SpecialAuthoritySlashes\<rparr>))
      else
        bind_result (get_remaining ctx p) (\<lambda>remaining.
          if starts_with remaining ''/'' CaseSensitive then
            bind_result (increment_iterator ctx (p\<lparr>state := State_PathOrAuthority\<rparr>)) (\<lambda>p. Inr (Break p))
          else
            Inr (Break (on_url (\<lambda>u. append_slash (u\<lparr>has_an_opaque_path := True\<rparr>)) (p\<lparr>state := State_OpaquePath\<rparr>)))))"

definition scheme_state :: "parse_context \<Rightarrow> code_point \<Rightarrow> parser \<Rightarrow> outcome result" where
  "scheme_state ctx c p =
     (if is_ascii_alphanumeric c \<or> c = cp CHR ''+'' \<or> c = cp CHR ''-'' \<or> c = cp CHR ''.'' then
        Inr (Break (p\<lparr>buffer := buffer p @ append_as_lowercase c\<rparr>))
      else if c = cp CHR '':'' then
        if state_override ctx \<noteq> None \<and> keeps_scheme (parsed_url p) (buffer p) then Inr (Return p)
        else
          let p = on_url (\<lambda>u. u\<lparr>scheme := buffer p\<rparr>) p in
          if state_override ctx \<noteq> None then
            Inr (Return
              (if port (parsed_url p) = default_port_for_scheme (scheme (parsed_url p))
               then on_url (\<lambda>u. u\<lparr>port := None\<rparr>) p else p))
          else after_scheme ctx (p\<lparr>buffer := []\<rparr>)
      else if state_override ctx = None then
        Inr (Continue (p\<lparr>buffer := [], state := State_NoScheme, pointer := 0\<rparr>))
      else Inr (Return_failure p))"

definition no_scheme_state :: "parse_context \<Rightarrow> code_point \<Rightarrow> parser \<Rightarrow> outcome result" where
  "no_scheme_state ctx c p =
     (case base_url ctx of
        None \<Rightarrow> Inr (Return_failure p)
      | Some b \<Rightarrow>
          if has_an_opaque_path b \<and> c \<noteq> cp CHR ''#'' then Inr (Return_failure p)
          else if has_an_opaque_path b \<and> c = cp CHR ''#'' then
            Inr (Break (on_url (\<lambda>u. u\<lparr>scheme := scheme b, paths := paths b, query := query b,
              fragment := Some [], has_an_opaque_path := True\<rparr>) (p\<lparr>state := State_Fragment\<rparr>)))
          else if scheme b \<noteq> ''file'' then Inr (Continue (p\<lparr>state := State_Relative\<rparr>))
          else Inr (Continue (p\<lparr>state := State_File\<rparr>)))"

definition special_relative_or_authority_state :: "parse_context \<Rightarrow> code_point \<Rightarrow> parser \<Rightarrow> outcome result" where
  "special_relative_or_authority_state ctx c p =
     bind_result (if c = cp CHR ''/'' then get_remaining ctx p else Inr []) (\<lambda>remaining.
       if c = cp CHR ''/'' \<and> starts_with remaining ''/'' CaseSensitive then
         bind_result (increment_iterator ctx (p\<lparr>state := State_SpecialAuthorityIgnoreSlashes\<rparr>)) (\<lambda>p. Inr (Break p))
       else Inr (Continue (p\<lparr>state := State_Relative\<rparr>)))"

definition path_or_authority_state :: "code_point \<Rightarrow> parser \<Rightarrow> outcome result" where
  "path_or_authority_state c p =
     (if c = cp CHR ''/'' then Inr (Break (p\<lparr>state := State_Authority\<rparr>))
      else Inr (Continue (p\<lparr>state := State_Path\<rparr>)))"

definition relative_state :: "parse_context \<Rightarrow> code_point \<Rightarrow> parser \<Rightarrow> outcome result" where
  "relative_state ctx c p =
     (case base_url ctx of
        None \<Rightarrow> Inl Verify_failed
      | Some b \<Rightarrow>
          bind_result (verify (scheme b \<noteq> ''file'')) (\<lambda>_.
            let p = on_url (\<lambda>u. u\<lparr>scheme := scheme b\<rparr>) p in
            if c = cp CHR ''/'' then Inr (Break (p\<lparr>state := State_RelativeSlash\<rparr>))
            else if is_special (parsed_url p) \<and> c = cp CHR 0x5C then Inr (Break (p\<lparr>state := State_RelativeSlash\<rparr>))
            else
              let p = on_url (\<lambda>u. u\<lparr>username := username b, password := password b, host := host b,
                port := port b, paths := paths b, query := query b\<rparr>) p in
              if c = cp CHR ''?'' then
                Inr (Break (on_url (\<lambda>u. u\<lparr>query := Some []\<rparr>) (p\<lparr>state := State_Query\<rparr>)))
              else if c = cp CHR ''#'' then
                Inr (Break (on_url (\<lambda>u. u\<lparr>fragment := Some []\<rparr>) (p\<lparr>state := State_Fragment\<rparr>)))
              else if c \<noteq> end_of_file then
                bind_result (shorten_urls_path ((parsed_url p)\<lparr>query := None\<rparr>)) (\<lambda>u.
                  Inr (Continue (p\<lparr>parsed_url := u, state := State_Path\<rparr>)))
              else Inr (Break p)))"

definition relative_slash_state :: "parse_context \<Rightarrow> code_point \<Rightarrow> parser \<Rightarrow> outcome result" where
  "relative_slash_state ctx c p =
     (if is_special (parsed_url p) \<and> (c = cp CHR ''/'' \<or> c = cp CHR 0x5C) then
        Inr (Break (p\<lparr>state := State_SpecialAuthorityIgnoreSlashes\<rparr>))
      else if c = cp CHR ''/'' then Inr (Break (p\<lparr>state := State_Authority\<rparr>))
      else case base_url ctx of
        None \<Rightarrow> Inl Verify_failed
      | Some b \<Rightarrow>
          Inr (Continue (on_url (\<lambda>u. u\<lparr>username := username b, password := password b, host := host b,
            port := port b\<rparr>) (p\<lparr>state := State_Path\<rparr>))))"

definition special_authority_slashes_state :: "parse_context \<Rightarrow> code_point \<Rightarrow> parser \<Rightarrow> outcome result" where
  "special_authority_slashes_state ctx c p =
     bind_result (if c = cp CHR ''/'' then get_remaining ctx p else Inr []) (\<lambda>remaining.
       if c = cp CHR ''/'' \<and> starts_with remaining ''/'' CaseSensitive then
         bind_result (increment_iterator ctx (p\<lparr>state := State_SpecialAuthorityIgnoreSlashes\<rparr>)) (\<lambda>p. Inr (Break p))
       else Inr (Continue (p\<lparr>state := State_SpecialAuthorityIgnoreSlashes\<rparr>)))"

definition special_authority_ignore_slashes_state :: "code_point \<Rightarrow> parser \<Rightarrow> outcome result" where
  "special_authority_ignore_slashes_state c p =
     (if c \<noteq> cp CHR ''/'' \<and> c \<noteq> cp CHR 0x5C then Inr (Continue (p\<lparr>state := State_Authority\<rparr>))
      else Inr (Break p))"

text \<open>The credentials before an at sign, appended to the two builders.\<close>

definition append_credentials :: "ext \<Rightarrow> string \<Rightarrow> parser \<Rightarrow> parser result" where
  "append_credentials x authority p =
     (let p = (if at_sign_seen p then
                 if password_token_seen p then p\<lparr>password_builder := password_builder p @ ''%40''\<rparr>
                 else p\<lparr>username_builder := username_builder p @ ''%40''\<rparr>
               else p);
          p = p\<lparr>at_sign_seen := True\<rparr>
      in if password_token_seen p then
           bind_result (percent_encode x authority Userinfo SpaceAsPlus_No) (\<lambda>out.
             Inr (p\<lparr>password_builder := password_builder p @ out\<rparr>))
         else case find_char x authority CHR '':'' 0 of
           Some password_end \<Rightarrow>
             bind_result (substring_view authority 0 password_end) (\<lambda>name.
             bind_result (percent_encode x name Userinfo SpaceAsPlus_No) (\<lambda>name.
             bind_result (substring_view_from authority (password_end + 1)) (\<lambda>pass.
             bind_result (percent_encode x pass Userinfo SpaceAsPlus_No) (\<lambda>pass.
               Inr (p\<lparr>password_token_seen := True, username_builder := username_builder p @ name,
                 password_builder := password_builder p @ pass\<rparr>)))))
         | None \<Rightarrow>
             bind_result (percent_encode x authority Userinfo SpaceAsPlus_No) (\<lambda>out.
               Inr (p\<lparr>username_builder := username_builder p @ out\<rparr>)))"

text \<open>
  The last step moves the iterator back by one byte, which at offset 0 would leave the buffer of the input.
\<close>

definition authority_state :: "ext \<Rightarrow> parse_context \<Rightarrow> code_point \<Rightarrow> parser \<Rightarrow> outcome result" where
  "authority_state x ctx c p =
     bind_result (get_remaining_including_code_point ctx c p) (\<lambda>remaining.
       let delimiter = (if is_special (parsed_url p) then ''@/?#'' @ [CHR 0x5C] else ''@/?#'');
           authority_length =
             (case find_any_of remaining delimiter of Some n \<Rightarrow> n | None \<Rightarrow> length remaining)
       in bind_result (substring_view remaining 0 authority_length) (\<lambda>authority.
         if authority_length < length remaining \<and> remaining ! authority_length = CHR ''@'' then
           bind_result (append_credentials x authority p) (\<lambda>p.
             Inr (Break (p\<lparr>pointer := pointer p + length authority\<rparr>)))
         else if at_sign_seen p \<and> authority = [] then Inr (Return_failure p)
         else if pointer p = 0 then Inl Verify_failed
         else
           Inr (Break (on_url (\<lambda>u. u\<lparr>password := password_builder p, username := username_builder p\<rparr>)
             (p\<lparr>pointer := pointer p - 1, buffer := [], state := State_Host\<rparr>)))))"

text \<open>\<^verbatim>\<open>parse_host\<close> returning nothing makes the parser return nothing.\<close>

definition with_host :: "ext \<Rightarrow> string \<Rightarrow> parser \<Rightarrow> (host \<Rightarrow> outcome result) \<Rightarrow> outcome result" where
  "with_host x s p k =
     (case parse_host x s (\<not> is_special (parsed_url p)) of
        Inl Verify_failed \<Rightarrow> Inl Verify_failed
      | Inl Failure \<Rightarrow> Inr (Return_failure p)
      | Inr h \<Rightarrow> k h)"

definition host_state :: "ext \<Rightarrow> parse_context \<Rightarrow> code_point \<Rightarrow> parser \<Rightarrow> outcome result" where
  "host_state x ctx c p =
     (if state_override ctx \<noteq> None \<and> scheme (parsed_url p) = ''file'' then
        Inr (Continue (p\<lparr>state := State_FileHost\<rparr>))
      else if c = cp CHR '':'' \<and> \<not> inside_brackets p then
        if buffer p = [] then Inr (Return_failure p)
        else if state_override ctx = Some State_Hostname then Inr (Return_failure p)
        else
          with_host x (buffer p) p (\<lambda>h.
            Inr (Break (on_url (\<lambda>u. u\<lparr>host := Some h\<rparr>) (p\<lparr>buffer := [], state := State_Port\<rparr>))))
      else if (c = end_of_file \<or> c = cp CHR ''/'' \<or> c = cp CHR ''?'' \<or> c = cp CHR ''#'')
          \<or> (is_special (parsed_url p) \<and> c = cp CHR 0x5C) then
        if is_special (parsed_url p) \<and> buffer p = [] then Inr (Return_failure p)
        else if state_override ctx \<noteq> None \<and> buffer p = [] \<and>
            (includes_credentials (parsed_url p) \<or> port (parsed_url p) \<noteq> None) then Inr (Return_failure p)
        else
          with_host x (buffer p) p (\<lambda>h.
            let p = on_url (\<lambda>u. u\<lparr>host := Some h\<rparr>) (p\<lparr>buffer := [], state := State_Port\<rparr>) in
            if state_override ctx \<noteq> None then Inr (Return p) else Inr (Continue p))
      else
        Inr (Break (p\<lparr>inside_brackets := (if c = cp CHR ''['' then True else if c = cp CHR '']'' then False
          else inside_brackets p), buffer := buffer p @ append_code_point c\<rparr>)))"

definition port_state :: "ext \<Rightarrow> parse_context \<Rightarrow> code_point \<Rightarrow> parser \<Rightarrow> outcome result" where
  "port_state x ctx c p =
     (if is_ascii_digit c then Inr (Break (p\<lparr>buffer := buffer p @ append_code_point c\<rparr>))
      else if (c = end_of_file \<or> c = cp CHR ''/'' \<or> c = cp CHR ''?'' \<or> c = cp CHR ''#'')
          \<or> (is_special (parsed_url p) \<and> c = cp CHR 0x5C) \<or> state_override ctx \<noteq> None then
        if buffer p \<noteq> [] then
          case parse_number x 0xFFFF (buffer p) False 10 of
            None \<Rightarrow> Inr (Return_failure p)
          | Some n \<Rightarrow>
              let p = on_url (\<lambda>u. u\<lparr>port :=
                    (if default_port_for_scheme (scheme u) = Some (of_nat n) then None else Some (of_nat n))\<rparr>)
                  (p\<lparr>buffer := []\<rparr>) in
              if state_override ctx \<noteq> None then Inr (Return p)
              else Inr (Continue (p\<lparr>state := State_PathStart\<rparr>))
        else if state_override ctx \<noteq> None then Inr (Return_failure p)
        else Inr (Continue (p\<lparr>state := State_PathStart\<rparr>))
      else Inr (Return_failure p))"

text \<open>\<^verbatim>\<open>input.substring_view(iterator - input.begin())\<close>.\<close>

definition substring_from_pointer :: "parse_context \<Rightarrow> parser \<Rightarrow> string result" where
  "substring_from_pointer ctx p = substring_view_from (input ctx) (pointer p)"

definition file_state :: "parse_context \<Rightarrow> code_point \<Rightarrow> parser \<Rightarrow> outcome result" where
  "file_state ctx c p =
     (let p = on_url (\<lambda>u. u\<lparr>scheme := ''file'', host := Some (Host_String [])\<rparr>) p in
      if c = cp CHR ''/'' \<or> c = cp CHR 0x5C then Inr (Break (p\<lparr>state := State_FileSlash\<rparr>))
      else case base_url ctx of
        None \<Rightarrow> Inr (Continue (p\<lparr>state := State_Path\<rparr>))
      | Some b \<Rightarrow>
          if scheme b \<noteq> ''file'' then Inr (Continue (p\<lparr>state := State_Path\<rparr>))
          else
            let p = on_url (\<lambda>u. u\<lparr>host := host b, paths := paths b, query := query b\<rparr>) p in
            if c = cp CHR ''?'' then
              Inr (Break (on_url (\<lambda>u. u\<lparr>query := Some []\<rparr>) (p\<lparr>state := State_Query\<rparr>)))
            else if c = cp CHR ''#'' then
              Inr (Break (on_url (\<lambda>u. u\<lparr>fragment := Some []\<rparr>) (p\<lparr>state := State_Fragment\<rparr>)))
            else if c \<noteq> end_of_file then
              bind_result (substring_from_pointer ctx p) (\<lambda>rest.
              bind_result
                (if \<not> starts_with_windows_drive_letter rest then
                   shorten_urls_path ((parsed_url p)\<lparr>query := None\<rparr>)
                 else Inr ((parsed_url p)\<lparr>query := None, paths := []\<rparr>)) (\<lambda>u.
                Inr (Continue (p\<lparr>parsed_url := u, state := State_Path\<rparr>))))
            else Inr (Break p))"

definition file_slash_state :: "parse_context \<Rightarrow> code_point \<Rightarrow> parser \<Rightarrow> outcome result" where
  "file_slash_state ctx c p =
     (if c = cp CHR ''/'' \<or> c = cp CHR 0x5C then Inr (Break (p\<lparr>state := State_FileHost\<rparr>))
      else
        bind_result
          (case base_url ctx of
             None \<Rightarrow> Inr (parsed_url p)
           | Some b \<Rightarrow>
               if scheme b \<noteq> ''file'' then Inr (parsed_url p)
               else
                 let u = (parsed_url p)\<lparr>host := host b\<rparr> in
                 bind_result (substring_from_pointer ctx p) (\<lambda>rest.
                   if starts_with_windows_drive_letter rest then Inr u
                   else if paths b = [] then Inl Verify_failed
                   else if is_normalized_windows_drive_letter (paths b ! 0)
                     then Inr (u\<lparr>paths := paths u @ [paths b ! 0]\<rparr>)
                   else Inr u)) (\<lambda>u.
          Inr (Continue (p\<lparr>parsed_url := u, state := State_Path\<rparr>))))"

definition file_host_state :: "ext \<Rightarrow> parse_context \<Rightarrow> code_point \<Rightarrow> parser \<Rightarrow> outcome result" where
  "file_host_state x ctx c p =
     (if c = end_of_file \<or> c = cp CHR ''/'' \<or> c = cp CHR 0x5C \<or> c = cp CHR ''?'' \<or> c = cp CHR ''#'' then
        if state_override ctx = None \<and> is_windows_drive_letter (buffer p) then
          Inr (Continue (p\<lparr>state := State_Path\<rparr>))
        else if buffer p = [] then
          let p = on_url (\<lambda>u. u\<lparr>host := Some (Host_String [])\<rparr>) p in
          if state_override ctx \<noteq> None then Inr (Return p)
          else Inr (Continue (p\<lparr>state := State_PathStart\<rparr>))
        else
          with_host x (buffer p) p (\<lambda>h.
            let p = on_url (\<lambda>u. u\<lparr>host := Some (if h = Host_String ''localhost'' then Host_String [] else h)\<rparr>) p in
            if state_override ctx \<noteq> None then Inr (Return p)
            else Inr (Continue (p\<lparr>buffer := [], state := State_PathStart\<rparr>)))
      else Inr (Break (p\<lparr>buffer := buffer p @ append_code_point c\<rparr>)))"

definition path_start_state :: "parse_context \<Rightarrow> code_point \<Rightarrow> parser \<Rightarrow> outcome result" where
  "path_start_state ctx c p =
     (if is_special (parsed_url p) then
        let p = p\<lparr>state := State_Path\<rparr> in
        if c \<noteq> cp CHR ''/'' \<and> c \<noteq> cp CHR 0x5C then Inr (Continue p) else Inr (Break p)
      else if state_override ctx = None \<and> c = cp CHR ''?'' then
        Inr (Break (on_url (\<lambda>u. u\<lparr>query := Some []\<rparr>) (p\<lparr>state := State_Query\<rparr>)))
      else if state_override ctx = None \<and> c = cp CHR ''#'' then
        Inr (Break (on_url (\<lambda>u. u\<lparr>fragment := Some []\<rparr>) (p\<lparr>state := State_Fragment\<rparr>)))
      else if c \<noteq> end_of_file then
        let p = p\<lparr>state := State_Path\<rparr> in
        if c \<noteq> cp CHR ''/'' then Inr (Continue p) else Inr (Break p)
      else if state_override ctx \<noteq> None \<and> host (parsed_url p) = None then Inr (Break (on_url append_slash p))
      else Inr (Break p))"

text \<open>What the end of a path segment does to the path.\<close>

definition end_path_segment :: "bool \<Rightarrow> string \<Rightarrow> url \<Rightarrow> url result" where
  "end_path_segment slash segment u =
     (if is_double_dot_path_segment segment then
        bind_result (shorten_urls_path u) (\<lambda>u. Inr (if \<not> slash then append_slash u else u))
      else if is_single_dot_path_segment segment \<and> \<not> slash then Inr (append_slash u)
      else if \<not> is_single_dot_path_segment segment then
        let segment = (if scheme u = ''file'' \<and> paths u = [] \<and> is_windows_drive_letter segment
                       then [segment ! 0, CHR '':''] else segment)
        in Inr (u\<lparr>paths := paths u @ [segment]\<rparr>)
      else Inr u)"

definition path_state :: "parse_context \<Rightarrow> code_point \<Rightarrow> parser \<Rightarrow> outcome result" where
  "path_state ctx c p =
     (if (c = end_of_file \<or> c = cp CHR ''/'') \<or> (is_special (parsed_url p) \<and> c = cp CHR 0x5C)
          \<or> (state_override ctx = None \<and> (c = cp CHR ''?'' \<or> c = cp CHR ''#'')) then
        bind_result
          (end_path_segment (c = cp CHR ''/'' \<or> (is_special (parsed_url p) \<and> c = cp CHR 0x5C)) (buffer p) (parsed_url p))
          (\<lambda>u.
            let p = p\<lparr>parsed_url := u, buffer := []\<rparr> in
            if c = cp CHR ''?'' then
              Inr (Break (on_url (\<lambda>u. u\<lparr>query := Some []\<rparr>) (p\<lparr>state := State_Query\<rparr>)))
            else if c = cp CHR ''#'' then
              Inr (Break (on_url (\<lambda>u. u\<lparr>fragment := Some []\<rparr>) (p\<lparr>state := State_Fragment\<rparr>)))
            else Inr (Break p))
      else
        bind_result (append_percent_encoded_if_necessary c PathSet) (\<lambda>out.
          Inr (Break (p\<lparr>buffer := buffer p @ out\<rparr>))))"

definition opaque_path_state :: "parse_context \<Rightarrow> code_point \<Rightarrow> parser \<Rightarrow> outcome result" where
  "opaque_path_state ctx c p =
     bind_result (verify (paths (parsed_url p) = [[]])) (\<lambda>_.
       if c = cp CHR ''?'' then
         Inr (Break (on_url (\<lambda>u. u\<lparr>paths := [buffer p], query := Some []\<rparr>) (p\<lparr>buffer := [], state := State_Query\<rparr>)))
       else if c = cp CHR ''#'' then
         Inr (Break (on_url (\<lambda>u. u\<lparr>paths := [buffer p], fragment := Some []\<rparr>) (p\<lparr>buffer := [], state := State_Fragment\<rparr>)))
       else if c = cp CHR '' '' then
         bind_result (get_remaining ctx p) (\<lambda>remaining.
           if starts_with_char remaining CHR ''?'' \<or> starts_with_char remaining CHR ''#'' then
             Inr (Break (p\<lparr>buffer := buffer p @ ''%20''\<rparr>))
           else Inr (Break (p\<lparr>buffer := buffer p @ '' ''\<rparr>)))
       else if c \<noteq> end_of_file then
         bind_result (append_percent_encoded_if_necessary c C0Control) (\<lambda>out.
           Inr (Break (p\<lparr>buffer := buffer p @ out\<rparr>)))
       else Inr (Break (on_url (\<lambda>u. u\<lparr>paths := [buffer p]\<rparr>) (p\<lparr>buffer := []\<rparr>))))"

definition query_state :: "ext \<Rightarrow> parse_context \<Rightarrow> code_point \<Rightarrow> parser \<Rightarrow> outcome result" where
  "query_state x ctx c p =
     (let p = (if \<not> is_special (parsed_url p) \<or> scheme (parsed_url p) = ''ws'' \<or> scheme (parsed_url p) = ''wss''
               then p\<lparr>query_encoder := utf8_encoder\<rparr> else p) in
      if (state_override ctx = None \<and> c = cp CHR ''#'') \<or> c = end_of_file then
        bind_result (percent_encode_after_encoding x (query_encoder p) (buffer p)
            (if is_special (parsed_url p) then SpecialQuery else QuerySet) False) (\<lambda>q.
          let p = on_url (\<lambda>u. u\<lparr>query := Some q\<rparr>) (p\<lparr>buffer := []\<rparr>) in
          if c = cp CHR ''#'' then
            Inr (Break (on_url (\<lambda>u. u\<lparr>fragment := Some []\<rparr>) (p\<lparr>state := State_Fragment\<rparr>)))
          else Inr (Break p))
      else if c \<noteq> end_of_file then Inr (Break (p\<lparr>buffer := buffer p @ append_code_point c\<rparr>))
      else Inr (Break p))"

definition fragment_state :: "ext \<Rightarrow> code_point \<Rightarrow> parser \<Rightarrow> outcome result" where
  "fragment_state x c p =
     (if c \<noteq> end_of_file then Inr (Break (p\<lparr>buffer := buffer p @ append_code_point c\<rparr>))
      else
        bind_result (percent_encode_after_encoding x utf8_encoder (buffer p) FragmentSet False) (\<lambda>f.
          Inr (Break (on_url (\<lambda>u. u\<lparr>fragment := Some f\<rparr>) (p\<lparr>buffer := []\<rparr>)))))"

definition run_state :: "ext \<Rightarrow> parse_context \<Rightarrow> code_point \<Rightarrow> parser \<Rightarrow> outcome result" where
  "run_state x ctx c p =
     (case state p of
        State_SchemeStart \<Rightarrow> scheme_start_state ctx c p
      | State_Scheme \<Rightarrow> scheme_state ctx c p
      | State_NoScheme \<Rightarrow> no_scheme_state ctx c p
      | State_SpecialRelativeOrAuthority \<Rightarrow> special_relative_or_authority_state ctx c p
      | State_PathOrAuthority \<Rightarrow> path_or_authority_state c p
      | State_Relative \<Rightarrow> relative_state ctx c p
      | State_RelativeSlash \<Rightarrow> relative_slash_state ctx c p
      | State_SpecialAuthoritySlashes \<Rightarrow> special_authority_slashes_state ctx c p
      | State_SpecialAuthorityIgnoreSlashes \<Rightarrow> special_authority_ignore_slashes_state c p
      | State_Authority \<Rightarrow> authority_state x ctx c p
      | State_Host \<Rightarrow> host_state x ctx c p
      | State_Hostname \<Rightarrow> host_state x ctx c p
      | State_Port \<Rightarrow> port_state x ctx c p
      | State_File \<Rightarrow> file_state ctx c p
      | State_FileSlash \<Rightarrow> file_slash_state ctx c p
      | State_FileHost \<Rightarrow> file_host_state x ctx c p
      | State_PathStart \<Rightarrow> path_start_state ctx c p
      | State_Path \<Rightarrow> path_state ctx c p
      | State_OpaquePath \<Rightarrow> opaque_path_state ctx c p
      | State_Query \<Rightarrow> query_state x ctx c p
      | State_Fragment \<Rightarrow> fragment_state x c p)"

subsection \<open>The loop\<close>

text \<open>
  Every round of the loop either reads on, or stays at the same code point and moves to a state of lower
  rank.  The scheme state may also start over from the first code point, which it does at most once because
  no other state goes back to it.
\<close>

definition state_phase :: "state \<Rightarrow> nat" where
  "state_phase s = (case s of State_SchemeStart \<Rightarrow> 1 | State_Scheme \<Rightarrow> 1 | _ \<Rightarrow> 0)"

definition state_rank :: "state \<Rightarrow> nat" where
  "state_rank s =
     (case s of
        State_NoScheme \<Rightarrow> 9 | State_SpecialRelativeOrAuthority \<Rightarrow> 9 | State_PathOrAuthority \<Rightarrow> 9
      | State_Relative \<Rightarrow> 8 | State_RelativeSlash \<Rightarrow> 8 | State_SpecialAuthoritySlashes \<Rightarrow> 8
      | State_File \<Rightarrow> 8 | State_FileSlash \<Rightarrow> 8
      | State_SpecialAuthorityIgnoreSlashes \<Rightarrow> 7 | State_Authority \<Rightarrow> 6
      | State_Host \<Rightarrow> 5 | State_Hostname \<Rightarrow> 5 | State_FileHost \<Rightarrow> 4 | State_Port \<Rightarrow> 4
      | State_PathStart \<Rightarrow> 3 | State_Path \<Rightarrow> 2 | _ \<Rightarrow> 0)"

definition continues_lower :: "parser \<Rightarrow> parser \<Rightarrow> bool" where
  "continues_lower p p' \<longleftrightarrow>
     state_phase (state p') < state_phase (state p) \<or>
     state_phase (state p') = state_phase (state p) \<and> pointer p' = pointer p \<and>
       state_rank (state p') < state_rank (state p)"

definition breaks_forward :: "parser \<Rightarrow> parser \<Rightarrow> bool" where
  "breaks_forward p p' \<longleftrightarrow>
     state_phase (state p') \<le> state_phase (state p) \<and>
     (pointer p \<le> pointer p' \<or>
      pointer p = Suc (pointer p') \<and> state_rank (state p') < state_rank (state p))"

definition progress :: "parser \<Rightarrow> outcome result \<Rightarrow> bool" where
  "progress p r =
     (case r of
        Inr (Continue p') \<Rightarrow> continues_lower p p'
      | Inr (Break p') \<Rightarrow> breaks_forward p p'
      | _ \<Rightarrow> True)"

lemma progress_simps [simp]:
  "progress p (Inl e)" "progress p (Inr (Return p'))" "progress p (Inr (Return_failure p'))"
  "progress p (Inr (Continue p')) = continues_lower p p'" "progress p (Inr (Break p')) = breaks_forward p p'"
  by (simp_all add: progress_def)

lemma progress_bind: "(\<And>a. r = Inr a \<Longrightarrow> progress p (f a)) \<Longrightarrow> progress p (bind_result r f)"
  by (cases r) auto

lemma progress_if: "(b \<Longrightarrow> progress p r) \<Longrightarrow> (\<not> b \<Longrightarrow> progress p s) \<Longrightarrow> progress p (if b then r else s)"
  by simp

lemma progress_with_host: "(\<And>h. progress p (k h)) \<Longrightarrow> progress p (with_host x s q k)"
  by (auto simp: with_host_def split: sum.splits error.splits)

lemma on_url_simps [simp]:
  "parsed_url (on_url f p) = f (parsed_url p)" "state (on_url f p) = state p" "pointer (on_url f p) = pointer p"
  "buffer (on_url f p) = buffer p" "at_sign_seen (on_url f p) = at_sign_seen p"
  "inside_brackets (on_url f p) = inside_brackets p" "password_token_seen (on_url f p) = password_token_seen p"
  "username_builder (on_url f p) = username_builder p" "password_builder (on_url f p) = password_builder p"
  "query_encoder (on_url f p) = query_encoder p"
  by (simp_all add: on_url_def)

lemma increment_iterator_pointer:
  assumes "increment_iterator ctx p = Inr p'"
  shows "state p' = state p \<and> pointer p < pointer p' \<and> pointer p' \<le> length (input ctx)"
proof -
  obtain b rest where d: "drop (pointer p) (input ctx) = b # rest"
    and p': "p' = p\<lparr>pointer := pointer p + utf8_advance b rest\<rparr>"
    using assms by (auto simp: increment_iterator_def split: list.splits)
  have "length (b # rest) = length (input ctx) - pointer p" using arg_cong [OF d, of length] by simp
  then have "pointer p + Suc (length rest) = length (input ctx)" by simp
  with p' utf8_advance_pos [of b rest] utf8_advance_le [of b rest] show ?thesis by simp
qed

lemma append_credentials_pointer:
  assumes "append_credentials x authority p = Inr p'"
  shows "state p' = state p \<and> pointer p' = pointer p"
  using assms by (auto simp: append_credentials_def Let_def split: if_splits option.splits)

lemmas progress_intros = progress_bind progress_if progress_with_host

lemmas rank_simps = continues_lower_def breaks_forward_def state_phase_def state_rank_def

lemma scheme_start_progress: "state p = State_SchemeStart \<Longrightarrow> progress p (scheme_start_state ctx c p)"
  by (auto simp: scheme_start_state_def rank_simps Let_def intro!: progress_intros)

lemma scheme_progress: "state p = State_Scheme \<Longrightarrow> progress p (scheme_state ctx c p)"
  by (auto simp: scheme_state_def after_scheme_def rank_simps Let_def intro!: progress_intros dest!: increment_iterator_pointer)

lemma no_scheme_progress: "state p = State_NoScheme \<Longrightarrow> progress p (no_scheme_state ctx c p)"
  by (auto simp: no_scheme_state_def rank_simps Let_def intro!: progress_intros split: option.splits)

lemma special_relative_or_authority_progress: "state p = State_SpecialRelativeOrAuthority \<Longrightarrow> progress p (special_relative_or_authority_state ctx c p)"
  by (auto simp: special_relative_or_authority_state_def rank_simps Let_def intro!: progress_intros dest!: increment_iterator_pointer)

lemma path_or_authority_progress: "state p = State_PathOrAuthority \<Longrightarrow> progress p (path_or_authority_state c p)"
  by (auto simp: path_or_authority_state_def rank_simps Let_def intro!: progress_intros)

lemma relative_progress: "state p = State_Relative \<Longrightarrow> progress p (relative_state ctx c p)"
  by (auto simp: relative_state_def rank_simps Let_def intro!: progress_intros split: option.splits)

lemma relative_slash_progress: "state p = State_RelativeSlash \<Longrightarrow> progress p (relative_slash_state ctx c p)"
  by (auto simp: relative_slash_state_def rank_simps Let_def intro!: progress_intros split: option.splits)

lemma special_authority_slashes_progress: "state p = State_SpecialAuthoritySlashes \<Longrightarrow> progress p (special_authority_slashes_state ctx c p)"
  by (auto simp: special_authority_slashes_state_def rank_simps Let_def intro!: progress_intros dest!: increment_iterator_pointer)

lemma special_authority_ignore_slashes_progress: "state p = State_SpecialAuthorityIgnoreSlashes \<Longrightarrow> progress p (special_authority_ignore_slashes_state c p)"
  by (auto simp: special_authority_ignore_slashes_state_def rank_simps Let_def intro!: progress_intros)

lemma authority_progress: "state p = State_Authority \<Longrightarrow> progress p (authority_state x ctx c p)"
  by (auto simp: authority_state_def rank_simps Let_def intro!: progress_intros dest!: append_credentials_pointer)

lemma host_progress: "state p = State_Host \<or> state p = State_Hostname \<Longrightarrow> progress p (host_state x ctx c p)"
  by (auto simp: host_state_def rank_simps Let_def intro!: progress_intros)

lemma port_progress: "state p = State_Port \<Longrightarrow> progress p (port_state x ctx c p)"
  by (auto simp: port_state_def rank_simps Let_def intro!: progress_intros split: option.splits)

lemma file_progress: "state p = State_File \<Longrightarrow> progress p (file_state ctx c p)"
  by (auto simp: file_state_def rank_simps Let_def intro!: progress_intros split: option.splits)

lemma file_slash_progress: "state p = State_FileSlash \<Longrightarrow> progress p (file_slash_state ctx c p)"
  by (auto simp: file_slash_state_def rank_simps Let_def intro!: progress_intros)

lemma file_host_progress: "state p = State_FileHost \<Longrightarrow> progress p (file_host_state x ctx c p)"
  by (auto simp: file_host_state_def rank_simps Let_def intro!: progress_intros)

lemma path_start_progress: "state p = State_PathStart \<Longrightarrow> progress p (path_start_state ctx c p)"
  by (auto simp: path_start_state_def rank_simps Let_def intro!: progress_intros)

lemma path_progress: "state p = State_Path \<Longrightarrow> progress p (path_state ctx c p)"
  by (auto simp: path_state_def rank_simps Let_def intro!: progress_intros)

lemma opaque_path_progress: "state p = State_OpaquePath \<Longrightarrow> progress p (opaque_path_state ctx c p)"
  by (auto simp: opaque_path_state_def rank_simps Let_def intro!: progress_intros)

lemma query_progress: "state p = State_Query \<Longrightarrow> progress p (query_state x ctx c p)"
  by (auto simp: query_state_def rank_simps Let_def intro!: progress_intros)

lemma fragment_progress: "state p = State_Fragment \<Longrightarrow> progress p (fragment_state x c p)"
  by (auto simp: fragment_state_def rank_simps Let_def intro!: progress_intros)

lemmas state_progress =
  scheme_start_progress scheme_progress no_scheme_progress special_relative_or_authority_progress
  path_or_authority_progress relative_progress relative_slash_progress
  special_authority_slashes_progress special_authority_ignore_slashes_progress authority_progress
  host_progress port_progress file_progress file_slash_progress file_host_progress path_start_progress
  path_progress opaque_path_progress query_progress fragment_progress

lemma run_state_progress: "progress p (run_state x ctx c p)"
  by (cases "state p") (simp_all add: run_state_def state_progress)

definition parser_measure :: "parse_context \<Rightarrow> parser \<Rightarrow> nat \<times> nat \<times> nat" where
  "parser_measure ctx p =
     (state_phase (state p), length (input ctx) - pointer p, state_rank (state p))"

lemma continue_decreases:
  assumes "run_state x ctx c p = Inr (Continue p')"
  shows "(parser_measure ctx p', parser_measure ctx p) \<in> less_than <*lex*> less_than <*lex*> less_than"
proof -
  have "continues_lower p p'" using run_state_progress [of p x ctx c] assms by simp
  then show ?thesis by (auto simp: continues_lower_def parser_measure_def)
qed

lemma break_decreases:
  assumes "run_state x ctx c p = Inr (Break p')" and "increment_iterator ctx p' = Inr q"
  shows "(parser_measure ctx q, parser_measure ctx p) \<in> less_than <*lex*> less_than <*lex*> less_than"
proof -
  have "breaks_forward p p'" using run_state_progress [of p x ctx c] assms by simp
  with increment_iterator_pointer [OF assms(2)] show ?thesis
    by (auto simp: breaks_forward_def parser_measure_def)
qed

text \<open>The loop gives whether a URL is returned, and the URL as the loop has left it.\<close>

function parse_loop :: "ext \<Rightarrow> parse_context \<Rightarrow> parser \<Rightarrow> (bool \<times> url) result" where
  "parse_loop x ctx p =
     (case run_state x ctx (current_code_point ctx p) p of
        Inl e \<Rightarrow> Inl e
      | Inr (Return p') \<Rightarrow> Inr (True, parsed_url p')
      | Inr (Return_failure p') \<Rightarrow> Inr (False, parsed_url p')
      | Inr (Continue p') \<Rightarrow> parse_loop x ctx p'
      | Inr (Break p') \<Rightarrow>
          if iterator_done ctx p' then Inr (True, parsed_url p')
          else bind_result (increment_iterator ctx p') (parse_loop x ctx))"
  by pat_completeness auto
termination
  by (relation "inv_image (less_than <*lex*> less_than <*lex*> less_than) (\<lambda>(x, ctx, p). parser_measure ctx p)")
    (auto dest: continue_decreases break_decreases)

declare parse_loop.simps [simp del]

definition initial_parser :: "url \<Rightarrow> state \<Rightarrow> encoder \<Rightarrow> parser" where
  "initial_parser u s e =
     \<lparr>parsed_url = u, state = s, pointer = 0, buffer = [], at_sign_seen = False, inside_brackets = False,
      password_token_seen = False, username_builder = [], password_builder = [], query_encoder = e\<rparr>"

text \<open>
  \<^verbatim>\<open>basic_parse\<close>.  The encoding argument is the encoder that \<^verbatim>\<open>encoder_for\<close> finds for its output encoding,
  \<open>None\<close> when none is given or none is found.
\<close>

definition basic_parse ::
    "ext \<Rightarrow> string \<Rightarrow> url option \<Rightarrow> url option \<Rightarrow> state option \<Rightarrow> encoder option \<Rightarrow> (bool \<times> url) result" where
  "basic_parse x raw_input base url_argument override encoding =
     bind_result (if url_argument = None then trimmed_input raw_input
                  else substring_view raw_input 0 (length raw_input)) (\<lambda>raw_input.
     bind_result (process_input x raw_input) (\<lambda>processed_input.
       parse_loop x \<lparr>input = processed_input, base_url = base, state_override = override\<rparr>
         (initial_parser
           (case url_argument of None \<Rightarrow> empty_url | Some u \<Rightarrow> u)
           (case override of None \<Rightarrow> State_SchemeStart | Some s \<Rightarrow> s)
           (case encoding of None \<Rightarrow> utf8_encoder | Some e \<Rightarrow> e))))"

text \<open>The parser called for a new URL, as an \<^verbatim>\<open>Optional\<close>.\<close>

definition parse_url :: "ext \<Rightarrow> string \<Rightarrow> url option \<Rightarrow> url result" where
  "parse_url x raw_input base =
     bind_result (basic_parse x raw_input base None None None) (\<lambda>(ok, u).
       if ok then Inr u else Inl Failure)"

definition complete_url :: "ext \<Rightarrow> url \<Rightarrow> string \<Rightarrow> url result" where
  "complete_url x u relative_url = parse_url x relative_url (Some u)"

end
