(* ===== verification/Url_Invariant.thy ===== *)
theory Url_Invariant
  imports Url_Parser
begin

text \<open>
  The invariant of URL records, \<open>url_ok\<close>: what the comments of \<^verbatim>\<open>URL.h\<close> say of the members of a URL, and how
  the members depend on each other.  It is what the parser establishes and what the serializers rely on.
\<close>

subsection \<open>Strings that need no percent-encoding\<close>

definition clean :: "percent_encode_set \<Rightarrow> string \<Rightarrow> bool" where
  "clean s t = list_all (\<lambda>b. \<not> code_point_is_in_percent_encode_set (cp b) s) t"

definition url_set :: "percent_encode_set \<Rightarrow> bool" where
  "url_set s = (s \<in> {C0Control, FragmentSet, QuerySet, SpecialQuery, PathSet, Userinfo})"

lemma clean_simps [simp]:
  "clean s []" "clean s (b # t) \<longleftrightarrow> \<not> code_point_is_in_percent_encode_set (cp b) s \<and> clean s t"
  "clean s (t @ t') \<longleftrightarrow> clean s t \<and> clean s t'"
  by (simp_all add: clean_def)

lemma clean_ascii: "clean s t \<Longrightarrow> ascii_string t"
  using not_in_set_ascii [of _ s] by (fastforce simp: clean_def ascii_string_def list_all_iff)

lemma percent_not_in_url_set: "url_set s \<Longrightarrow> \<not> code_point_is_in_percent_encode_set (cp CHR ''%'') s"
  by (auto simp: url_set_def contains_char_def char_of_eq_iff)

lemma clean_percent_encoded_char:
  assumes "url_set s"
  shows "clean s (percent_encoded_char s SpaceAsPlus_No c)"
  using percent_encoded_char_set [of _ s c] percent_not_in_url_set [OF assms]
  by (fastforce simp: clean_def list_all_iff)

lemma clean_percent_encoded: "url_set s \<Longrightarrow> clean s (percent_encoded s SpaceAsPlus_No cs)"
  by (induction cs) (simp_all add: clean_percent_encoded_char)

lemma clean_byte: "clean s [b] \<Longrightarrow> cp b \<le> 0x7E"
  using not_in_set_ascii [of "cp b" s] by simp

lemma encode_calls_byte:
  "code_point_is_in_percent_encode_set (cp b) s \<Longrightarrow> append_percent_bytes [cp b] = Inr (percent_byte b)"
  by (simp add: append_percent_bytes_eq del: append_percent_bytes.simps)

lemma clean_percent_byte:
  assumes "url_set s"
  shows "clean s (percent_byte b)"
proof -
  have "cp b div 16 < 16" "cp b mod 16 < 16" using cp_less_256 [of b] by (simp_all add: div_less_iff_less_mult)
  then show ?thesis
    using lookup_digit(4) hex_digit_not_in_set percent_not_in_url_set [OF assms] by (simp add: percent_byte_def)
qed

lemma clean_digits: "clean s (number_digits 10 False n)"
proof -
  have "is_ascii_hex_digit (cp d)" if "d \<in> set (number_digits 10 False n)" for d
    using that number_digits_digit_value [of 10 d False n] by (auto simp: digit_value_def ak_defs split: if_splits)
  then show ?thesis using hex_digit_not_in_set by (auto simp: clean_def list_all_iff)
qed

lemma encode_calls_clean:
  assumes "url_set s"
  shows "\<exists>out. encode_calls s False calls = Inr out \<and> clean s out"
proof (induction calls)
  case (Cons call calls)
  then obtain out where "encode_calls s False calls = Inr out" "clean s out" by blast
  moreover have "clean s ''%26%23''" "clean s ''%3B''"
    using percent_not_in_url_set [OF assms] by (simp_all add: hex_digit_not_in_set ak_defs)
  moreover have "append_code_point (cp b) = [b]" if "\<not> code_point_is_in_percent_encode_set (cp b) s" for b
    using not_in_set_ascii [OF that] by (simp add: append_code_point_ascii)
  ultimately show ?case
    using clean_percent_byte [OF assms] clean_digits
    by (cases call) (auto simp: encode_calls_byte simp del: append_percent_bytes.simps)
qed simp

context external_laws
begin

lemma percent_encode_after_encoding_clean:
  assumes "url_set s"
  shows "\<exists>out. percent_encode_after_encoding x enc t s False = Inr out \<and> clean s out"
  using encode_calls_clean [OF assms, of "enc t"]
  by (auto simp: percent_encode_after_encoding_def must_def string_from_utf8_ascii clean_ascii)

end

subsection \<open>The invariant\<close>

definition valid_scheme :: "string \<Rightarrow> bool" where
  "valid_scheme s =
     (case s of
        [] \<Rightarrow> False
      | c # cs \<Rightarrow> is_ascii_lower_alpha (cp c) \<and>
          list_all (\<lambda>c. is_ascii_lower_alpha (cp c) \<or> is_ascii_digit (cp c) \<or> c \<in> set ''+-.'') cs)"

text \<open>A path segment has been percent-encoded, holds no separator and is not a dot segment.\<close>

definition segment_text :: "bool \<Rightarrow> string \<Rightarrow> bool" where
  "segment_text special s =
     (clean PathSet s \<and> CHR ''/'' \<notin> set s \<and> (special \<longrightarrow> CHR 0x5C \<notin> set s))"

definition segment_ok :: "bool \<Rightarrow> string \<Rightarrow> bool" where
  "segment_ok special s =
     (segment_text special s \<and> \<not> is_single_dot_path_segment s \<and> \<not> is_double_dot_path_segment s)"

text \<open>The host is the empty string, or what the host parser returns.\<close>

definition url_host_ok :: "string \<Rightarrow> host \<Rightarrow> bool" where
  "url_host_ok s h =
     ((if is_empty_host h then s = ''file'' \<or> \<not> is_special_scheme s else host_ok (\<not> is_special_scheme s) h) \<and>
      (case h of Host_String t \<Rightarrow> clean C0Control t | _ \<Rightarrow> True))"

definition query_ok :: "url \<Rightarrow> bool" where
  "query_ok u = (case query u of None \<Rightarrow> True | Some q \<Rightarrow> clean (if is_special u then SpecialQuery else QuerySet) q)"

definition fragment_ok :: "url \<Rightarrow> bool" where
  "fragment_ok u = (case fragment u of None \<Rightarrow> True | Some f \<Rightarrow> clean FragmentSet f)"

definition port_ok :: "url \<Rightarrow> bool" where
  "port_ok u = (case port u of None \<Rightarrow> True | Some p \<Rightarrow> default_port_for_scheme (scheme u) \<noteq> Some p)"

text \<open>In a file URL a Windows drive letter at the start of the path is a normalized one.\<close>

definition drive_ok :: "url \<Rightarrow> bool" where
  "drive_ok u =
     (case paths u of
        [] \<Rightarrow> True
      | s # _ \<Rightarrow> scheme u = ''file'' \<and> is_windows_drive_letter s \<longrightarrow> is_normalized_windows_drive_letter s)"

definition credentials_ok :: "url \<Rightarrow> bool" where
  "credentials_ok u =
     (clean Userinfo (username u) \<and> clean Userinfo (password u) \<and> port_ok u \<and>
      (cannot_have_a_username_or_password_or_port u \<longrightarrow> \<not> includes_credentials u \<and> port u = None))"

text \<open>The local host of a file URL is the empty string.\<close>

definition authority_ok :: "url \<Rightarrow> bool" where
  "authority_ok u =
     (credentials_ok u \<and> (is_special u \<longrightarrow> host u \<noteq> None) \<and>
      (case host u of None \<Rightarrow> True | Some h \<Rightarrow> url_host_ok (scheme u) h \<and> (scheme u = ''file'' \<longrightarrow> h \<noteq> Host_String ''localhost'')))"

definition list_path_ok :: "url \<Rightarrow> bool" where
  "list_path_ok u =
     (\<not> has_an_opaque_path u \<and> list_all (segment_ok (is_special u)) (paths u) \<and> drive_ok u)"

definition opaque_path_text :: "string \<Rightarrow> bool" where
  "opaque_path_text s =
     (clean C0Control s \<and> CHR ''?'' \<notin> set s \<and> CHR ''#'' \<notin> set s \<and> \<not> starts_with_char s CHR ''/'')"

definition opaque_url_ok :: "url \<Rightarrow> bool" where
  "opaque_url_ok u =
     (\<not> is_special u \<and> username u = [] \<and> password u = [] \<and> host u = None \<and> port u = None \<and>
      (\<exists>s. paths u = [s] \<and> opaque_path_text s))"

definition url_ok :: "url \<Rightarrow> bool" where
  "url_ok u =
     (valid_scheme (scheme u) \<and> query_ok u \<and> fragment_ok u \<and>
      (if has_an_opaque_path u then opaque_url_ok u
       else authority_ok u \<and> list_path_ok u \<and> (is_special u \<or> host u = None \<longrightarrow> paths u \<noteq> [])))"

end
