(* ===== verification/Parser_Loop.thy ===== *)
theory Parser_Loop
  imports Url_Invariant
begin

text \<open>
  Reasoning about the loop of the URL parser: a locale that turns an invariant of one round into a statement
  about the whole run, and what the iterator does on well-formed UTF-8.
\<close>

subsection \<open>Invariants of the loop\<close>

definition step_ok :: "parse_context \<Rightarrow> (parser \<Rightarrow> bool) \<Rightarrow> (url \<Rightarrow> bool) \<Rightarrow> outcome result \<Rightarrow> bool" where
  "step_ok ctx I Q r =
     (case r of
        Inl _ \<Rightarrow> False
      | Inr (Continue p) \<Rightarrow> I p
      | Inr (Break p) \<Rightarrow>
          if iterator_done ctx p then Q (parsed_url p)
          else \<forall>q. increment_iterator ctx p = Inr q \<longrightarrow> I q
      | Inr (Return p) \<Rightarrow> Q (parsed_url p)
      | Inr (Return_failure p) \<Rightarrow> True)"

lemma step_ok_simps [simp]:
  "\<not> step_ok ctx I Q (Inl e)" "step_ok ctx I Q (Inr (Continue p)) = I p"
  "step_ok ctx I Q (Inr (Break p)) =
     (if iterator_done ctx p then Q (parsed_url p) else \<forall>q. increment_iterator ctx p = Inr q \<longrightarrow> I q)"
  "step_ok ctx I Q (Inr (Return p)) = Q (parsed_url p)" "step_ok ctx I Q (Inr (Return_failure p))"
  by (simp_all add: step_ok_def)

lemma wf_parser_measure: "wf (inv_image (less_than <*lex*> less_than <*lex*> less_than) (parser_measure ctx))"
  by auto

lemma increment_iterator_total:
  "\<not> iterator_done ctx p \<Longrightarrow> \<exists>n. increment_iterator ctx p = Inr (p\<lparr>pointer := n\<rparr>)"
  by (auto simp: iterator_done_def increment_iterator_def split: list.splits)

text \<open>
  An invariant of one round of the loop is an invariant of the parser: the loop ends, without an abort, and
  a URL that it returns has the property that the rounds establish.
\<close>

locale loop_invariant =
  fixes x :: ext and ctx :: parse_context and I :: "parser \<Rightarrow> bool" and Q :: "url \<Rightarrow> bool"
  assumes round: "I p \<Longrightarrow> step_ok ctx I Q (run_state x ctx (current_code_point ctx p) p)"
begin

lemma parse_loop_ok: "I p \<Longrightarrow> \<exists>ok u. parse_loop x ctx p = Inr (ok, u) \<and> (ok \<longrightarrow> Q u)"
proof (induction p rule: wf_induct_rule [OF wf_parser_measure [of ctx]])
  case (1 p)
  let ?r = "run_state x ctx (current_code_point ctx p) p"
  have step: "step_ok ctx I Q ?r" using 1(2) by (rule round)
  then obtain out where out: "?r = Inr out" by (cases ?r) auto
  show ?case
  proof (cases out)
    case (Break p')
    show ?thesis
    proof (cases "iterator_done ctx p'")
      case False
      then obtain n where n: "increment_iterator ctx p' = Inr (p'\<lparr>pointer := n\<rparr>)"
        using increment_iterator_total by blast
      with break_decreases [of x ctx _ p p'] have
        "(p'\<lparr>pointer := n\<rparr>, p) \<in> inv_image (less_than <*lex*> less_than <*lex*> less_than) (parser_measure ctx)"
        using out Break by simp
      from 1(1) [OF this] show ?thesis
        using step out Break False n by (simp add: parse_loop.simps [of x ctx p])
    qed (use step out Break in \<open>auto simp: parse_loop.simps [of x ctx p]\<close>)
  next
    case (Continue p')
    have "(p', p) \<in> inv_image (less_than <*lex*> less_than <*lex*> less_than) (parser_measure ctx)"
      using continue_decreases [of x ctx _ p p'] out Continue by simp
    from 1(1) [OF this] show ?thesis
      using step out Continue by (simp add: parse_loop.simps [of x ctx p])
  qed (use step out in \<open>auto simp: parse_loop.simps [of x ctx p]\<close>)
qed

end

subsection \<open>The iterator\<close>

text \<open>In well-formed UTF-8 an ASCII code point is an ASCII byte, at every offset.\<close>

definition no_overlong :: "string \<Rightarrow> bool" where
  "no_overlong s = (\<forall>i < length s. utf8_deref (s ! i) (drop (Suc i) s) < 0x80 \<longrightarrow> cp (s ! i) < 0x80)"

lemma continuation_byte_deref:
  assumes "drop_bit 6 (cp b) = 2"
  shows "utf8_deref b rest = 0xFFFD"
proof -
  have "cp b div 64 = 2" using assms by (simp add: drop_bit_eq_div)
  then have "0x80 \<le> cp b" "cp b < 0xC0" by linarith+
  then have "decode_leading_byte (cp b) = None"
    by (simp add: decode_leading_byte_eq)
  with \<open>0x80 \<le> cp b\<close> show ?thesis by (simp add: utf8_deref_def)
qed

lemma current_code_point_eof: "current_code_point ctx p = end_of_file \<longleftrightarrow> iterator_done ctx p"
proof (cases "drop (pointer p) (input ctx)")
  case (Cons b rest)
  then have "\<not> length (input ctx) \<le> pointer p" by auto
  with Cons utf8_deref_bound [of b rest] show ?thesis
    by (simp add: current_code_point_def iterator_done_def end_of_file_def)
qed (simp_all add: current_code_point_def iterator_done_def)

lemma current_code_point_unicode: "current_code_point ctx p \<noteq> end_of_file \<Longrightarrow> current_code_point ctx p \<le> 0x10FFFF"
  by (auto simp: current_code_point_def utf8_deref_bound split: list.splits)

lemma code_point_to_utf8_continuation:
  assumes "0 < i" and "i < length (code_point_to_utf8 c)"
  shows "drop_bit 6 (cp (code_point_to_utf8 c ! i)) = 2"
proof -
  have lt: "y mod 64 + 128 < (256::nat)" for y
    using mod_less_divisor [of 64 y] by linarith
  have "length (code_point_to_utf8 c) \<le> 4" by (simp add: code_point_to_utf8_def)
  with assms consider "i = 1" | "i = 2" | "i = 3" by linarith
  then show ?thesis
    using assms lt by cases (simp_all add: code_point_to_utf8_arith split: if_split_asm)
qed

lemma no_overlong_append:
  assumes "c \<le> 0x10ffff" and "no_overlong t"
  shows "no_overlong (code_point_to_utf8 c @ t)"
  unfolding no_overlong_def
proof (intro allI impI)
  fix i
  let ?e = "code_point_to_utf8 c"
  assume i: "i < length (?e @ t)" and deref: "utf8_deref ((?e @ t) ! i) (drop (Suc i) (?e @ t)) < 0x80"
  obtain b e where e: "?e = b # e" using code_point_to_utf8_nonempty [OF assms(1)] by (cases ?e) auto
  consider "i = 0" | "0 < i" "i < length ?e" | "length ?e \<le> i" by linarith
  then show "cp ((?e @ t) ! i) < 0x80"
  proof cases
    case 1
    have "utf8_deref b (e @ t) = c"
      using utf8_code_points_encoded [OF assms(1), of t] e by simp
    with 1 deref e have "c < 0x80" by simp
    with 1 show ?thesis by (simp add: code_point_to_utf8_arith)
  next
    case 2
    then have "utf8_deref ((?e @ t) ! i) (drop (Suc i) (?e @ t)) = 0xFFFD"
      by (simp add: nth_append continuation_byte_deref code_point_to_utf8_continuation)
    with deref show ?thesis by simp
  next
    case 3
    with i deref assms(2) show ?thesis
      by (simp add: no_overlong_def nth_append Suc_diff_le)
  qed
qed

lemma no_overlong_encode: "list_all is_unicode cs \<Longrightarrow> no_overlong (utf8_encode cs)"
proof (induction cs)
  case (Cons c cs)
  then show ?case
    using no_overlong_append [of c] by (simp add: append_code_point_unicode is_unicode_def)
qed (simp add: no_overlong_def)

lemma utf8_well_formed_no_overlong: "utf8_well_formed s \<Longrightarrow> no_overlong s"
  using no_overlong_encode [OF utf8_code_points_unicode, of s] by (simp add: utf8_well_formed_def)

lemma current_ascii:
  assumes "no_overlong (input ctx)" and "current_code_point ctx p < 0x80"
  shows "pointer p < length (input ctx)" and "cp (input ctx ! pointer p) = current_code_point ctx p"
    and "drop (pointer p) (input ctx) = input ctx ! pointer p # drop (Suc (pointer p)) (input ctx)"
proof -
  have "current_code_point ctx p \<noteq> end_of_file" using assms(2) by (auto simp: end_of_file_def)
  then show *: "pointer p < length (input ctx)" by (simp add: current_code_point_eof iterator_done_def)
  then show d: "drop (pointer p) (input ctx) = input ctx ! pointer p # drop (Suc (pointer p)) (input ctx)"
    by (simp add: Cons_nth_drop_Suc)
  have c: "current_code_point ctx p = utf8_deref (input ctx ! pointer p) (drop (Suc (pointer p)) (input ctx))"
    by (simp only: current_code_point_def d list.case)
  with assms * have "cp (input ctx ! pointer p) < 0x80" unfolding no_overlong_def by metis
  then show "cp (input ctx ! pointer p) = current_code_point ctx p" by (simp add: c utf8_deref_ascii)
qed

lemma increment_ascii:
  assumes "no_overlong (input ctx)" and "current_code_point ctx p < 0x80"
  shows "increment_iterator ctx p = Inr (p\<lparr>pointer := Suc (pointer p)\<rparr>)"
  using current_ascii [OF assms] assms(2) by (simp add: increment_iterator_def utf8_advance_def)

lemma get_remaining_ascii:
  assumes "no_overlong (input ctx)" and "current_code_point ctx p < 0x80"
  shows "get_remaining ctx p = Inr (drop (Suc (pointer p)) (input ctx))"
proof -
  have "underlying_code_point_length_in_bytes b rest = 1" if "cp b < 0x80" for b rest
    using that by (simp add: underlying_code_point_length_in_bytes_def decode_leading_byte_eq)
  then show ?thesis
    using current_ascii [OF assms] assms(2)
    by (simp add: get_remaining_def substring_view_from_def substring_view_def verify_def)
qed

end
