(* ===== verification/Parser_Authority.thy ===== *)
theory Parser_Authority
  imports Parser_Loop
begin

text \<open>
  The authority state of the URL parser looks ahead for the next delimiter, from an offset inside the current
  code point when that is not ASCII.  The lemmas of this theory show that it still finds every at sign and
  that the iterator is at an ASCII boundary when it moves on to the host.
\<close>

subsection \<open>Looking for the end of the authority\<close>

lemma find_any_of_loop_eq:
  "find_any_of_loop s d i =
     (let n = length (takeWhile (\<lambda>b. b \<notin> set d) s) in if n < length s then Some (i + n) else None)"
  by (induction s d i rule: find_any_of_loop.induct) (auto simp: contains_char_def Let_def)

lemma find_any_of_Some:
  "find_any_of s d = Some n \<longleftrightarrow> n < length s \<and> s ! n \<in> set d \<and> (\<forall>j < n. s ! j \<notin> set d)"
proof
  assume "find_any_of s d = Some n"
  then have n: "n = length (takeWhile (\<lambda>b. b \<notin> set d) s)" "n < length s"
    by (auto simp: find_any_of_def find_any_of_loop_eq Let_def split: if_splits)
  then have "s ! n \<in> set d" using nth_length_takeWhile [of "\<lambda>b. b \<notin> set d" s] by simp
  moreover have "s ! j \<notin> set d" if "j < n" for j
    using that n(1) takeWhile_nth [of j "\<lambda>b. b \<notin> set d" s] set_takeWhileD nth_mem by metis
  ultimately show "n < length s \<and> s ! n \<in> set d \<and> (\<forall>j < n. s ! j \<notin> set d)" using n by blast
next
  assume *: "n < length s \<and> s ! n \<in> set d \<and> (\<forall>j < n. s ! j \<notin> set d)"
  then have "takeWhile (\<lambda>b. b \<notin> set d) s = take n s"
    by (intro takeWhile_eq_take_P_nth) auto
  with * have "length (takeWhile (\<lambda>b. b \<notin> set d) s) = n" by simp
  with * show "find_any_of s d = Some n" by (auto simp: find_any_of_def find_any_of_loop_eq)
qed

text \<open>
  The bytes of a code point after the first one are continuation bytes, so the code point that starts before
  an ASCII byte ends before it.
\<close>

lemma underlying_continuation:
  assumes "0 < i" and "i < underlying_code_point_length_in_bytes b rest"
  shows "drop_bit 6 (cp ((b # rest) ! i)) = 2"
  using assms
  by (auto simp: underlying_code_point_length_in_bytes_def list_all_length split: option.splits if_splits)

lemma underlying_before_ascii:
  assumes "n < m" "m < length s" "cp (s ! m) < 0x80" "drop n s = b # rest"
  shows "n + underlying_code_point_length_in_bytes b rest \<le> m"
proof (rule ccontr)
  assume "\<not> ?thesis"
  then have "drop_bit 6 (cp ((b # rest) ! (m - n))) = 2"
    using assms(1) by (intro underlying_continuation) auto
  moreover have "(b # rest) ! (m - n) = s ! m"
    unfolding assms(4) [symmetric] using assms(1,2) by simp
  ultimately have "2 = cp (s ! m) div 64" by (simp add: drop_bit_eq_div)
  with assms(3) show False by linarith
qed

lemma advance_eq_underlying: "utf8_advance b rest = underlying_code_point_length_in_bytes b rest"
  using underlying_length_le [of b rest] decode_leading_byte_eq [of "cp b"]
  by (auto simp: utf8_advance_def Let_def underlying_code_point_length_in_bytes_def)

lemma decode_extension_bytes_None:
  "\<not> list_all (\<lambda>e. drop_bit 6 (cp e) = 2) es \<Longrightarrow> decode_extension_bytes v es = None"
  by (induction v es rule: decode_extension_bytes.induct) auto

lemma underlying_one_deref:
  assumes "underlying_code_point_length_in_bytes b rest = 1"
  shows "utf8_deref b rest < 0x10000"
proof (cases "cp b < 0x80")
  case False
  then have b: "\<not> cp b \<le> 0x7F" by simp
  show ?thesis
  proof (cases "decode_leading_byte (cp b)")
    case None
    with b show ?thesis by (simp add: utf8_deref_def)
  next
    case (Some nv)
    then obtain n v where nv: "decode_leading_byte (cp b) = Some (n, v)" by (metis surj_pair)
    have "n \<noteq> 1" using nv False decode_leading_byte_eq [of "cp b"] by (simp split: if_splits)
    then consider "n > Suc (length rest)" | "\<not> list_all (\<lambda>e. drop_bit 6 (cp e) = 2) (take (n - 1) rest)"
      using assms unfolding underlying_code_point_length_in_bytes_def nv option.case prod.case by metis
    then show ?thesis
    proof cases
      case 1
      with b nv show ?thesis by (simp add: utf8_deref_def)
    next
      case 2
      with b nv decode_extension_bytes_None [OF 2, of v] show ?thesis by (simp add: utf8_deref_def)
    qed
  qed
qed (simp add: utf8_deref_ascii)

lemma units_le_underlying:
  "code_unit_length_for_code_point (utf8_deref b rest) \<le> underlying_code_point_length_in_bytes b rest"
proof (cases "underlying_code_point_length_in_bytes b rest = 1")
  case True
  with underlying_one_deref [OF True] show ?thesis by (simp add: code_unit_length_for_code_point_def)
next
  case False
  with underlying_length_pos [of b rest] show ?thesis by (simp add: code_unit_length_for_code_point_def)
qed

text \<open>
  In the authority state, either the byte before the iterator is ASCII or the authority that starts at the
  iterator ends in an at sign.
\<close>

definition authority_delimiter :: "parser \<Rightarrow> string" where
  "authority_delimiter p = (if is_special (parsed_url p) then ''@/?#'' @ [CHR 0x5C] else ''@/?#'')"

definition prev_ascii :: "parse_context \<Rightarrow> parser \<Rightarrow> bool" where
  "prev_ascii ctx p =
     (0 < pointer p \<and> pointer p \<le> length (input ctx) \<and> cp (input ctx ! (pointer p - 1)) < 0x80)"

definition authority_start :: "parse_context \<Rightarrow> parser \<Rightarrow> nat" where
  "authority_start ctx p =
     (case drop (pointer p) (input ctx) of
        [] \<Rightarrow> pointer p
      | b # rest \<Rightarrow> pointer p + underlying_code_point_length_in_bytes b rest -
          code_unit_length_for_code_point (utf8_deref b rest))"

definition at_sign_at :: "parse_context \<Rightarrow> parser \<Rightarrow> nat \<Rightarrow> bool" where
  "at_sign_at ctx p k =
     (authority_start ctx p \<le> k \<and> k < length (input ctx) \<and> input ctx ! k = CHR ''@'' \<and>
      (\<forall>j. authority_start ctx p \<le> j \<and> j < k \<longrightarrow> input ctx ! j \<notin> set (authority_delimiter p)))"

lemma delimiter_ascii: "b \<in> set (authority_delimiter p) \<Longrightarrow> cp b < 0x80"
  by (auto simp: authority_delimiter_def split: if_splits)

lemma drop_eq_Cons:
  assumes "drop n s = b # rest"
  shows "length s = n + Suc (length rest)"
proof -
  have "length (drop n s) = Suc (length rest)" using assms by simp
  then show ?thesis unfolding length_drop by linarith
qed

lemma substring_view_from_drop: "n \<le> length s \<Longrightarrow> substring_view_from s n = Inr (drop n s)"
  by (simp add: substring_view_from_def substring_view_def verify_def)

lemma authority_start_bounds:
  assumes "pointer p < length (input ctx)"
  shows "pointer p \<le> authority_start ctx p" and "authority_start ctx p \<le> length (input ctx)"
proof -
  obtain b rest where d: "drop (pointer p) (input ctx) = b # rest"
    using assms by (metis Cons_nth_drop_Suc)
  then have "authority_start ctx p = pointer p + underlying_code_point_length_in_bytes b rest -
      code_unit_length_for_code_point (utf8_deref b rest)"
    by (simp only: authority_start_def list.case)
  moreover have "1 \<le> code_unit_length_for_code_point (utf8_deref b rest)"
    by (simp add: code_unit_length_for_code_point_def)
  moreover note units_le_underlying [of b rest] underlying_length_le [of b rest] drop_eq_Cons [OF d]
  ultimately show "pointer p \<le> authority_start ctx p" "authority_start ctx p \<le> length (input ctx)"
    by linarith+
qed

lemma get_remaining_including:
  assumes "pointer p < length (input ctx)"
  shows "get_remaining_including_code_point ctx (current_code_point ctx p) p =
    Inr (drop (authority_start ctx p) (input ctx))"
proof -
  obtain b rest where d: "drop (pointer p) (input ctx) = b # rest"
    using assms by (metis Cons_nth_drop_Suc)
  then have c: "current_code_point ctx p = utf8_deref b rest"
    and start: "authority_start ctx p = pointer p + underlying_code_point_length_in_bytes b rest -
      code_unit_length_for_code_point (utf8_deref b rest)"
    by (simp_all only: current_code_point_def authority_start_def list.case)
  have "current_code_point ctx p \<noteq> end_of_file"
    using assms by (simp add: current_code_point_eof iterator_done_def)
  then have "get_remaining_including_code_point ctx (current_code_point ctx p) p =
      substring_view_from (input ctx) (authority_start ctx p)"
    by (simp only: get_remaining_including_code_point_def d list.case c start if_False)
  with authority_start_bounds [OF assms] show ?thesis by (simp only: substring_view_from_drop)
qed

lemma increment_iterator_drop:
  assumes "drop (pointer p) (input ctx) = b # rest"
  shows "increment_iterator ctx p = Inr (p\<lparr>pointer := pointer p + underlying_code_point_length_in_bytes b rest\<rparr>)"
  by (simp only: increment_iterator_def assms list.case advance_eq_underlying)

lemma authority_start_drop:
  assumes "drop (pointer p) (input ctx) = b # rest"
  shows "authority_start ctx p \<le> pointer p + underlying_code_point_length_in_bytes b rest - 1"
proof -
  have "authority_start ctx p = pointer p + underlying_code_point_length_in_bytes b rest -
      code_unit_length_for_code_point (utf8_deref b rest)"
    by (simp only: authority_start_def assms list.case)
  moreover have "1 \<le> code_unit_length_for_code_point (utf8_deref b rest)"
    by (simp add: code_unit_length_for_code_point_def)
  ultimately show ?thesis by linarith
qed

lemma no_delimiter_in_code_point:
  assumes "at_sign_at ctx p k" and "pointer p < j" and "j < k"
  shows "input ctx ! j \<notin> set (authority_delimiter p)"
proof (cases "authority_start ctx p \<le> j")
  case False
  obtain b rest where d: "drop (pointer p) (input ctx) = b # rest"
    using assms by (metis Cons_nth_drop_Suc at_sign_at_def order.strict_trans)
  have "drop_bit 6 (cp ((b # rest) ! (j - pointer p))) = 2"
    using False assms(2) authority_start_drop [OF d] by (intro underlying_continuation) auto
  moreover have "(b # rest) ! (j - pointer p) = input ctx ! j"
    unfolding d [symmetric] using assms by (simp add: at_sign_at_def)
  ultimately have "cp (input ctx ! j) div 64 = 2" by (simp add: drop_bit_eq_div)
  then show ?thesis using delimiter_ascii by fastforce
qed (use assms in \<open>simp add: at_sign_at_def\<close>)

lemma underlying_at_sign: "underlying_code_point_length_in_bytes CHR ''@'' rest = 1"
  by (simp add: underlying_code_point_length_in_bytes_def decode_leading_byte_eq)

lemma authority_start_le:
  assumes "pointer q \<le> k" "k < length (input ctx)" "input ctx ! k = CHR ''@''"
  shows "authority_start ctx q \<le> k"
proof -
  obtain b rest where d: "drop (pointer q) (input ctx) = b # rest"
    using assms by (metis Cons_nth_drop_Suc order.strict_trans1)
  show ?thesis
  proof (cases "pointer q = k")
    case True
    then have "b = CHR ''@''" using assms(2,3) d by (metis Cons_nth_drop_Suc list.inject)
    with authority_start_drop [OF d] True show ?thesis by (simp add: underlying_at_sign)
  next
    case False
    with assms have "pointer q + underlying_code_point_length_in_bytes b rest \<le> k"
      by (intro underlying_before_ascii [OF _ assms(2) _ d]) auto
    with authority_start_drop [OF d] show ?thesis by linarith
  qed
qed

lemma at_sign_step:
  assumes at: "at_sign_at ctx p k" and p: "pointer p < length (input ctx)"
    and p': "pointer p' = pointer p + (k - authority_start ctx p)" "parsed_url p' = parsed_url p"
    and q: "increment_iterator ctx p' = Inr q"
  shows "prev_ascii ctx q \<or> (pointer q < length (input ctx) \<and> (\<exists>k. at_sign_at ctx q k))"
proof -
  have k: "k < length (input ctx)" "cp (input ctx ! k) < 0x80" "authority_start ctx p \<le> k"
    using at by (auto simp: at_sign_at_def)
  have "pointer p' \<le> k" using p'(1) authority_start_bounds [OF p] k by linarith
  then obtain b rest where d: "drop (pointer p') (input ctx) = b # rest"
    using k by (metis Cons_nth_drop_Suc order.strict_trans1)
  have q': "q = p'\<lparr>pointer := pointer p' + underlying_code_point_length_in_bytes b rest\<rparr>"
    using q increment_iterator_drop [OF d] by simp
  show ?thesis
  proof (cases "authority_start ctx p = pointer p")
    case True
    then have "pointer p' = k" using p'(1) k by simp
    then have b: "b = CHR ''@''" using d at by (metis Cons_nth_drop_Suc at_sign_at_def list.inject)
    then have "pointer q = Suc k"
      using q' \<open>pointer p' = k\<close>
      by (simp add: underlying_at_sign)
    then show ?thesis using k by (simp add: prev_ascii_def)
  next
    case False
    then have "pointer p' < k" using p'(1) authority_start_bounds [OF p] k by linarith
    then have qk: "pointer q \<le> k" "pointer p < pointer q"
      using underlying_before_ascii [OF _ k(1,2) d] underlying_length_pos [of b rest] p' q' by auto
    have "authority_delimiter q = authority_delimiter p" using q' p'(2) by (simp add: authority_delimiter_def)
    moreover have "pointer p < authority_start ctx q"
      using qk authority_start_bounds [of q ctx] k by linarith
    ultimately have "at_sign_at ctx q k"
      using authority_start_le [OF qk(1)] no_delimiter_in_code_point [OF at] at by (auto simp: at_sign_at_def)
    with qk k show ?thesis by auto
  qed
qed

end
