(* ===== verification/Parser_Rounds.thy ===== *)
theory Parser_Rounds
  imports Parser_Authority
begin

text \<open>
  The invariant of the URL parser, for each state, and that the rounds in the states before the host keep it:
  schemes, relative URLs, slashes and the authority.
\<close>

subsection \<open>The invariant of the loop\<close>

text \<open>A URL of which only the scheme has been set, and the parts of the invariant that the states keep.\<close>

definition fresh :: "url \<Rightarrow> bool" where
  "fresh u =
     (username u = [] \<and> password u = [] \<and> host u = None \<and> port u = None \<and> paths u = [] \<and> query u = None \<and>
      fragment u = None \<and> \<not> has_an_opaque_path u)"

definition builders_ok :: "parser \<Rightarrow> bool" where
  "builders_ok p =
     (clean Userinfo (username_builder p) \<and> clean Userinfo (password_builder p) \<and>
      (\<not> at_sign_seen p \<longrightarrow> username_builder p = [] \<and> password_builder p = []))"

definition host_end :: "parser \<Rightarrow> code_point \<Rightarrow> bool" where
  "host_end p c =
     (c = end_of_file \<or> c = cp CHR ''/'' \<or> c = cp CHR ''?'' \<or> c = cp CHR ''#'' \<or>
      (is_special (parsed_url p) \<and> c = cp CHR 0x5C))"

definition path_url_ok :: "url \<Rightarrow> bool" where
  "path_url_ok u =
     (valid_scheme (scheme u) \<and> authority_ok u \<and> list_path_ok u \<and> query u = None \<and> fragment u = None)"

definition scheme_url :: "url \<Rightarrow> bool" where
  "scheme_url u = (fresh u \<and> valid_scheme (scheme u) \<and> scheme u \<noteq> ''file'')"

definition relative_base :: "parse_context \<Rightarrow> bool" where
  "relative_base ctx =
     (case base_url ctx of None \<Rightarrow> False | Some b \<Rightarrow> scheme b \<noteq> ''file'' \<and> \<not> has_an_opaque_path b)"

definition file_url :: "url \<Rightarrow> bool" where
  "file_url u = (fresh (u\<lparr>host := None\<rparr>) \<and> scheme u = ''file'' \<and> host u = Some (Host_String []))"

definition host_nonempty :: "url \<Rightarrow> bool" where
  "host_nonempty u = (case host u of None \<Rightarrow> False | Some h \<Rightarrow> \<not> is_empty_host h)"

definition opaque_start :: "url \<Rightarrow> bool" where
  "opaque_start u =
     (fresh (u\<lparr>has_an_opaque_path := False, paths := []\<rparr>) \<and> valid_scheme (scheme u) \<and> \<not> is_special u \<and>
      has_an_opaque_path u \<and> paths u = [[]])"

definition state_ok :: "parse_context \<Rightarrow> parser \<Rightarrow> bool" where
  "state_ok ctx p =
     (let u = parsed_url p in
      case state p of
        State_SchemeStart \<Rightarrow> fresh u \<and> buffer p = []
      | State_Scheme \<Rightarrow> fresh u \<and> valid_scheme (buffer p)
      | State_NoScheme \<Rightarrow> fresh u \<and> buffer p = []
      | State_SpecialRelativeOrAuthority \<Rightarrow> scheme_url u \<and> is_special u \<and> buffer p = [] \<and>
          (case base_url ctx of None \<Rightarrow> False | Some b \<Rightarrow> scheme b = scheme u)
      | State_PathOrAuthority \<Rightarrow> scheme_url u \<and> \<not> is_special u \<and> buffer p = []
      | State_Relative \<Rightarrow> fresh u \<and> buffer p = [] \<and> relative_base ctx
      | State_RelativeSlash \<Rightarrow> scheme_url u \<and> buffer p = [] \<and> relative_base ctx \<and>
          (case base_url ctx of None \<Rightarrow> False | Some b \<Rightarrow> scheme b = scheme u)
      | State_SpecialAuthoritySlashes \<Rightarrow> scheme_url u \<and> is_special u \<and> buffer p = [] \<and> prev_ascii ctx p
      | State_SpecialAuthorityIgnoreSlashes \<Rightarrow> scheme_url u \<and> is_special u \<and> buffer p = [] \<and> prev_ascii ctx p
      | State_Authority \<Rightarrow> scheme_url u \<and> 0 < pointer p \<and>
          (prev_ascii ctx p \<or> (pointer p < length (input ctx) \<and> (\<exists>k. at_sign_at ctx p k)))
      | State_Host \<Rightarrow> scheme_url (u\<lparr>username := [], password := []\<rparr>) \<and>
          clean Userinfo (username u) \<and> clean Userinfo (password u) \<and>
          (includes_credentials u \<and> buffer p = [] \<longrightarrow> \<not> host_end p (current_code_point ctx p))
      | State_Hostname \<Rightarrow> False
      | State_Port \<Rightarrow> path_url_ok u \<and> paths u = [] \<and> scheme u \<noteq> ''file'' \<and> host u \<noteq> None \<and>
          (host_nonempty u \<or> buffer p = [] \<and> \<not> is_ascii_digit (current_code_point ctx p))
      | State_File \<Rightarrow> fresh u \<and> buffer p = []
      | State_FileSlash \<Rightarrow> file_url u \<and> buffer p = [] \<and> pointer p \<le> length (input ctx)
      | State_FileHost \<Rightarrow> file_url u
      | State_PathStart \<Rightarrow> path_url_ok u \<and> paths u = [] \<and> host u \<noteq> None \<and> buffer p = []
      | State_Path \<Rightarrow> path_url_ok u \<and> segment_text (is_special u) (buffer p)
      | State_OpaquePath \<Rightarrow> opaque_start u \<and> opaque_path_text (buffer p) \<and>
          (buffer p = [] \<longrightarrow> current_code_point ctx p \<noteq> cp CHR ''/'')
      | State_Query \<Rightarrow> url_ok u \<and> fragment u = None
      | State_Fragment \<Rightarrow> url_ok u)"

definition context_ok :: "parse_context \<Rightarrow> bool" where
  "context_ok ctx =
     (no_overlong (input ctx) \<and> state_override ctx = None \<and>
      (case base_url ctx of None \<Rightarrow> True | Some b \<Rightarrow> url_ok b))"

definition parser_ok :: "parse_context \<Rightarrow> parser \<Rightarrow> bool" where
  "parser_ok ctx p = (builders_ok p \<and> state_ok ctx p)"

abbreviation round_ok :: "parse_context \<Rightarrow> outcome result \<Rightarrow> bool" where
  "round_ok ctx \<equiv> step_ok ctx (parser_ok ctx) url_ok"


subsection \<open>Rounds that only move the iterator\<close>

lemma pointer_only [simp]:
  "current_code_point ctx (p\<lparr>state := s\<rparr>) = current_code_point ctx p"
  "current_code_point ctx (p\<lparr>buffer := t\<rparr>) = current_code_point ctx p"
  "current_code_point ctx (p\<lparr>parsed_url := u\<rparr>) = current_code_point ctx p"
  "current_code_point ctx (on_url f p) = current_code_point ctx p"
  "current_code_point ctx (p\<lparr>inside_brackets := i\<rparr>) = current_code_point ctx p"
  "current_code_point ctx (p\<lparr>query_encoder := e\<rparr>) = current_code_point ctx p"
  "iterator_done ctx (p\<lparr>state := s\<rparr>) = iterator_done ctx p"
  "iterator_done ctx (p\<lparr>buffer := t\<rparr>) = iterator_done ctx p"
  "iterator_done ctx (p\<lparr>parsed_url := u\<rparr>) = iterator_done ctx p"
  "iterator_done ctx (on_url f p) = iterator_done ctx p"
  "iterator_done ctx (p\<lparr>inside_brackets := i\<rparr>) = iterator_done ctx p"
  "iterator_done ctx (p\<lparr>query_encoder := e\<rparr>) = iterator_done ctx p"
  "prev_ascii ctx (p\<lparr>state := s\<rparr>) = prev_ascii ctx p"
  "prev_ascii ctx (on_url f p) = prev_ascii ctx p"
  by (simp_all add: current_code_point_def iterator_done_def prev_ascii_def)

lemma round_break:
  assumes "\<not> iterator_done ctx p" and "\<And>n. parser_ok ctx (p\<lparr>pointer := n\<rparr>)"
  shows "round_ok ctx (Inr (Break p))"
  using assms increment_iterator_total [of ctx p] by auto

lemma round_break_ascii:
  assumes "context_ok ctx" and "current_code_point ctx p < 0x80"
    and "prev_ascii ctx (p\<lparr>pointer := Suc (pointer p)\<rparr>) \<Longrightarrow> parser_ok ctx (p\<lparr>pointer := Suc (pointer p)\<rparr>)"
  shows "round_ok ctx (Inr (Break p))"
proof -
  have *: "no_overlong (input ctx)" using assms(1) by (simp add: context_ok_def)
  from current_ascii [OF * assms(2)] assms(2) have "prev_ascii ctx (p\<lparr>pointer := Suc (pointer p)\<rparr>)"
    by (simp add: prev_ascii_def)
  with assms(3) increment_ascii [OF * assms(2)] current_ascii(1) [OF * assms(2)] show ?thesis
    by (simp add: iterator_done_def)
qed

lemma round_break_done:
  "iterator_done ctx p \<Longrightarrow> url_ok (parsed_url p) \<Longrightarrow> round_ok ctx (Inr (Break p))"
  by simp

lemma parser_okI:
  assumes "state_ok ctx p" and "builders_ok p"
  shows "parser_ok ctx p"
  using assms by (simp add: parser_ok_def)

lemma builders_ok_update [simp]:
  "builders_ok (p\<lparr>state := s\<rparr>) = builders_ok p" "builders_ok (p\<lparr>pointer := n\<rparr>) = builders_ok p"
  "builders_ok (p\<lparr>buffer := t\<rparr>) = builders_ok p" "builders_ok (on_url f p) = builders_ok p"
  "builders_ok (p\<lparr>parsed_url := u\<rparr>) = builders_ok p" "builders_ok (p\<lparr>inside_brackets := b\<rparr>) = builders_ok p"
  "builders_ok (p\<lparr>query_encoder := e\<rparr>) = builders_ok p"
  by (simp_all add: builders_ok_def)

lemma parser_ok_state: "parser_ok ctx p \<Longrightarrow> builders_ok p \<and> state_ok ctx p"
  by (simp add: parser_ok_def)

lemmas state_simps = state_ok_def Let_def

subsection \<open>Schemes\<close>

lemma append_as_lowercase_scheme:
  assumes "is_ascii_alphanumeric c \<or> c = cp CHR ''+'' \<or> c = cp CHR ''-'' \<or> c = cp CHR ''.''"
  shows "\<exists>b. append_as_lowercase c = [b] \<and>
    (is_ascii_lower_alpha (cp b) \<or> is_ascii_digit (cp b) \<or> b \<in> set ''+-.'') \<and>
    (is_ascii_alpha c \<longrightarrow> is_ascii_lower_alpha (cp b))"
  using assms
  by (intro exI [of _ "hd (append_as_lowercase c)"]) (auto simp: append_as_lowercase_def ak_defs char_of_eq_iff)

lemma valid_scheme_append:
  "valid_scheme s \<Longrightarrow> is_ascii_lower_alpha (cp b) \<or> is_ascii_digit (cp b) \<or> b \<in> set ''+-.'' \<Longrightarrow> valid_scheme (s @ [b])"
  by (cases s) (auto simp: valid_scheme_def)

lemma scheme_start_round:
  assumes "context_ok ctx" "parser_ok ctx p" "state p = State_SchemeStart"
  shows "round_ok ctx (scheme_start_state ctx (current_code_point ctx p) p)"
proof (cases "is_ascii_alpha (current_code_point ctx p)")
  case True
  then have lt: "current_code_point ctx p < 0x80" by (auto simp: ak_defs)
  from True append_as_lowercase_scheme [of "current_code_point ctx p"] obtain b
    where "append_as_lowercase (current_code_point ctx p) = [b]" "is_ascii_lower_alpha (cp b)"
    by (auto simp: ak_defs)
  then show ?thesis
    using True assms lt parser_ok_state [OF assms(2)]
    by (auto simp: scheme_start_state_def state_simps valid_scheme_def simp del: step_ok_simps
        intro!: round_break_ascii parser_okI)
next
  case False
  with assms parser_ok_state [OF assms(2)] show ?thesis
    by (auto simp: scheme_start_state_def context_ok_def state_simps intro!: parser_okI)
qed

lemma fresh_scheme [simp]: "fresh (u\<lparr>scheme := s\<rparr>) = fresh u"
  by (simp add: fresh_def)

lemma current_byte:
  assumes "drop (pointer p) (input ctx) = b # rest" and "cp b < 0x80"
  shows "current_code_point ctx p = cp b"
  using assms by (simp add: current_code_point_def utf8_deref_ascii)

lemma starts_with_slash: "starts_with s ''/'' CaseSensitive \<longleftrightarrow> (\<exists>t. s = CHR ''/'' # t)"
  by (cases s) (auto simp: starts_with_def)

lemma after_scheme_round:
  assumes ctx: "context_ok ctx" and ok: "builders_ok p" "scheme_url (parsed_url p) \<or> fresh (parsed_url p) \<and> scheme (parsed_url p) = ''file''"
    "buffer p = []" and c: "current_code_point ctx p = cp CHR '':''"
  shows "round_ok ctx (after_scheme ctx p)"
proof -
  have no: "no_overlong (input ctx)" using ctx by (simp add: context_ok_def)
  have lt: "current_code_point ctx p < 0x80" using c by simp
  let ?rest = "drop (Suc (pointer p)) (input ctx)"
  have rem: "get_remaining ctx p = Inr ?rest" using get_remaining_ascii [OF no lt] .
  have go: "round_ok ctx (Inr (Break (f p)))"
    if "current_code_point ctx (f p) < 0x80"
      "prev_ascii ctx ((f p)\<lparr>pointer := Suc (pointer (f p))\<rparr>) \<Longrightarrow> state_ok ctx ((f p)\<lparr>pointer := Suc (pointer (f p))\<rparr>)"
      "builders_ok (f p)" for f
    using that ctx by (intro round_break_ascii parser_okI) auto
  consider "scheme (parsed_url p) = ''file''"
    | "scheme_url (parsed_url p)" "is_special (parsed_url p)"
    | "scheme_url (parsed_url p)" "\<not> is_special (parsed_url p)" "starts_with ?rest ''/'' CaseSensitive"
    | "scheme_url (parsed_url p)" "\<not> is_special (parsed_url p)" "\<not> starts_with ?rest ''/'' CaseSensitive"
    using ok(2) by blast
  then show ?thesis
  proof cases
    case 1
    then show ?thesis
      using go [of "\<lambda>p. p\<lparr>state := State_File\<rparr>"] ok lt
      by (auto simp: after_scheme_def rem scheme_url_def state_simps simp del: step_ok_simps)
  next
    case 2
    then have nf: "scheme (parsed_url p) \<noteq> ''file''" by (simp add: scheme_url_def)
    show ?thesis
      using 2 nf go [of "\<lambda>p. p\<lparr>state := State_SpecialRelativeOrAuthority\<rparr>"]
        go [of "\<lambda>p. p\<lparr>state := State_SpecialAuthoritySlashes\<rparr>"] ok lt
      by (auto simp: after_scheme_def state_simps is_special_def simp del: step_ok_simps split: option.splits)
  next
    case 3
    then obtain t where t: "?rest = CHR ''/'' # t" by (auto simp: starts_with_slash)
    have nf: "scheme (parsed_url p) \<noteq> ''file''" using 3 by (simp add: scheme_url_def)
    have inc: "increment_iterator ctx (p\<lparr>state := State_PathOrAuthority\<rparr>) =
        Inr (p\<lparr>state := State_PathOrAuthority, pointer := Suc (pointer p)\<rparr>)"
      using increment_ascii [OF no, of "p\<lparr>state := State_PathOrAuthority\<rparr>"] lt by simp
    have "current_code_point ctx (p\<lparr>state := State_PathOrAuthority, pointer := Suc (pointer p)\<rparr>) = cp CHR ''/''"
      by (rule current_byte) (use t in simp_all)
    then show ?thesis
      using 3 nf inc go [of "\<lambda>p. p\<lparr>state := State_PathOrAuthority, pointer := Suc (pointer p)\<rparr>"] ok
      by (auto simp: after_scheme_def rem state_simps simp del: step_ok_simps split: option.splits)
  next
    case 4
    have nf: "scheme (parsed_url p) \<noteq> ''file''" using 4 by (simp add: scheme_url_def)
    let ?f = "\<lambda>p. on_url (\<lambda>u. append_slash (u\<lparr>has_an_opaque_path := True\<rparr>)) (p\<lparr>state := State_OpaquePath\<rparr>)"
    have "current_code_point ctx ((?f p)\<lparr>pointer := Suc (pointer p)\<rparr>) \<noteq> cp CHR ''/''"
    proof
      assume a: "current_code_point ctx ((?f p)\<lparr>pointer := Suc (pointer p)\<rparr>) = cp CHR ''/''"
      note cur = current_ascii [OF no, of "(?f p)\<lparr>pointer := Suc (pointer p)\<rparr>"]
      have "cp (input ctx ! Suc (pointer p)) = cp CHR ''/''" using cur(2) a by simp
      then have "input ctx ! Suc (pointer p) = CHR ''/''" by (simp only: cp_eq_iff)
      with cur(3) a 4 show False by (auto simp: starts_with_slash)
    qed
    then show ?thesis
      using 4 nf go [of ?f] ok lt
      by (auto simp: after_scheme_def rem state_simps opaque_start_def scheme_url_def fresh_def append_slash_def
          opaque_path_text_def starts_with_char_def is_special_def simp del: step_ok_simps split: option.splits)
  qed
qed

lemma scheme_round:
  assumes "context_ok ctx" "parser_ok ctx p" "state p = State_Scheme"
  shows "round_ok ctx (scheme_state ctx (current_code_point ctx p) p)"
proof -
  let ?c = "current_code_point ctx p"
  have ok: "fresh (parsed_url p)" "valid_scheme (buffer p)" "builders_ok p" "state_override ctx = None"
    using assms parser_ok_state [OF assms(2)] by (auto simp: state_simps context_ok_def)
  consider "is_ascii_alphanumeric ?c \<or> ?c = cp CHR ''+'' \<or> ?c = cp CHR ''-'' \<or> ?c = cp CHR ''.''"
    | "?c = cp CHR '':''"
    | "\<not> (is_ascii_alphanumeric ?c \<or> ?c = cp CHR ''+'' \<or> ?c = cp CHR ''-'' \<or> ?c = cp CHR ''.'' \<or> ?c = cp CHR '':'')"
    by blast
  then show ?thesis
  proof cases
    case 1
    then have "?c < 0x80" by (auto simp: ak_defs)
    with 1 append_as_lowercase_scheme [OF 1] ok assms(1,3) show ?thesis
      by (auto simp: scheme_state_def state_simps valid_scheme_append simp del: step_ok_simps
          intro!: round_break_ascii parser_okI)
  next
    case 2
    with ok assms(1) show ?thesis
      by (auto simp: scheme_state_def Let_def scheme_url_def ak_defs simp del: step_ok_simps
          intro!: after_scheme_round)
  next
    case 3
    with ok show ?thesis by (auto simp: scheme_state_def state_simps intro!: parser_okI)
  qed
qed


subsection \<open>Relative URLs\<close>

lemma authority_ok_cong:
  assumes "scheme u = scheme v" "username u = username v" "password u = password v" "host u = host v" "port u = port v"
  shows "authority_ok u = authority_ok v"
  using assms
  by (simp add: authority_ok_def credentials_ok_def port_ok_def is_special_def includes_credentials_def
      cannot_have_a_username_or_password_or_port_def cong: option.case_cong)

lemma list_path_ok_cong:
  assumes "scheme u = scheme v" "paths u = paths v" "has_an_opaque_path u = has_an_opaque_path v"
  shows "list_path_ok u = list_path_ok v"
  using assms by (simp add: list_path_ok_def is_special_def drive_ok_def cong: list.case_cong)

lemma url_ok_from:
  assumes "url_ok b" "\<not> has_an_opaque_path b" and "scheme u = scheme b" "username u = username b"
    "password u = password b" "host u = host b" "port u = port b" "paths u = paths b" "\<not> has_an_opaque_path u"
    "query_ok u" "fragment_ok u"
  shows "url_ok u"
  using assms authority_ok_cong [of u b] list_path_ok_cong [of u b]
  by (simp add: url_ok_def is_special_def)

lemma path_url_ok_from:
  assumes "url_ok b" "\<not> has_an_opaque_path b" and "scheme u = scheme b" "username u = username b"
    "password u = password b" "host u = host b" "port u = port b" "\<not> has_an_opaque_path u"
    "paths u = paths b \<or> paths u = []" "query u = None" "fragment u = None"
  shows "path_url_ok u"
proof (cases "paths u = []")
  case True
  with assms authority_ok_cong [of u b] show ?thesis
    by (simp add: path_url_ok_def url_ok_def list_path_ok_def drive_ok_def)
next
  case False
  with assms authority_ok_cong [of u b] list_path_ok_cong [of u b] show ?thesis
    by (simp add: path_url_ok_def url_ok_def)
qed

lemma query_ok_simps [simp]:
  "query u = None \<Longrightarrow> query_ok u" "query u = Some [] \<Longrightarrow> query_ok u"
  "fragment u = None \<Longrightarrow> fragment_ok u" "fragment u = Some [] \<Longrightarrow> fragment_ok u"
  by (simp_all add: query_ok_def fragment_ok_def)

lemma query_ok_from: "query_ok b \<Longrightarrow> scheme u = scheme b \<Longrightarrow> query u = query b \<Longrightarrow> query_ok u"
  by (auto simp: query_ok_def is_special_def split: option.splits if_splits)

lemma url_ok_query: "url_ok b \<Longrightarrow> query_ok b"
  by (simp add: url_ok_def)

lemma shorten_urls_path_ok:
  assumes "path_url_ok u"
  shows "\<exists>v. shorten_urls_path u = Inr v \<and> path_url_ok v \<and> scheme v = scheme u"
proof -
  have "path_url_ok (u\<lparr>paths := butlast (paths u)\<rparr>)"
  proof -
    have "list_all (segment_ok (is_special u)) (butlast (paths u))"
      using assms by (auto simp: path_url_ok_def list_path_ok_def list_all_iff dest: in_set_butlastD)
    moreover have "drive_ok (u\<lparr>paths := butlast (paths u)\<rparr>)"
      using assms by (cases "paths u") (auto simp: path_url_ok_def list_path_ok_def drive_ok_def)
    ultimately show ?thesis
      using assms authority_ok_cong [of "u\<lparr>paths := butlast (paths u)\<rparr>" u]
      by (simp add: path_url_ok_def list_path_ok_def is_special_def)
  qed
  then show ?thesis
    using assms by (auto simp: shorten_urls_path_def path_url_ok_def list_path_ok_def verify_def)
qed

lemma special_not_opaque: "url_ok u \<Longrightarrow> is_special u \<Longrightarrow> \<not> has_an_opaque_path u"
  by (auto simp: url_ok_def opaque_url_ok_def)

lemma no_scheme_round:
  assumes "context_ok ctx" "parser_ok ctx p" "state p = State_NoScheme"
  shows "round_ok ctx (no_scheme_state ctx (current_code_point ctx p) p)"
proof (cases "base_url ctx")
  case None
  then show ?thesis by (simp add: no_scheme_state_def)
next
  case (Some b)
  have ok: "fresh (parsed_url p)" "buffer p = []" "builders_ok p" "url_ok b"
    using assms parser_ok_state [OF assms(2)] Some by (auto simp: state_simps context_ok_def)
  have "url_ok ((parsed_url p)\<lparr>scheme := scheme b, paths := paths b, query := query b,
      fragment := Some [], has_an_opaque_path := True\<rparr>)" if "has_an_opaque_path b"
    using that ok by (auto simp: url_ok_def opaque_url_ok_def fresh_def is_special_def query_ok_def fragment_ok_def
        split: option.splits)
  then show ?thesis
    using ok Some assms(1)
    by (auto simp: no_scheme_state_def state_simps relative_base_def simp del: step_ok_simps(3)
        intro!: round_break_ascii parser_okI)
qed

lemma slash_slash_round:
  assumes ctx: "context_ok ctx" and ok: "builders_ok p" "scheme_url (parsed_url p)" "is_special (parsed_url p)" "buffer p = []"
    and c: "current_code_point ctx p = cp CHR ''/''" "starts_with (drop (Suc (pointer p)) (input ctx)) ''/'' CaseSensitive"
  shows "round_ok ctx (bind_result (increment_iterator ctx (p\<lparr>state := State_SpecialAuthorityIgnoreSlashes\<rparr>)) (\<lambda>p. Inr (Break p)))"
proof -
  have no: "no_overlong (input ctx)" using ctx by (simp add: context_ok_def)
  let ?q = "p\<lparr>state := State_SpecialAuthorityIgnoreSlashes, pointer := Suc (pointer p)\<rparr>"
  obtain t where t: "drop (Suc (pointer p)) (input ctx) = CHR ''/'' # t" using c(2) by (auto simp: starts_with_slash)
  have "increment_iterator ctx (p\<lparr>state := State_SpecialAuthorityIgnoreSlashes\<rparr>) = Inr ?q"
    using increment_ascii [OF no, of "p\<lparr>state := State_SpecialAuthorityIgnoreSlashes\<rparr>"] c(1) by simp
  moreover have "current_code_point ctx ?q = cp CHR ''/''"
    by (rule current_byte) (use t in simp_all)
  ultimately show ?thesis
    using ctx ok by (auto simp: state_simps simp del: step_ok_simps intro!: round_break_ascii parser_okI)
qed

lemma special_relative_or_authority_round:
  assumes "context_ok ctx" "parser_ok ctx p" "state p = State_SpecialRelativeOrAuthority"
  shows "round_ok ctx (special_relative_or_authority_state ctx (current_code_point ctx p) p)"
proof -
  obtain b where b: "base_url ctx = Some b" "scheme b = scheme (parsed_url p)" "url_ok b"
    using assms parser_ok_state [OF assms(2)] by (auto simp: state_simps context_ok_def split: option.splits)
  have ok: "scheme_url (parsed_url p)" "is_special (parsed_url p)" "buffer p = []" "builders_ok p"
    using assms parser_ok_state [OF assms(2)] by (auto simp: state_simps)
  have "relative_base ctx"
    using b ok special_not_opaque [of b] by (auto simp: relative_base_def scheme_url_def is_special_def)
  moreover have "get_remaining ctx p = Inr (drop (Suc (pointer p)) (input ctx))"
    if "current_code_point ctx p = cp CHR ''/''"
    using get_remaining_ascii [of ctx p] that assms(1) by (simp add: context_ok_def)
  moreover note slash_slash_round [OF assms(1) ok(4,1,2,3)]
  ultimately show ?thesis
    using ok by (auto simp: special_relative_or_authority_state_def state_simps scheme_url_def
        simp del: step_ok_simps(3) intro!: parser_okI)
qed

lemma path_or_authority_round:
  assumes "context_ok ctx" "parser_ok ctx p" "state p = State_PathOrAuthority"
  shows "round_ok ctx (path_or_authority_state (current_code_point ctx p) p)"
proof -
  have ok: "scheme_url (parsed_url p)" "\<not> is_special (parsed_url p)" "buffer p = []" "builders_ok p"
    using assms parser_ok_state [OF assms(2)] by (auto simp: state_simps)
  then have "path_url_ok (parsed_url p)"
    by (simp add: path_url_ok_def scheme_url_def fresh_def authority_ok_def credentials_ok_def port_ok_def
        list_path_ok_def drive_ok_def includes_credentials_def)
  then show ?thesis
    using ok assms(1)
    by (auto simp: path_or_authority_state_def state_simps segment_text_def simp del: step_ok_simps(3)
        intro!: round_break_ascii parser_okI)
qed


lemma relative_round:
  assumes "context_ok ctx" "parser_ok ctx p" "state p = State_Relative"
  shows "round_ok ctx (relative_state ctx (current_code_point ctx p) p)"
proof -
  obtain b where b: "base_url ctx = Some b" "scheme b \<noteq> ''file''" "\<not> has_an_opaque_path b" "url_ok b"
    using assms parser_ok_state [OF assms(2)]
    by (auto simp: state_simps relative_base_def context_ok_def split: option.splits)
  have ok: "fresh (parsed_url p)" "relative_base ctx" "buffer p = []" "builders_ok p"
    using assms parser_ok_state [OF assms(2)] by (auto simp: state_simps)
  let ?u = "(parsed_url p)\<lparr>scheme := scheme b, username := username b, password := password b, host := host b,
    port := port b, paths := paths b, query := query b\<rparr>"
  have u1: "scheme_url ((parsed_url p)\<lparr>scheme := scheme b\<rparr>)"
    using b ok by (simp add: scheme_url_def url_ok_def)
  have u2: "url_ok ?u" "url_ok (?u\<lparr>fragment := Some []\<rparr>)"
    using b ok by (auto intro!: url_ok_from [OF b(4,3)] query_ok_from [OF url_ok_query [OF b(4)]] simp: fresh_def)
  have u3: "url_ok (?u\<lparr>query := Some []\<rparr>)" "path_url_ok (?u\<lparr>query := None\<rparr>)"
    using b ok by (auto intro!: url_ok_from [OF b(4,3)] path_url_ok_from [OF b(4,3)] simp: fresh_def)
  then obtain v where v: "shorten_urls_path (?u\<lparr>query := None\<rparr>) = Inr v" "path_url_ok v"
    using shorten_urls_path_ok by blast
  show ?thesis
  proof (cases "iterator_done ctx p")
    case True
    then have "current_code_point ctx p = end_of_file" by (simp add: current_code_point_eof)
    with True b(1,2) u2(1) show ?thesis
      by (simp add: relative_state_def Let_def end_of_file_def on_url_def)
  next
    case False
    then have c: "current_code_point ctx p \<noteq> end_of_file" by (simp add: current_code_point_eof)
    have "fragment (parsed_url p) = None" using ok by (simp add: fresh_def)
    with c b(1,2) u1 u2(2) u3(1) v ok assms(1) show ?thesis
      by (auto simp: relative_state_def Let_def state_ok_def segment_text_def
          simp del: step_ok_simps(3) intro!: round_break_ascii parser_okI)
  qed
qed

lemma relative_slash_round:
  assumes "context_ok ctx" "parser_ok ctx p" "state p = State_RelativeSlash"
  shows "round_ok ctx (relative_slash_state ctx (current_code_point ctx p) p)"
proof -
  obtain b where b: "base_url ctx = Some b" "scheme b = scheme (parsed_url p)" "\<not> has_an_opaque_path b" "url_ok b"
    using assms parser_ok_state [OF assms(2)]
    by (auto simp: state_simps relative_base_def context_ok_def split: option.splits)
  have ok: "scheme_url (parsed_url p)" "buffer p = []" "builders_ok p"
    using assms parser_ok_state [OF assms(2)] by (auto simp: state_simps)
  have "path_url_ok ((parsed_url p)\<lparr>username := username b, password := password b, host := host b, port := port b\<rparr>)"
    by (rule path_url_ok_from [OF b(4,3)]) (use ok b in \<open>simp_all add: scheme_url_def fresh_def\<close>)
  then show ?thesis
    using ok b(1) assms(1)
    by (auto simp: relative_slash_state_def state_simps segment_text_def
        simp del: step_ok_simps(3) intro!: round_break_ascii parser_okI)
qed

lemma special_authority_slashes_round:
  assumes "context_ok ctx" "parser_ok ctx p" "state p = State_SpecialAuthoritySlashes"
  shows "round_ok ctx (special_authority_slashes_state ctx (current_code_point ctx p) p)"
proof -
  have ok: "scheme_url (parsed_url p)" "is_special (parsed_url p)" "buffer p = []" "prev_ascii ctx p" "builders_ok p"
    using assms parser_ok_state [OF assms(2)] by (auto simp: state_simps)
  have "get_remaining ctx p = Inr (drop (Suc (pointer p)) (input ctx))"
    if "current_code_point ctx p = cp CHR ''/''"
    using get_remaining_ascii [of ctx p] that assms(1) by (simp add: context_ok_def)
  moreover note slash_slash_round [OF assms(1) ok(5,1,2,3)]
  ultimately show ?thesis
    using ok by (auto simp: special_authority_slashes_state_def state_simps
        simp del: step_ok_simps(3) intro!: parser_okI)
qed

lemma special_authority_ignore_slashes_round:
  assumes "context_ok ctx" "parser_ok ctx p" "state p = State_SpecialAuthorityIgnoreSlashes"
  shows "round_ok ctx (special_authority_ignore_slashes_state (current_code_point ctx p) p)"
proof -
  have "scheme_url (parsed_url p)" "is_special (parsed_url p)" "buffer p = []" "prev_ascii ctx p" "builders_ok p"
    using assms parser_ok_state [OF assms(2)] by (auto simp: state_simps)
  then show ?thesis
    using assms(1,3)
    by (auto simp: special_authority_ignore_slashes_state_def state_simps prev_ascii_def
        simp del: step_ok_simps(3) intro!: round_break_ascii parser_okI)
qed


subsection \<open>Credentials\<close>

lemma at_sign_at_find:
  "at_sign_at ctx p k \<longleftrightarrow> authority_start ctx p \<le> k \<and>
     find_any_of (drop (authority_start ctx p) (input ctx)) (authority_delimiter p) = Some (k - authority_start ctx p) \<and>
     input ctx ! k = CHR ''@''"
proof -
  have at: "CHR ''@'' \<in> set (authority_delimiter p)" by (simp add: authority_delimiter_def)
  have "(\<forall>j. authority_start ctx p \<le> j \<and> j < k \<longrightarrow> input ctx ! j \<notin> set (authority_delimiter p)) \<longleftrightarrow>
      (\<forall>j < k - authority_start ctx p. drop (authority_start ctx p) (input ctx) ! j \<notin> set (authority_delimiter p))"
    if "authority_start ctx p \<le> k" "k < length (input ctx)"
  proof -
    have "(\<forall>j. n \<le> j \<and> j < k \<longrightarrow> P j) \<longleftrightarrow> (\<forall>j < k - n. P (n + j))" for n and P :: "nat \<Rightarrow> bool"
      by (metis add.commute le_add1 le_add_diff_inverse less_diff_conv)
    then show ?thesis using that by auto
  qed
  then show ?thesis
    using at by (auto simp: at_sign_at_def find_any_of_Some)
qed

lemma authority_empty:
  assumes ctx: "context_ok ctx" and p: "pointer p < length (input ctx)" and c: "host_end p (current_code_point ctx p)"
  shows "find_any_of (drop (authority_start ctx p) (input ctx)) (authority_delimiter p) = Some 0"
proof -
  have lt: "current_code_point ctx p < 0x80"
    using c p by (auto simp: host_end_def current_code_point_eof iterator_done_def)
  have no: "no_overlong (input ctx)" using ctx by (simp add: context_ok_def)
  let ?b = "input ctx ! pointer p"
  have b: "cp ?b = current_code_point ctx p" using current_ascii [OF no lt] by simp
  have "authority_start ctx p \<le> pointer p + underlying_code_point_length_in_bytes ?b (drop (Suc (pointer p)) (input ctx)) - 1"
    by (rule authority_start_drop) (rule current_ascii(3) [OF no lt])
  also have "\<dots> = pointer p"
    using lt b by (simp add: underlying_code_point_length_in_bytes_def decode_leading_byte_eq)
  finally have "authority_start ctx p = pointer p" using authority_start_bounds(1) [OF p] by simp
  moreover have "?b \<in> set (authority_delimiter p)"
    using c p b by (auto simp: host_end_def authority_delimiter_def current_code_point_eof iterator_done_def cp_eq_iff [symmetric])
  ultimately show ?thesis using p by (simp add: find_any_of_Some)
qed

lemma clean_at_sign: "clean Userinfo (CHR ''%'' # CHR ''4'' # CHR ''0'' # t) = clean Userinfo t"
  using percent_not_in_url_set [of Userinfo]
  by (simp add: url_set_def hex_digit_not_in_set ak_defs del: code_point_is_in_percent_encode_set.simps)

context external_laws
begin

lemma find_char_bound: "find_char x s c 0 = Some n \<Longrightarrow> n < length s"
  using length_takeWhile_le [of "\<lambda>b. b \<noteq> c" s]
  by (auto simp: find_char_def find_byte Let_def split: if_splits)

lemma append_credentials_ok:
  assumes "builders_ok p"
  shows "\<exists>s n w. append_credentials x a p =
      Inr (p\<lparr>at_sign_seen := True, password_token_seen := s, username_builder := n, password_builder := w\<rparr>) \<and>
    clean Userinfo n \<and> clean Userinfo w"
proof -
  have e: "clean Userinfo (percent_encoded Userinfo SpaceAsPlus_No cs)" for cs
    by (rule clean_percent_encoded) (simp add: url_set_def)
  have b: "clean Userinfo (username_builder p)" "clean Userinfo (password_builder p)"
    using assms by (simp_all add: builders_ok_def)
  consider "password_token_seen p" | "\<not> password_token_seen p" "find_char x a CHR '':'' 0 = None"
    | n where "\<not> password_token_seen p" "find_char x a CHR '':'' 0 = Some n" by fastforce
  then show ?thesis
  proof cases
    case (3 n)
    with find_char_bound [OF 3(2)] show ?thesis
      using e b by (cases p) (auto simp: clean_at_sign append_credentials_def Let_def percent_encode_eq substring_view_def
          substring_view_from_drop verify_def simp del: clean_simps(2))
  qed (use e b in \<open>cases p; auto simp: clean_at_sign append_credentials_def Let_def percent_encode_eq simp del: clean_simps(2)\<close>)+
qed

lemma authority_at_sign_round:
  assumes ctx: "context_ok ctx" and ok: "parser_ok ctx p" "state p = State_Authority"
    and at: "at_sign_at ctx p k" and p: "pointer p < length (input ctx)"
    and p': "append_credentials x a p = Inr p'"
  shows "round_ok ctx (Inr (Break (p'\<lparr>pointer := pointer p + (k - authority_start ctx p)\<rparr>)))"
proof -
  have b: "builders_ok p" "scheme_url (parsed_url p)" using ok by (simp_all add: parser_ok_def state_simps)
  obtain s n w where p'': "p' = p\<lparr>at_sign_seen := True, password_token_seen := s, username_builder := n, password_builder := w\<rparr>"
    "clean Userinfo n" "clean Userinfo w"
    using append_credentials_ok [OF b(1), of a] p' by auto
  let ?q = "p'\<lparr>pointer := pointer p + (k - authority_start ctx p)\<rparr>"
  have "pointer ?q < length (input ctx)"
    using at authority_start_bounds [OF p] by (auto simp: at_sign_at_def)
  moreover have "parser_ok ctx q" if "increment_iterator ctx ?q = Inr q" for q
  proof -
    have "prev_ascii ctx q \<or> pointer q < length (input ctx) \<and> (\<exists>k. at_sign_at ctx q k)"
      by (rule at_sign_step [OF at p _ _ that]) (simp_all add: p'')
    moreover have "q = ?q\<lparr>pointer := pointer q\<rparr>" "0 < pointer q"
      using that increment_iterator_pointer [OF that]
      by (auto simp: increment_iterator_def split: list.splits)
    ultimately show ?thesis
      using b p'' ok(2) by (cases q) (auto simp: parser_ok_def builders_ok_def state_simps)
  qed
  ultimately show ?thesis by (auto simp: iterator_done_def)
qed

lemma authority_to_host_round:
  assumes ctx: "context_ok ctx" and ok: "parser_ok ctx p" "state p = State_Authority" "prev_ascii ctx p"
    and c: "at_sign_seen p \<longrightarrow> \<not> host_end p (current_code_point ctx p)"
  shows "round_ok ctx (Inr (Break (on_url (\<lambda>u. u\<lparr>password := password_builder p, username := username_builder p\<rparr>)
    (p\<lparr>pointer := pointer p - 1, buffer := [], state := State_Host\<rparr>))))"
    (is "round_ok ctx (Inr (Break ?q))")
proof (rule round_break_ascii [OF ctx])
  have p: "0 < pointer p" "pointer p \<le> length (input ctx)" "cp (input ctx ! (pointer p - 1)) < 0x80"
    using ok(3) by (auto simp: prev_ascii_def)
  then have "drop (pointer ?q) (input ctx) = input ctx ! (pointer p - 1) # drop (pointer p) (input ctx)"
    by (simp add: Cons_nth_drop_Suc [symmetric])
  with p current_byte [OF this] show "current_code_point ctx ?q < 0x80" by simp
  have b: "builders_ok p" "scheme_url (parsed_url p)" using ok by (simp_all add: parser_ok_def state_simps)
  have same: "current_code_point ctx (?q\<lparr>pointer := Suc (pointer ?q)\<rparr>) = current_code_point ctx p"
    using p(1) by (simp add: current_code_point_def)
  have "host_end (?q\<lparr>pointer := Suc (pointer ?q)\<rparr>) c = host_end p c" for c
    by (simp add: host_end_def is_special_def)
  then show "parser_ok ctx (?q\<lparr>pointer := Suc (pointer ?q)\<rparr>)"
    using b c same
    by (auto simp: parser_ok_def state_simps scheme_url_def fresh_def includes_credentials_def builders_ok_def)
qed

lemma authority_round:
  assumes ctx: "context_ok ctx" and ok: "parser_ok ctx p" "state p = State_Authority"
  shows "round_ok ctx (authority_state x ctx (current_code_point ctx p) p)"
proof (cases "pointer p < length (input ctx)")
  case False
  then have eof: "current_code_point ctx p = end_of_file" by (simp add: current_code_point_eof iterator_done_def)
  have "prev_ascii ctx p" "0 < pointer p" using ok False by (auto simp: parser_ok_def state_simps)
  then show ?thesis
    using authority_to_host_round [OF ctx ok] eof
    by (auto simp: authority_state_def get_remaining_including_code_point_def find_any_of_def substring_view_def
        verify_def simp del: step_ok_simps(3))
next
  case True
  let ?r = "drop (authority_start ctx p) (input ctx)"
  define n where n_def: "n = (case find_any_of ?r (authority_delimiter p) of Some n \<Rightarrow> n | None \<Rightarrow> length ?r)"
  have start: "authority_start ctx p \<le> length (input ctx)" using authority_start_bounds [OF True] by simp
  have n: "n \<le> length ?r" by (auto simp: n_def find_any_of_Some split: option.splits)
  have eq: "authority_state x ctx (current_code_point ctx p) p =
      (if n < length ?r \<and> ?r ! n = CHR ''@'' then
         bind_result (append_credentials x (take n ?r) p) (\<lambda>p.
           Inr (Break (p\<lparr>pointer := pointer p + n\<rparr>)))
       else if at_sign_seen p \<and> take n ?r = [] then Inr (Return_failure p)
       else if pointer p = 0 then Inl Verify_failed
       else Inr (Break (on_url (\<lambda>u. u\<lparr>password := password_builder p, username := username_builder p\<rparr>)
         (p\<lparr>pointer := pointer p - 1, buffer := [], state := State_Host\<rparr>))))"
    using n unfolding n_def by (auto simp: authority_state_def get_remaining_including [OF True] authority_delimiter_def Let_def
        substring_view_def verify_def)
  show ?thesis
  proof (cases "n < length ?r \<and> ?r ! n = CHR ''@''")
    case at: True
    then have found: "find_any_of ?r (authority_delimiter p) = Some n" by (auto simp: n_def split: option.splits)
    then have here: "at_sign_at ctx p (authority_start ctx p + n)"
      using at start by (simp add: at_sign_at_find)
    obtain p' where p': "append_credentials x (take n ?r) p = Inr p'" "pointer p' = pointer p"
      using append_credentials_ok [of p "take n ?r"] ok(1) by (auto simp: parser_ok_def)
    then show ?thesis
      using authority_at_sign_round [OF ctx ok here True p'(1)] eq at by (simp del: step_ok_simps(3))
  next
    case False
    have "\<not> at_sign_at ctx p k" for k
    proof
      assume "at_sign_at ctx p k"
      then have found: "find_any_of ?r (authority_delimiter p) = Some (k - authority_start ctx p)"
        "authority_start ctx p \<le> k" "input ctx ! k = CHR ''@''" by (simp_all add: at_sign_at_find)
      have "n = k - authority_start ctx p" by (simp add: n_def found(1))
      moreover have "k - authority_start ctx p < length ?r" using found(1) by (simp add: find_any_of_Some)
      moreover note found(2,3)
      ultimately show False using False start by simp
    qed
    then have "prev_ascii ctx p" using ok by (auto simp: parser_ok_def state_simps)
    moreover have "take n ?r = []" if "host_end p (current_code_point ctx p)"
      using authority_empty [OF ctx True that] by (simp add: n_def)
    ultimately show ?thesis
      using eq False authority_to_host_round [OF ctx ok] by (auto simp: prev_ascii_def simp del: step_ok_simps(3))
  qed
qed

end

subsection \<open>Hosts and ports\<close>

lemma domain_clean: "ascii_string s \<Longrightarrow> list_all (\<lambda>b. \<not> forbidden_domain (cp b)) s \<Longrightarrow> clean C0Control s"
  by (fastforce simp: clean_def ascii_string_def list_all_iff forbidden_domain_def ak_defs)

context external_laws
begin

lemma parse_host_opaque_string:
  assumes "parse_host x s True = Inr (Host_String t)"
  shows "t = percent_encoded C0Control SpaceAsPlus_No (utf8_code_points s)"
  using assms by (auto simp: parse_host_def parse_opaque_host_eq split: if_splits)

lemma percent_encoded_nonempty: "s \<noteq> [] \<Longrightarrow> percent_encoded es SpaceAsPlus_No (utf8_code_points s) \<noteq> []"
proof (cases s)
  case (Cons b rest)
  then show ?thesis
    using code_point_to_utf8_nonempty [OF utf8_deref_bound [of b rest]]
    by (auto simp: percent_encoded_char_def percent_byte_def)
qed simp

lemma parse_host_url_ok:
  assumes "s \<noteq> [] \<or> \<not> is_special_scheme sch" and h: "parse_host x s (\<not> is_special_scheme sch) = Inr h"
  shows "url_host_ok sch h" and "s \<noteq> [] \<Longrightarrow> \<not> is_empty_host h"
proof -
  have ok: "host_ok (\<not> is_special_scheme sch) h" using parse_host_outcome [OF assms(1)] h by auto
  show "s \<noteq> [] \<Longrightarrow> \<not> is_empty_host h"
    using ok h percent_encoded_nonempty [of s C0Control]
    by (cases h; cases "is_special_scheme sch") (auto simp: is_empty_host_def host_ok_def dest: parse_host_opaque_string)
  have "clean C0Control (percent_encoded C0Control SpaceAsPlus_No cs)" for cs
    by (rule clean_percent_encoded) (simp add: url_set_def)
  then show "url_host_ok sch h"
    using ok h
    by (cases h; cases "is_special_scheme sch")
      (auto simp: url_host_ok_def is_empty_host_def host_ok_def domain_clean dest: parse_host_opaque_string)
qed

lemma with_host_round:
  assumes "s \<noteq> [] \<or> \<not> is_special (parsed_url p)"
    and "\<And>h. url_host_ok (scheme (parsed_url p)) h \<Longrightarrow> (s \<noteq> [] \<Longrightarrow> \<not> is_empty_host h) \<Longrightarrow> round_ok ctx (k h)"
  shows "round_ok ctx (with_host x s p k)"
proof -
  have "parse_host x s (\<not> is_special (parsed_url p)) = Inl Failure \<or>
      (\<exists>h. parse_host x s (\<not> is_special (parsed_url p)) = Inr h)"
    using parse_host_outcome [OF assms(1)] by blast
  then show ?thesis
    using assms parse_host_url_ok [of s "scheme (parsed_url p)"]
    by (auto simp: with_host_def is_special_def simp del: step_ok_simps(3))
qed

end

end
