(* ===== verification/Url_Parser_Safety.thy ===== *)
theory Url_Parser_Safety
  imports Parser_Rounds
begin

text \<open>
  The URL parser is safe: for every input and every base URL that satisfies the invariant it reaches none of
  its assertions, and the URL it returns satisfies the invariant.
\<close>

subsection \<open>Host and port\<close>

lemma path_url_ok_host:
  assumes "scheme_url (u\<lparr>username := [], password := []\<rparr>)" "clean Userinfo (username u)" "clean Userinfo (password u)"
    and "url_host_ok (scheme u) h" and "includes_credentials u \<Longrightarrow> \<not> is_empty_host h"
  shows "path_url_ok (u\<lparr>host := Some h\<rparr>)"
  using assms
  by (auto simp: path_url_ok_def scheme_url_def fresh_def authority_ok_def credentials_ok_def port_ok_def
      list_path_ok_def drive_ok_def includes_credentials_def cannot_have_a_username_or_password_or_port_def is_special_def)

lemma append_code_point_nonempty: "append_code_point c \<noteq> []"
  using code_point_to_utf8_nonempty [of c] code_point_to_utf8_nonempty [of REPLACEMENT_CODE_POINT]
  by (auto simp: append_code_point_def is_unicode_def REPLACEMENT_CODE_POINT_def)

context external_laws
begin

lemma host_round:
  assumes ctx: "context_ok ctx" and ok: "parser_ok ctx p" "state p = State_Host"
  shows "round_ok ctx (host_state x ctx (current_code_point ctx p) p)"
proof -
  let ?c = "current_code_point ctx p" and ?u = "parsed_url p"
  have b: "builders_ok p" "scheme_url (?u\<lparr>username := [], password := []\<rparr>)" "clean Userinfo (username ?u)"
    "clean Userinfo (password ?u)" "includes_credentials ?u \<and> buffer p = [] \<longrightarrow> \<not> host_end p ?c"
    using ok by (simp_all add: parser_ok_def state_simps)
  have o: "state_override ctx = None" using ctx by (simp add: context_ok_def)
  have host: "path_url_ok (?u\<lparr>host := Some h\<rparr>)"
    if "url_host_ok (scheme ?u) h" "buffer p \<noteq> [] \<Longrightarrow> \<not> is_empty_host h" "buffer p \<noteq> [] \<or> host_end p ?c" for h
    using that b by (intro path_url_ok_host) auto
  have same: "paths ?u = []" "scheme ?u \<noteq> ''file''" using b by (auto simp: scheme_url_def fresh_def)
  consider "?c = cp CHR '':''" "\<not> inside_brackets p" | "host_end p ?c" "\<not> (?c = cp CHR '':'' \<and> \<not> inside_brackets p)"
    | "\<not> host_end p ?c" "\<not> (?c = cp CHR '':'' \<and> \<not> inside_brackets p)" by blast
  then show ?thesis
  proof cases
    case 1
    show ?thesis
    proof (cases "buffer p = []")
      case False
      have "round_ok ctx (Inr (Break (on_url (\<lambda>u. u\<lparr>host := Some h\<rparr>) (p\<lparr>buffer := [], state := State_Port\<rparr>))))"
        if "url_host_ok (scheme ?u) h" "\<not> is_empty_host h" for h
        using that host [of h] False 1 b(1) ctx same
        by (auto simp: state_simps host_nonempty_def simp del: step_ok_simps(3) intro!: round_break_ascii parser_okI)
      with False 1 o show ?thesis
        by (auto simp: host_state_def simp del: step_ok_simps(3) intro!: with_host_round)
    qed (use 1 o in \<open>simp add: host_state_def\<close>)
  next
    case 2
    have "\<not> is_ascii_digit ?c" using 2 by (auto simp: host_end_def ak_defs end_of_file_def)
    then have "round_ok ctx (Inr (Continue (on_url (\<lambda>u. u\<lparr>host := Some h\<rparr>) (p\<lparr>buffer := [], state := State_Port\<rparr>))))"
      if "url_host_ok (scheme ?u) h" "buffer p \<noteq> [] \<Longrightarrow> \<not> is_empty_host h" for h
      using that host [of h] 2 b(1) same by (auto simp: state_simps intro!: parser_okI)
    with 2 o show ?thesis
      by (auto simp: host_state_def host_end_def Let_def simp del: step_ok_simps(3) intro!: with_host_round)
  next
    case 3
    have "\<not> iterator_done ctx p" using 3 by (auto simp: host_end_def current_code_point_eof [symmetric])
    moreover have "host_state x ctx ?c p =
        Inr (Break (p\<lparr>inside_brackets := (if ?c = cp CHR ''['' then True else if ?c = cp CHR '']'' then False
          else inside_brackets p), buffer := buffer p @ append_code_point ?c\<rparr>))"
      using 3 o by (auto simp: host_state_def host_end_def)
    ultimately show ?thesis
      using b ok(2) append_code_point_nonempty [of ?c]
      by (auto simp: state_simps simp del: step_ok_simps(3) intro!: round_break parser_okI)
  qed
qed

lemma port_round:
  assumes ctx: "context_ok ctx" and ok: "parser_ok ctx p" "state p = State_Port"
  shows "round_ok ctx (port_state x ctx (current_code_point ctx p) p)"
proof -
  let ?c = "current_code_point ctx p" and ?u = "parsed_url p"
  have b: "builders_ok p" "path_url_ok ?u" "paths ?u = []" "scheme ?u \<noteq> ''file''" "host ?u \<noteq> None"
    "host_nonempty ?u \<or> buffer p = [] \<and> \<not> is_ascii_digit ?c"
    using ok by (simp_all add: parser_ok_def state_simps)
  have o: "state_override ctx = None" using ctx by (simp add: context_ok_def)
  have "path_url_ok (?u\<lparr>port := q\<rparr>)"
    if "host_nonempty ?u" "case q of None \<Rightarrow> True | Some n \<Rightarrow> default_port_for_scheme (scheme ?u) \<noteq> Some n" for q
    using that b
    by (auto simp: path_url_ok_def authority_ok_def credentials_ok_def port_ok_def list_path_ok_def drive_ok_def is_special_def
        cannot_have_a_username_or_password_or_port_def includes_credentials_def host_nonempty_def split: option.splits)
  moreover have "is_ascii_digit ?c \<Longrightarrow> ?c < 0x80" by (auto simp: ak_defs)
  ultimately show ?thesis
    using b o ok(2) ctx
    by (auto simp: port_state_def state_simps Let_def host_nonempty_def simp del: step_ok_simps(3)
        intro!: round_break_ascii parser_okI split: option.splits)
qed

end

subsection \<open>File URLs\<close>

lemma file_special [simp]: "is_special_scheme ''file''"
  by (simp add: is_special_scheme_def special_schemes_def)

lemma path_url_ok_file:
  assumes "fresh (u\<lparr>host := None\<rparr>)" "scheme u = ''file''" "host u = Some h" "url_host_ok ''file'' h" "h \<noteq> Host_String ''localhost''"
  shows "path_url_ok u"
  using assms
  by (simp add: path_url_ok_def fresh_def authority_ok_def credentials_ok_def port_ok_def list_path_ok_def drive_ok_def
      includes_credentials_def valid_scheme_def ak_defs)

lemma url_host_ok_empty: "url_host_ok ''file'' (Host_String [])"
  by (simp add: url_host_ok_def is_empty_host_def)

lemma file_base:
  assumes "url_ok b" "scheme b = ''file''"
  shows "\<not> has_an_opaque_path b" "username b = []" "password b = []" "port b = None" "paths b \<noteq> []"
proof -
  have s: "is_special b" using assms(2) by (simp add: is_special_def)
  then show o: "\<not> has_an_opaque_path b" using special_not_opaque [OF assms(1)] by simp
  with assms s show "username b = []" "password b = []" "port b = None" "paths b \<noteq> []"
    by (auto simp: url_ok_def authority_ok_def credentials_ok_def includes_credentials_def
        cannot_have_a_username_or_password_or_port_def)
qed

text \<open>Relative to a file URL: the case of the file state in which host, path and query are taken from the base.\<close>

lemma file_base_round:
  assumes ctx: "context_ok ctx" and b: "builders_ok p" "fresh (parsed_url p)" "buffer p = []" "state p = State_File"
    and c: "\<not> (current_code_point ctx p = cp CHR ''/'' \<or> current_code_point ctx p = cp CHR 0x5C)"
    and v: "base_url ctx = Some v" "scheme v = ''file''"
  shows "round_ok ctx (file_state ctx (current_code_point ctx p) p)"
proof -
  let ?u = "(parsed_url p)\<lparr>scheme := ''file'', host := host v, paths := paths v, query := query v\<rparr>"
  have ok: "url_ok v" using ctx v by (simp add: context_ok_def)
  note base = file_base [OF ok v(2)]
  have u2: "url_ok ?u" "url_ok (?u\<lparr>fragment := Some []\<rparr>)"
    using b base v(2)
    by (auto intro!: url_ok_from [OF ok base(1)] query_ok_from [OF url_ok_query [OF ok]] simp: fresh_def)
  have u3: "url_ok (?u\<lparr>query := Some []\<rparr>)" "path_url_ok (?u\<lparr>query := None\<rparr>)" "path_url_ok (?u\<lparr>query := None, paths := []\<rparr>)"
    using b base v(2) by (auto intro!: url_ok_from [OF ok base(1)] path_url_ok_from [OF ok base(1)] simp: fresh_def)
  then obtain w where w: "shorten_urls_path (?u\<lparr>query := None\<rparr>) = Inr w" "path_url_ok w"
    using shorten_urls_path_ok by blast
  show ?thesis
  proof (cases "iterator_done ctx p")
    case True
    then have "current_code_point ctx p = end_of_file" by (simp add: current_code_point_eof)
    with True v u2(1) show ?thesis
      by (simp add: file_state_def Let_def end_of_file_def on_url_def)
  next
    case False
    then have "current_code_point ctx p \<noteq> end_of_file" "pointer p \<le> length (input ctx)"
      by (simp_all add: current_code_point_eof iterator_done_def)
    moreover have "fragment (parsed_url p) = None" using b by (simp add: fresh_def)
    ultimately show ?thesis
      using c v u2(2) u3 w b ctx
      by (auto simp: file_state_def Let_def state_ok_def segment_text_def substring_from_pointer_def
          substring_view_from_drop simp del: step_ok_simps(3) intro!: round_break_ascii parser_okI)
  qed
qed

lemma file_round:
  assumes ctx: "context_ok ctx" and ok: "parser_ok ctx p" "state p = State_File"
  shows "round_ok ctx (file_state ctx (current_code_point ctx p) p)"
proof -
  let ?c = "current_code_point ctx p"
  let ?u = "(parsed_url p)\<lparr>scheme := ''file'', host := Some (Host_String [])\<rparr>"
  have b: "builders_ok p" "fresh (parsed_url p)" "buffer p = []"
    using ok by (simp_all add: parser_ok_def state_simps)
  have u: "path_url_ok ?u" "file_url ?u"
    using b url_host_ok_empty by (auto intro!: path_url_ok_file simp: fresh_def file_url_def)
  consider "?c = cp CHR ''/'' \<or> ?c = cp CHR 0x5C"
    | "\<not> (?c = cp CHR ''/'' \<or> ?c = cp CHR 0x5C)" "base_url ctx = None \<or> (\<exists>v. base_url ctx = Some v \<and> scheme v \<noteq> ''file'')"
    | v where "\<not> (?c = cp CHR ''/'' \<or> ?c = cp CHR 0x5C)" "base_url ctx = Some v" "scheme v = ''file''"
    by (cases "base_url ctx") auto
  then show ?thesis
  proof cases
    case 1
    with b u ctx show ?thesis
      by (auto simp: file_state_def state_simps prev_ascii_def simp del: step_ok_simps(3)
          intro!: round_break_ascii parser_okI)
  next
    case 2
    with b u show ?thesis
      by (auto simp: file_state_def state_simps segment_text_def intro!: parser_okI)
  next
    case (3 v)
    then show ?thesis by (intro file_base_round [OF ctx b ok(2)])
  qed
qed

lemma file_slash_round:
  assumes ctx: "context_ok ctx" and ok: "parser_ok ctx p" "state p = State_FileSlash"
  shows "round_ok ctx (file_slash_state ctx (current_code_point ctx p) p)"
proof -
  let ?c = "current_code_point ctx p" and ?u = "parsed_url p"
  have b: "builders_ok p" "file_url ?u" "buffer p = []" "pointer p \<le> length (input ctx)"
    using ok by (simp_all add: parser_ok_def state_simps)
  have u: "path_url_ok ?u"
    using b url_host_ok_empty by (auto intro!: path_url_ok_file simp: file_url_def)
  show ?thesis
  proof (cases "?c = cp CHR ''/'' \<or> ?c = cp CHR 0x5C")
    case True
    with b ctx show ?thesis
      by (auto simp: file_slash_state_def state_simps simp del: step_ok_simps(3) intro!: round_break_ascii parser_okI)
  next
    case False
    show ?thesis
    proof (cases "\<exists>v. base_url ctx = Some v \<and> scheme v = ''file''")
      case True
      then obtain v where v: "base_url ctx = Some v" "scheme v = ''file''" by blast
      have okv: "url_ok v" using ctx v by (simp add: context_ok_def)
      note base = file_base [OF okv v(2)]
      have w: "path_url_ok (?u\<lparr>host := host v\<rparr>)"
        by (rule path_url_ok_from [OF okv base(1)]) (use b base v in \<open>simp_all add: file_url_def fresh_def\<close>)
      have seg: "segment_ok True (paths v ! 0)"
        using okv base(1,5) v(2) by (cases "paths v") (auto simp: url_ok_def list_path_ok_def is_special_def)
      have "path_url_ok (?u\<lparr>host := host v, paths := paths ?u @ [paths v ! 0]\<rparr>)"
        if "is_normalized_windows_drive_letter (paths v ! 0)"
        using w seg that b authority_ok_cong [of "?u\<lparr>host := host v, paths := paths ?u @ [paths v ! 0]\<rparr>" "?u\<lparr>host := host v\<rparr>"]
        by (simp add: path_url_ok_def list_path_ok_def is_special_def file_url_def fresh_def drive_ok_def)
      then show ?thesis
        using False v w b base(5)
        by (auto simp: file_slash_state_def Let_def state_ok_def segment_text_def substring_from_pointer_def
            substring_view_from_drop intro!: parser_okI)
    next
      case nf: False
      with False b u show ?thesis
        by (auto simp: file_slash_state_def state_simps segment_text_def intro!: parser_okI split: option.splits)
    qed
  qed
qed

lemma drive_letter_text: "is_windows_drive_letter s \<Longrightarrow> segment_text special s"
proof -
  assume "is_windows_drive_letter s"
  then obtain a b where s: "s = [a, b]" "is_ascii_alpha (cp a)" "b = CHR '':'' \<or> b = CHR ''|''"
    by (auto simp: is_windows_drive_letter_def length_Suc_conv numeral_2_eq_2)
  then show "segment_text special s"
    by (auto simp: segment_text_def contains_char_def ak_defs char_of_eq_iff)
qed

context external_laws
begin

lemma file_host_round:
  assumes ctx: "context_ok ctx" and ok: "parser_ok ctx p" "state p = State_FileHost"
  shows "round_ok ctx (file_host_state x ctx (current_code_point ctx p) p)"
proof -
  let ?c = "current_code_point ctx p" and ?u = "parsed_url p"
  have b: "builders_ok p" "file_url ?u" using ok by (simp_all add: parser_ok_def state_simps)
  have o: "state_override ctx = None" using ctx by (simp add: context_ok_def)
  have u: "path_url_ok ?u" "host ?u = Some (Host_String [])" "paths ?u = []" "scheme ?u = ''file''"
    using b url_host_ok_empty by (auto intro!: path_url_ok_file simp: file_url_def fresh_def)
  have host: "path_url_ok (?u\<lparr>host := Some h\<rparr>)" if "url_host_ok ''file'' h" "h \<noteq> Host_String ''localhost''" for h
    using b that by (auto intro!: path_url_ok_file simp: file_url_def)
  show ?thesis
  proof (cases "?c = end_of_file \<or> ?c = cp CHR ''/'' \<or> ?c = cp CHR 0x5C \<or> ?c = cp CHR ''?'' \<or> ?c = cp CHR ''#''")
    case True
    consider "is_windows_drive_letter (buffer p)" | "\<not> is_windows_drive_letter (buffer p)" "buffer p = []"
      | "\<not> is_windows_drive_letter (buffer p)" "buffer p \<noteq> []" by blast
    then show ?thesis
    proof cases
      case 1
      with True o b u show ?thesis
        by (simp add: file_host_state_def parser_ok_def state_simps drive_letter_text)
    next
      case 2
      with True o b host [OF url_host_ok_empty] u show ?thesis
        by (simp add: file_host_state_def parser_ok_def state_simps)
    next
      case 3
      have "round_ok ctx (with_host x (buffer p) p k)"
        if "\<And>h. url_host_ok ''file'' h \<Longrightarrow> round_ok ctx (k h)" for k
        using that 3(2) u(4) by (intro with_host_round) auto
      with True 3 o b host host [OF url_host_ok_empty] u show ?thesis
        by (simp add: file_host_state_def Let_def parser_ok_def state_simps)
    qed
  next
    case False
    then have "\<not> iterator_done ctx p" by (auto simp: current_code_point_eof [symmetric])
    with False b ok(2) show ?thesis
      by (auto simp: file_host_state_def state_simps simp del: step_ok_simps(3) intro!: round_break parser_okI)
  qed
qed

end

subsection \<open>Paths\<close>

lemma url_ok_of_path:
  assumes "path_url_ok u" "is_special u \<or> host u = None \<Longrightarrow> paths u \<noteq> []"
  shows "url_ok u" "url_ok (u\<lparr>query := Some []\<rparr>)" "url_ok (u\<lparr>fragment := Some []\<rparr>)"
  using assms authority_ok_cong [of "u\<lparr>query := Some []\<rparr>" u] authority_ok_cong [of "u\<lparr>fragment := Some []\<rparr>" u]
    list_path_ok_cong [of "u\<lparr>query := Some []\<rparr>" u] list_path_ok_cong [of "u\<lparr>fragment := Some []\<rparr>" u]
  by (auto simp: path_url_ok_def url_ok_def is_special_def list_path_ok_def)

lemma path_url_ok_append:
  assumes "path_url_ok u" "segment_ok (is_special u) s"
    and "paths u = [] \<Longrightarrow> scheme u = ''file'' \<Longrightarrow> is_windows_drive_letter s \<Longrightarrow> is_normalized_windows_drive_letter s"
  shows "path_url_ok (u\<lparr>paths := paths u @ [s]\<rparr>)"
  using assms authority_ok_cong [of "u\<lparr>paths := paths u @ [s]\<rparr>" u]
  by (cases "paths u") (auto simp: path_url_ok_def list_path_ok_def is_special_def drive_ok_def)

lemma segment_ok_empty: "segment_ok special []"
  by (simp add: segment_ok_def segment_text_def is_single_dot_path_segment_def is_double_dot_path_segment_def
      equals_ignoring_ascii_case_def)

lemma path_url_ok_append_slash: "path_url_ok u \<Longrightarrow> path_url_ok (append_slash u)"
  unfolding append_slash_def
  by (rule path_url_ok_append) (simp_all add: segment_ok_empty is_windows_drive_letter_def)

lemma normalized_drive_letter:
  assumes "is_windows_drive_letter s"
  shows "segment_ok special [s ! 0, CHR '':'']" "is_normalized_windows_drive_letter [s ! 0, CHR '':'']"
proof -
  show n: "is_normalized_windows_drive_letter [s ! 0, CHR '':'']"
    using assms by (simp add: is_windows_drive_letter_def is_normalized_windows_drive_letter_def)
  then have "segment_text special [s ! 0, CHR '':'']"
    by (intro drive_letter_text) (simp add: is_windows_drive_letter_def is_normalized_windows_drive_letter_def)
  then show "segment_ok special [s ! 0, CHR '':'']"
    by (simp add: segment_ok_def is_single_dot_path_segment_def is_double_dot_path_segment_def
        equals_ignoring_ascii_case_def)
qed

lemma end_path_segment_ok:
  assumes u: "path_url_ok u" and s: "segment_text (is_special u) segment"
  shows "\<exists>v. end_path_segment slash segment u = Inr v \<and> path_url_ok v \<and> (\<not> slash \<longrightarrow> paths v \<noteq> [])"
proof -
  let ?n = "if scheme u = ''file'' \<and> paths u = [] \<and> is_windows_drive_letter segment
    then [segment ! 0, CHR '':''] else segment"
  have "path_url_ok (u\<lparr>paths := paths u @ [?n]\<rparr>)"
    if "\<not> is_single_dot_path_segment segment" "\<not> is_double_dot_path_segment segment"
    using that s normalized_drive_letter [of segment]
    by (intro path_url_ok_append [OF u]) (auto simp: segment_ok_def)
  moreover obtain w where "shorten_urls_path u = Inr w" "path_url_ok w" using shorten_urls_path_ok [OF u] by blast
  ultimately show ?thesis
    using u path_url_ok_append_slash [of u] path_url_ok_append_slash [of w]
    by (auto simp: end_path_segment_def Let_def append_slash_def)
qed

lemma path_start_round:
  assumes ctx: "context_ok ctx" and ok: "parser_ok ctx p" "state p = State_PathStart"
  shows "round_ok ctx (path_start_state ctx (current_code_point ctx p) p)"
proof -
  let ?c = "current_code_point ctx p" and ?u = "parsed_url p"
  have b: "builders_ok p" "path_url_ok ?u" "paths ?u = []" "host ?u \<noteq> None" "buffer p = []"
    using ok by (simp_all add: parser_ok_def state_simps)
  have o: "state_override ctx = None" using ctx by (simp add: context_ok_def)
  have f: "fragment ?u = None" using b by (simp add: path_url_ok_def)
  have u: "url_ok ?u \<and> url_ok (?u\<lparr>query := Some []\<rparr>) \<and> url_ok (?u\<lparr>fragment := Some []\<rparr>)" if "\<not> is_special ?u"
    using url_ok_of_path [OF b(2)] that b by blast
  show ?thesis
  proof (cases "?c = end_of_file")
    case True
    then have "iterator_done ctx p" by (simp add: current_code_point_eof)
    with True b u o show ?thesis
      by (auto simp: path_start_state_def state_simps segment_text_def end_of_file_def intro!: parser_okI)
  next
    case False
    with b u f o ctx show ?thesis
      by (auto simp: path_start_state_def state_simps segment_text_def simp del: step_ok_simps(3)
          intro!: parser_okI round_break_ascii)
  qed
qed

lemma percent_encoded_char_bytes:
  "b \<in> set (percent_encoded_char s SpaceAsPlus_No c) \<Longrightarrow> b = CHR ''%'' \<or> is_ascii_hex_digit (cp b) \<or> cp b = c"
proof (cases "code_point_is_in_percent_encode_set c s")
  case True
  assume "b \<in> set (percent_encoded_char s SpaceAsPlus_No c)"
  then obtain b' where "b \<in> set (percent_byte b')" using True by (auto simp: percent_encoded_char_def)
  moreover have "cp b' div 16 < 16" "cp b' mod 16 < 16" using cp_less_256 [of b'] by (simp_all add: div_less_iff_less_mult)
  ultimately show ?thesis by (auto simp: percent_byte_def intro: lookup_digit(4))
qed (use not_in_set_ascii [of c s] in \<open>auto simp: percent_encoded_char_def\<close>)

lemma percent_encoded_char_avoids:
  assumes "c \<noteq> cp d" "d \<noteq> CHR ''%''" "\<not> is_ascii_hex_digit (cp d)"
  shows "d \<notin> set (percent_encoded_char s SpaceAsPlus_No c)"
  using assms percent_encoded_char_bytes [of d s c] by auto

lemma path_round:
  assumes ctx: "context_ok ctx" and ok: "parser_ok ctx p" "state p = State_Path"
  shows "round_ok ctx (path_state ctx (current_code_point ctx p) p)"
proof -
  let ?c = "current_code_point ctx p" and ?u = "parsed_url p"
  let ?slash = "?c = cp CHR ''/'' \<or> (is_special ?u \<and> ?c = cp CHR 0x5C)"
  have b: "builders_ok p" "path_url_ok ?u" "segment_text (is_special ?u) (buffer p)"
    using ok by (simp_all add: parser_ok_def state_simps)
  have o: "state_override ctx = None" using ctx by (simp add: context_ok_def)
  show ?thesis
  proof (cases "?c = end_of_file \<or> ?slash \<or> ?c = cp CHR ''?'' \<or> ?c = cp CHR ''#''")
    case True
    obtain v where v: "end_path_segment ?slash (buffer p) ?u = Inr v" "path_url_ok v" "\<not> ?slash \<longrightarrow> paths v \<noteq> []"
      using end_path_segment_ok [OF b(2,3)] by blast
    have u: "url_ok v \<and> url_ok (v\<lparr>query := Some []\<rparr>) \<and> url_ok (v\<lparr>fragment := Some []\<rparr>)" if "\<not> ?slash"
      using url_ok_of_path [OF v(2)] that v(3) by blast
    have f: "fragment v = None" using v(2) by (simp add: path_url_ok_def)
    have eq: "path_state ctx ?c p = Inr (Break (if ?c = cp CHR ''?'' then
        p\<lparr>parsed_url := v\<lparr>query := Some []\<rparr>, buffer := [], state := State_Query\<rparr>
      else if ?c = cp CHR ''#'' then p\<lparr>parsed_url := v\<lparr>fragment := Some []\<rparr>, buffer := [], state := State_Fragment\<rparr>
      else p\<lparr>parsed_url := v, buffer := []\<rparr>))"
      using True v(1) o unfolding path_state_def by (auto simp: Let_def on_url_def)
    show ?thesis
    proof (cases "?c = end_of_file")
      case eof: True
      then have "iterator_done ctx p" by (simp add: current_code_point_eof)
      with eof u show ?thesis unfolding eq by (auto simp: end_of_file_def)
    next
      case False
      with True have "?c < 0x80" by auto
      with False True u f v(2) b(1) ok(2) ctx show ?thesis
        unfolding eq
        by (auto simp: state_simps segment_text_def simp del: step_ok_simps(3) intro!: parser_okI round_break_ascii)
    qed
  next
    case False
    let ?e = "percent_encoded_char PathSet SpaceAsPlus_No ?c"
    have nd: "\<not> iterator_done ctx p" using False by (auto simp: current_code_point_eof [symmetric])
    have "append_percent_encoded_if_necessary ?c PathSet = Inr ?e"
      using False current_code_point_unicode [of ctx p] by (intro append_percent_encoded_if_necessary_eq) auto
    then have "path_state ctx ?c p = Inr (Break (p\<lparr>buffer := buffer p @ ?e\<rparr>))"
      using False by (auto simp: path_state_def)
    moreover have "segment_text (is_special ?u) (buffer p @ ?e)"
      using b(3) False clean_percent_encoded_char [of PathSet ?c]
        percent_encoded_char_avoids [of ?c "CHR ''/''" PathSet] percent_encoded_char_avoids [of ?c "CHR 0x5C" PathSet]
      by (auto simp: segment_text_def url_set_def ak_defs)
    ultimately show ?thesis
      using nd b ok(2) by (auto simp: state_simps simp del: step_ok_simps(3) intro!: round_break parser_okI)
  qed
qed

subsection \<open>Opaque paths, queries and fragments\<close>

lemma opaque_start_url_ok:
  assumes "opaque_start u" "opaque_path_text s"
  shows "url_ok (u\<lparr>paths := [s]\<rparr>)" "url_ok (u\<lparr>paths := [s], query := Some []\<rparr>)" "url_ok (u\<lparr>paths := [s], fragment := Some []\<rparr>)"
  using assms by (auto simp: opaque_start_def fresh_def url_ok_def opaque_url_ok_def is_special_def)

lemma opaque_path_text_append:
  assumes "opaque_path_text s" "clean C0Control t" "CHR ''?'' \<notin> set t" "CHR ''#'' \<notin> set t"
    "s = [] \<Longrightarrow> \<not> starts_with_char t CHR ''/''"
  shows "opaque_path_text (s @ t)"
  using assms by (cases s) (auto simp: opaque_path_text_def starts_with_char_def)

lemma opaque_path_round:
  assumes ctx: "context_ok ctx" and ok: "parser_ok ctx p" "state p = State_OpaquePath"
  shows "round_ok ctx (opaque_path_state ctx (current_code_point ctx p) p)"
proof -
  let ?c = "current_code_point ctx p" and ?u = "parsed_url p"
  have b: "builders_ok p" "opaque_start ?u" "opaque_path_text (buffer p)" "buffer p = [] \<longrightarrow> ?c \<noteq> cp CHR ''/''"
    using ok by (simp_all add: parser_ok_def state_simps)
  have v: "paths ?u = [[]]" "fragment ?u = None" using b(2) by (simp_all add: opaque_start_def fresh_def)
  note u = opaque_start_url_ok [OF b(2,3)]
  have more: "round_ok ctx (Inr (Break (p\<lparr>buffer := buffer p @ t\<rparr>)))"
    if "opaque_path_text (buffer p @ t)" "t \<noteq> []" "?c \<noteq> end_of_file" for t
    using that b ok(2)
    by (intro round_break) (auto simp: current_code_point_eof state_simps intro!: parser_okI)
  consider "?c = cp CHR ''?'' \<or> ?c = cp CHR ''#''" | "?c = cp CHR '' ''" | "?c = end_of_file"
    | "?c \<notin> {cp CHR ''?'', cp CHR ''#'', cp CHR '' '', end_of_file}" by blast
  then show ?thesis
  proof cases
    case 1
    with b(1) u v ctx show ?thesis
      by (auto simp: opaque_path_state_def state_simps simp del: step_ok_simps(3) intro!: round_break_ascii parser_okI)
  next
    case 2
    then have "get_remaining ctx p = Inr (drop (Suc (pointer p)) (input ctx))"
      using get_remaining_ascii [of ctx p] ctx by (simp add: context_ok_def)
    moreover have "opaque_path_text (buffer p @ ''%20'')" "opaque_path_text (buffer p @ '' '')"
      using b(3) by (auto intro!: opaque_path_text_append simp: starts_with_char_def)
    ultimately show ?thesis
      using 2 v more by (auto simp: opaque_path_state_def end_of_file_def simp del: step_ok_simps(3))
  next
    case 3
    then have "iterator_done ctx p" by (simp add: current_code_point_eof)
    with 3 v u show ?thesis by (simp add: opaque_path_state_def end_of_file_def)
  next
    case 4
    let ?e = "percent_encoded_char C0Control SpaceAsPlus_No ?c"
    have le: "?c \<le> 0x10FFFF" using 4 current_code_point_unicode [of ctx p] by auto
    have "append_percent_encoded_if_necessary ?c C0Control = Inr ?e"
      using le by (rule append_percent_encoded_if_necessary_eq)
    moreover have ne: "?e \<noteq> []"
      using code_point_to_utf8_nonempty [OF le] by (auto simp: percent_encoded_char_def percent_byte_def)
    moreover have "opaque_path_text (buffer p @ ?e)"
    proof (rule opaque_path_text_append [OF b(3)])
      show "buffer p = [] \<Longrightarrow> \<not> starts_with_char ?e CHR ''/''"
        using b(4) percent_encoded_char_avoids [of ?c "CHR ''/''" C0Control] ne
        by (cases ?e) (auto simp: starts_with_char_def ak_defs)
    qed (use 4 clean_percent_encoded_char [of C0Control ?c] percent_encoded_char_avoids [of ?c _ C0Control]
        in \<open>auto simp: url_set_def ak_defs\<close>)
    ultimately show ?thesis
      using 4 v more [of ?e] by (auto simp: opaque_path_state_def simp del: step_ok_simps(3))
  qed
qed

lemma url_ok_query_update:
  assumes "url_ok u" "query_ok (u\<lparr>query := q\<rparr>)"
  shows "url_ok (u\<lparr>query := q\<rparr>)"
proof (cases "has_an_opaque_path u")
  case True
  with assms show ?thesis by (simp add: url_ok_def opaque_url_ok_def is_special_def fragment_ok_def)
next
  case False
  with assms show ?thesis
    by (intro url_ok_from [OF assms(1)]) (simp_all add: url_ok_def fragment_ok_def)
qed

lemma url_ok_fragment_update:
  assumes "url_ok u" "fragment_ok (u\<lparr>fragment := f\<rparr>)"
  shows "url_ok (u\<lparr>fragment := f\<rparr>)"
proof (cases "has_an_opaque_path u")
  case True
  have "query_ok (u\<lparr>fragment := f\<rparr>)" by (rule query_ok_from [OF url_ok_query [OF assms(1)]]) simp_all
  with True assms show ?thesis by (simp add: url_ok_def opaque_url_ok_def is_special_def)
next
  case False
  with assms show ?thesis
    by (intro url_ok_from [OF assms(1)]) (auto simp: url_ok_def intro!: query_ok_from [of u])
qed

context external_laws
begin

lemma query_round:
  assumes ctx: "context_ok ctx" and ok: "parser_ok ctx p" "state p = State_Query"
  shows "round_ok ctx (query_state x ctx (current_code_point ctx p) p)"
proof -
  let ?c = "current_code_point ctx p" and ?u = "parsed_url p"
  let ?set = "if is_special ?u then SpecialQuery else QuerySet"
  define e where "e = (if \<not> is_special ?u \<or> scheme ?u = ''ws'' \<or> scheme ?u = ''wss'' then utf8_encoder else query_encoder p)"
  have b: "builders_ok p" "url_ok ?u" "fragment ?u = None" using ok by (simp_all add: parser_ok_def state_simps)
  have o: "state_override ctx = None" using ctx by (simp add: context_ok_def)
  have "url_set ?set" by (simp add: url_set_def)
  then obtain q where q: "percent_encode_after_encoding x e (buffer p) ?set False = Inr q" "clean ?set q"
    using percent_encode_after_encoding_clean by blast
  have u: "url_ok (?u\<lparr>query := Some q\<rparr>)"
    using b(2) q(2) by (intro url_ok_query_update) (simp_all add: query_ok_def is_special_def)
  then have u': "url_ok (?u\<lparr>query := Some q, fragment := Some []\<rparr>)"
    using url_ok_fragment_update [OF u, of "Some []"] by (simp add: fragment_ok_def)
  have eq: "query_state x ctx ?c p =
      (if ?c = cp CHR ''#'' then Inr (Break (p\<lparr>query_encoder := e, buffer := [], parsed_url := ?u\<lparr>query := Some q, fragment := Some []\<rparr>,
          state := State_Fragment\<rparr>))
       else if ?c = end_of_file then Inr (Break (p\<lparr>query_encoder := e, buffer := [], parsed_url := ?u\<lparr>query := Some q\<rparr>\<rparr>))
       else Inr (Break (p\<lparr>query_encoder := e, buffer := buffer p @ append_code_point ?c\<rparr>)))"
    using q(1) o by (cases p) (auto simp: query_state_def Let_def on_url_def e_def)
  consider "?c = cp CHR ''#''" | "?c = end_of_file" | "?c \<noteq> cp CHR ''#''" "?c \<noteq> end_of_file" by blast
  then show ?thesis
  proof cases
    case 1
    with b(1) u' ctx show ?thesis
      unfolding eq by (auto simp: state_simps simp del: step_ok_simps(3) intro!: round_break_ascii parser_okI)
  next
    case 2
    then have "iterator_done ctx p" by (simp add: current_code_point_eof)
    with 2 u show ?thesis unfolding eq by (simp add: end_of_file_def)
  next
    case 3
    then have "\<not> iterator_done ctx p" by (simp add: current_code_point_eof)
    with 3 b ok(2) show ?thesis
      unfolding eq by (auto simp: state_simps simp del: step_ok_simps(3) intro!: round_break parser_okI)
  qed
qed

lemma fragment_round:
  assumes ctx: "context_ok ctx" and ok: "parser_ok ctx p" "state p = State_Fragment"
  shows "round_ok ctx (fragment_state x (current_code_point ctx p) p)"
proof -
  let ?c = "current_code_point ctx p" and ?u = "parsed_url p"
  have b: "builders_ok p" "url_ok ?u" using ok by (simp_all add: parser_ok_def state_simps)
  obtain f where f: "percent_encode_after_encoding x utf8_encoder (buffer p) FragmentSet False = Inr f" "clean FragmentSet f"
    using percent_encode_after_encoding_clean [of FragmentSet] by (auto simp: url_set_def)
  then have "url_ok (?u\<lparr>fragment := Some f\<rparr>)"
    using b(2) by (intro url_ok_fragment_update) (simp_all add: fragment_ok_def)
  then show ?thesis
  proof (cases "iterator_done ctx p")
    case False
    with b ok(2) show ?thesis
      by (auto simp: fragment_state_def current_code_point_eof state_simps simp del: step_ok_simps(3)
          intro!: round_break parser_okI)
  qed (use f(1) in \<open>simp add: fragment_state_def current_code_point_eof [symmetric]\<close>)
qed

lemmas rounds = scheme_start_round scheme_round no_scheme_round special_relative_or_authority_round
  path_or_authority_round relative_round relative_slash_round special_authority_slashes_round
  special_authority_ignore_slashes_round authority_round host_round port_round file_round file_slash_round
  file_host_round path_start_round path_round opaque_path_round query_round fragment_round

lemma run_state_round:
  assumes "context_ok ctx" "parser_ok ctx p"
  shows "round_ok ctx (run_state x ctx (current_code_point ctx p) p)"
proof (cases "state p")
  case State_Hostname
  with assms show ?thesis by (simp add: parser_ok_def state_simps)
qed (simp_all add: run_state_def rounds [OF assms] del: step_ok_simps)

end

subsection \<open>The input\<close>

lemma append_code_point_filter:
  assumes "c \<le> 0x10ffff" "\<And>b. 0x80 \<le> cp b \<Longrightarrow> P b"
  shows "filter P (append_code_point c) = (if 0x80 \<le> c \<or> P (char_of c) then append_code_point c else [])"
proof (cases "c < 0x80")
  case True
  then show ?thesis by (simp add: append_code_point_ascii)
next
  case False
  then have "P b" if "b \<in> set (append_code_point c)" for b
    using that assms code_point_to_utf8_high_bytes [of c b] by (auto simp: append_code_point_unicode)
  then have "filter P (append_code_point c) = append_code_point c" by simp
  with False show ?thesis by simp
qed

lemma utf8_well_formed_filter:
  assumes "utf8_well_formed s" "\<And>b. 0x80 \<le> cp b \<Longrightarrow> P b"
  shows "utf8_well_formed (filter P s)"
proof -
  obtain cs where cs: "list_all is_unicode_scalar_value cs" "s = utf8_encode cs"
    using assms(1) by (auto simp: utf8_well_formed_iff)
  then have "filter P s = utf8_encode (filter (\<lambda>c. 0x80 \<le> c \<or> P (char_of c)) cs)"
    unfolding cs(2) using cs(1)
    by (induction cs) (simp_all add: append_code_point_filter [OF _ assms(2)] is_unicode_scalar_value_def is_unicode_def)
  moreover have "list_all is_unicode_scalar_value (filter (\<lambda>c. 0x80 \<le> c \<or> P (char_of c)) cs)"
    using cs(1) by (simp add: list_all_iff)
  ultimately show ?thesis by (auto simp: utf8_well_formed_iff)
qed

lemma start_index_loop_le: "start_index_loop s n \<le> n + length s"
  by (induction s n rule: start_index_loop.induct) auto

lemma end_index_loop_bounds: "end_index_loop s a n \<le> n" "a \<le> n \<Longrightarrow> a \<le> end_index_loop s a n"
  by (induction s a n rule: end_index_loop.induct) auto

lemma trimmed_input_total: "\<exists>t. trimmed_input s = Inr t"
  using start_index_loop_le [of s 0] end_index_loop_bounds [where n = "length s"]
  by (auto simp: trimmed_input_def Let_def substring_view_def verify_def)

context external_laws
begin

lemma string_from_utf8_well_formed: "utf8_well_formed s \<Longrightarrow> string_from_utf8 x s = Inr s"
  by (simp add: string_from_utf8_def utf8_validate_well_formed)

lemma from_utf8_with_replacement_character_well_formed:
  "\<exists>t. from_utf8_with_replacement_character x s = Inr t \<and> utf8_well_formed t"
proof -
  let ?f = "\<lambda>c. if is_unicode_surrogate c then REPLACEMENT_CODE_POINT else c"
  have "list_all is_unicode_scalar_value (map ?f (utf8_code_points s))"
    using utf8_code_points_unicode [of s]
    by (auto simp: list_all_iff is_unicode_scalar_value_def is_unicode_def is_unicode_surrogate_def REPLACEMENT_CODE_POINT_def)
  then have "utf8_well_formed (utf8_encode (map ?f (utf8_code_points s)))" by (auto simp: utf8_well_formed_iff)
  then have "utf8_well_formed (concat (map (\<lambda>c. append_code_point (?f c)) (utf8_code_points s)))"
    by (simp add: utf8_encode_def comp_def)
  moreover have "utf8_validate x False s = Inr (utf8_well_formed s)"
    unfolding utf8_validate.simps [of x False s] validate_utf8 [of s, symmetric] by (simp add: case_prod_beta)
  ultimately show ?thesis by (simp add: from_utf8_with_replacement_character_def)
qed

lemma process_input_well_formed: "\<exists>t. process_input x s = Inr t \<and> utf8_well_formed t"
proof -
  obtain t where t: "from_utf8_with_replacement_character x s = Inr t" "utf8_well_formed t"
    using from_utf8_with_replacement_character_well_formed by blast
  have "utf8_well_formed (filter (\<lambda>c. c \<noteq> CHR 0x09 \<and> c \<noteq> CHR 0x0A \<and> c \<noteq> CHR 0x0D) t)"
    by (rule utf8_well_formed_filter [OF t(2)]) auto
  with t show ?thesis
    by (auto simp: process_input_def remove_ascii_tab_or_newline_def must_def string_from_utf8_well_formed)
qed

end

subsection \<open>Safety\<close>

lemma step_ok_mono:
  assumes "step_ok ctx I Q r" "\<And>p. I p \<Longrightarrow> J p"
  shows "step_ok ctx J Q r"
  using assms by (cases r) (auto simp: step_ok_def split: outcome.splits)

interpretation safe_parser: loop_invariant x ctx "\<lambda>p. external_laws x \<and> context_ok ctx \<and> parser_ok ctx p" url_ok
  for x ctx
proof
  fix p
  assume *: "external_laws x \<and> context_ok ctx \<and> parser_ok ctx p"
  then have "round_ok ctx (run_state x ctx (current_code_point ctx p) p)"
    using external_laws.run_state_round by blast
  then show "step_ok ctx (\<lambda>p. external_laws x \<and> context_ok ctx \<and> parser_ok ctx p) url_ok
      (run_state x ctx (current_code_point ctx p) p)"
    by (rule step_ok_mono) (use * in blast)
qed

lemma initial_parser_ok: "parser_ok ctx (initial_parser empty_url State_SchemeStart e)"
  by (simp add: parser_ok_def builders_ok_def initial_parser_def state_simps fresh_def empty_url_def)

lemma basic_parse_ok:
  assumes "external_laws x" and "\<And>b. base = Some b \<Longrightarrow> url_ok b"
  shows "\<exists>ok u. basic_parse x raw_input base None None encoding = Inr (ok, u) \<and> (ok \<longrightarrow> url_ok u)"
proof -
  obtain raw where "trimmed_input raw_input = Inr raw" using trimmed_input_total by blast
  moreover obtain t where t: "process_input x raw = Inr t" "utf8_well_formed t"
    using external_laws.process_input_well_formed [OF assms(1)] by blast
  moreover have "context_ok \<lparr>input = t, base_url = base, state_override = None\<rparr>"
    using utf8_well_formed_no_overlong [OF t(2)] assms(2) by (simp add: context_ok_def split: option.splits)
  ultimately show ?thesis
    using safe_parser.parse_loop_ok [of x "\<lparr>input = t, base_url = base, state_override = None\<rparr>"]
      initial_parser_ok assms(1)
    by (simp add: basic_parse_def)
qed

lemma parse_url_ok:
  assumes "external_laws x" and "\<And>b. base = Some b \<Longrightarrow> url_ok b"
  shows "parse_url x raw_input base = Inl Failure \<or> (\<exists>u. parse_url x raw_input base = Inr u \<and> url_ok u)"
proof -
  obtain ok u where "basic_parse x raw_input base None None None = Inr (ok, u)" "ok \<longrightarrow> url_ok u"
    using basic_parse_ok [where base = base] assms by blast
  then show ?thesis by (simp add: parse_url_def)
qed

text \<open>
  C1: The URL parser is total and safe: for every sequence of bytes, every encoder of the query and every base
  URL that satisfies the URL invariant (or none) it ends without reaching an assertion, an index out of range
  or an access to an absent value, and a URL that it returns satisfies the invariant: a valid scheme, credentials
  and a port only with a non-empty host and never with the scheme \<open>file\<close>, no default port, a host and a path for
  every special scheme, an opaque path only without a host, no dot segments, and every component percent-encoded.
\<close>

theorem basic_parse_safe:
  assumes "external_laws x" and "case base of None \<Rightarrow> True | Some b \<Rightarrow> url_ok b"
  shows "\<exists>ok u. basic_parse x raw_input base None None encoding = Inr (ok, u) \<and> (ok \<longrightarrow> url_ok u)"
  using assms by (intro basic_parse_ok) auto

theorem basic_parse_safe_witness:
  "\<exists>ok u. basic_parse reference_ext ''http://a@b:80/c/../d?e#f'' (Some (about ''blank'')) None None None = Inr (ok, u)"
proof -
  have "url_ok (about ''blank'')"
    by (simp add: url_ok_def about_def empty_url_def opaque_url_ok_def opaque_path_text_def valid_scheme_def ak_defs
        is_special_def is_special_scheme_def special_schemes_def query_ok_def fragment_ok_def starts_with_char_def)
  then have "case Some (about ''blank'') of None \<Rightarrow> True | Some b \<Rightarrow> url_ok b" by simp
  from basic_parse_safe [OF reference.external_laws_axioms this] show ?thesis by blast
qed

end
