(* ===== verification/Parser_Runs.thy ===== *)
theory Parser_Runs
  imports Url_Parser_Safety
begin

text \<open>
  Runs of the URL parser over ASCII input: what the loop does on the bytes of each part of a serialized URL.
  \<open>run_at x base pre rest p\<close> is the loop that has read \<open>pre\<close> and has \<open>rest\<close> before it.
\<close>

subsection \<open>Steps\<close>

definition context_at :: "url option \<Rightarrow> string \<Rightarrow> parse_context" where
  "context_at base s = \<lparr>input = s, base_url = base, state_override = None\<rparr>"

definition run_at :: "ext \<Rightarrow> url option \<Rightarrow> string \<Rightarrow> string \<Rightarrow> parser \<Rightarrow> (bool \<times> url) result" where
  "run_at x base pre rest p = parse_loop x (context_at base (pre @ rest)) (p\<lparr>pointer := length pre\<rparr>)"

lemma context_at_simps [simp]:
  "input (context_at base s) = s" "base_url (context_at base s) = base" "state_override (context_at base s) = None"
  by (simp_all add: context_at_def)

text \<open>The code point at the position after \<open>pre\<close>.\<close>

definition next_code_point :: "string \<Rightarrow> code_point" where
  "next_code_point rest = (case rest of [] \<Rightarrow> end_of_file | b # _ \<Rightarrow> cp b)"

lemma next_code_point_simps [simp]:
  "next_code_point [] = end_of_file" "next_code_point (b # rest) = cp b"
  by (simp_all add: next_code_point_def)

lemma current_code_point_at:
  "ascii_string rest \<Longrightarrow>
   current_code_point (context_at base (pre @ rest)) (p\<lparr>pointer := length pre\<rparr>) = next_code_point rest"
  by (cases rest) (simp_all add: current_code_point_def utf8_deref_ascii)

lemma get_remaining_at:
  assumes "cp b < 0x80"
  shows "get_remaining (context_at base (pre @ b # rest)) (p\<lparr>pointer := length pre\<rparr>) = Inr rest"
proof -
  have "underlying_code_point_length_in_bytes b rest = 1"
    using assms by (simp add: underlying_code_point_length_in_bytes_def decode_leading_byte_eq)
  then show ?thesis
    by (simp add: get_remaining_def substring_view_from_def substring_view_def verify_def)
qed

lemma run_break_skip:
  assumes "ascii_string (t @ b # rest)"
    and "run_state x (context_at base (pre @ t @ b # rest)) (next_code_point (t @ b # rest)) (p\<lparr>pointer := length pre\<rparr>) =
      Inr (Break (q\<lparr>pointer := length pre + length t\<rparr>))"
  shows "run_at x base pre (t @ b # rest) p = run_at x base (pre @ t @ [b]) rest q"
proof -
  have "increment_iterator (context_at base (pre @ t @ b # rest)) (q\<lparr>pointer := length pre + length t\<rparr>) =
      Inr (q\<lparr>pointer := Suc (length pre + length t)\<rparr>)"
    using assms(1) by (simp add: increment_iterator_def utf8_advance_def)
  with assms show ?thesis
    using current_code_point_at [of "t @ b # rest" base pre p]
    by (simp add: run_at_def parse_loop.simps [of x _ "p\<lparr>pointer := length pre\<rparr>"] iterator_done_def)
qed

lemma run_break:
  assumes "ascii_string (b # rest)"
    and "run_state x (context_at base (pre @ b # rest)) (cp b) (p\<lparr>pointer := length pre\<rparr>) =
      Inr (Break (q\<lparr>pointer := length pre\<rparr>))"
  shows "run_at x base pre (b # rest) p = run_at x base (pre @ [b]) rest q"
  using run_break_skip [of "[]" b rest x base pre p q] assms by simp

lemma run_continue:
  assumes "ascii_string rest"
    and "run_state x (context_at base (pre @ rest)) (next_code_point rest) (p\<lparr>pointer := length pre\<rparr>) =
      Inr (Continue (q\<lparr>pointer := length pre\<rparr>))"
  shows "run_at x base pre rest p = run_at x base pre rest q"
  using assms
  by (simp add: run_at_def parse_loop.simps [of x _ "p\<lparr>pointer := length pre\<rparr>"] current_code_point_at)

lemma run_end:
  assumes "run_state x (context_at base pre) end_of_file (p\<lparr>pointer := length pre\<rparr>) =
      Inr (Break (q\<lparr>pointer := length pre\<rparr>))"
  shows "run_at x base pre [] p = Inr (True, parsed_url q)"
  using assms current_code_point_at [of "[]" base pre p]
  by (simp add: run_at_def parse_loop.simps [of x _ "p\<lparr>pointer := length pre\<rparr>"] iterator_done_def)

text \<open>A state that appends the bytes it reads to the buffer.\<close>

lemma run_buffer:
  assumes "\<And>pre b rest p. b \<in> set t \<Longrightarrow> ascii_string (b # rest) \<Longrightarrow> Z p \<Longrightarrow>
      run_at x base pre (b # rest) p = run_at x base (pre @ [b]) rest (p\<lparr>buffer := buffer p @ [b]\<rparr>)"
    and "\<And>p s. Z p \<Longrightarrow> Z (p\<lparr>buffer := s\<rparr>)"
  shows "ascii_string (t @ rest) \<Longrightarrow> Z p \<Longrightarrow>
    run_at x base pre (t @ rest) p = run_at x base (pre @ t) rest (p\<lparr>buffer := buffer p @ t\<rparr>)"
  using assms(1)
proof (induction t arbitrary: pre p)
  case (Cons b t)
  have "run_at x base (pre @ [b]) (t @ rest) (p\<lparr>buffer := buffer p @ [b]\<rparr>) =
      run_at x base ((pre @ [b]) @ t) rest (p\<lparr>buffer := buffer p @ [b], buffer := buffer (p\<lparr>buffer := buffer p @ [b]\<rparr>) @ t\<rparr>)"
    using Cons.prems assms(2) by (intro Cons.IH) auto
  with Cons.prems show ?case by simp
qed simp

subsection \<open>The scheme\<close>

lemma append_as_lowercase_unchanged:
  "\<not> is_ascii_upper_alpha (cp b) \<Longrightarrow> append_as_lowercase (cp b) = [b]"
  by (auto simp: append_as_lowercase_def ak_defs)

lemma run_scheme_start:
  assumes "ascii_string (b # rest)" "is_ascii_lower_alpha (cp b)" "state p = State_SchemeStart"
  shows "run_at x base pre (b # rest) p =
    run_at x base (pre @ [b]) rest (p\<lparr>buffer := buffer p @ [b], state := State_Scheme\<rparr>)"
  using assms
  by (intro run_break; cases p)
    (simp_all add: run_state_def scheme_start_state_def append_as_lowercase_unchanged ak_defs)

definition scheme_byte :: "char \<Rightarrow> bool" where
  "scheme_byte c = (is_ascii_lower_alpha (cp c) \<or> is_ascii_digit (cp c) \<or> c \<in> set ''+-.'')"

lemma run_scheme_byte:
  assumes "ascii_string (b # rest)" "scheme_byte b" "state p = State_Scheme"
  shows "run_at x base pre (b # rest) p = run_at x base (pre @ [b]) rest (p\<lparr>buffer := buffer p @ [b]\<rparr>)"
  using assms
  by (intro run_break; cases p)
    (auto simp: run_state_def scheme_state_def append_as_lowercase_def ak_defs scheme_byte_def char_of_eq_iff)

lemma run_scheme:
  assumes "ascii_string (s @ rest)" "valid_scheme s" "state p = State_SchemeStart" "buffer p = []"
  shows "run_at x base pre (s @ rest) p = run_at x base (pre @ s) rest (p\<lparr>buffer := s, state := State_Scheme\<rparr>)"
proof -
  obtain b t where s: "s = b # t" "is_ascii_lower_alpha (cp b)" "\<forall>c \<in> set t. scheme_byte c"
    using assms(2) by (auto simp: valid_scheme_def list_all_iff scheme_byte_def split: list.splits)
  let ?p = "p\<lparr>buffer := [b], state := State_Scheme\<rparr>"
  have "run_at x base (pre @ [b]) (t @ rest) ?p =
      run_at x base ((pre @ [b]) @ t) rest (?p\<lparr>buffer := buffer ?p @ t\<rparr>)"
    using assms(1) s by (intro run_buffer [where Z = "\<lambda>p. state p = State_Scheme"] run_scheme_byte) auto
  with s assms run_scheme_start [of b "t @ rest" p x base pre] show ?thesis by (cases p) simp
qed


subsection \<open>Query and fragment\<close>

definition fragment_text :: "string option \<Rightarrow> string" where
  "fragment_text f = (case f of None \<Rightarrow> [] | Some f \<Rightarrow> ''#'' @ f)"

definition query_text :: "string option \<Rightarrow> string" where
  "query_text q = (case q of None \<Rightarrow> [] | Some q \<Rightarrow> ''?'' @ q)"

context external_laws
begin

lemma percent_encode_after_encoding_unchanged:
  assumes "clean es s"
  shows "percent_encode_after_encoding x utf8_encoder s es False = Inr s"
proof -
  have "encode_calls es False (map On_byte s) = Inr s"
    using assms
  proof (induction s)
    case (Cons b s)
    then have "cp b \<le> 0x7E" using clean_byte [of es b] by simp
    with Cons show ?case by (simp add: append_code_point_ascii del: code_point_is_in_percent_encode_set.simps)
  qed simp
  then show ?thesis
    using clean_ascii [OF assms]
    by (simp add: percent_encode_after_encoding_def utf8_encoder_def must_def string_from_utf8_ascii)
qed

lemma run_fragment_byte:
  assumes "ascii_string (b # rest)" "state p = State_Fragment"
  shows "run_at x base pre (b # rest) p = run_at x base (pre @ [b]) rest (p\<lparr>buffer := buffer p @ [b]\<rparr>)"
  using assms
  by (intro run_break; cases p)
    (simp_all add: run_state_def fragment_state_def append_code_point_ascii end_of_file_def)

lemma run_fragment:
  assumes "clean FragmentSet f" "state p = State_Fragment" "buffer p = []"
  shows "run_at x base pre f p = Inr (True, (parsed_url p)\<lparr>fragment := Some f\<rparr>)"
proof -
  have "run_at x base pre (f @ []) p = run_at x base (pre @ f) [] (p\<lparr>buffer := buffer p @ f\<rparr>)"
    using assms clean_ascii [OF assms(1)]
    by (intro run_buffer [where Z = "\<lambda>p. state p = State_Fragment"] run_fragment_byte) auto
  also have "\<dots> = Inr (True, parsed_url (p\<lparr>buffer := [], parsed_url := (parsed_url p)\<lparr>fragment := Some f\<rparr>\<rparr>))"
    using assms
    by (intro run_end; cases p)
      (simp add: run_state_def fragment_state_def percent_encode_after_encoding_unchanged on_url_def)
  finally show ?thesis by simp
qed

lemma run_query_byte:
  assumes "ascii_string (b # rest)" "b \<noteq> CHR ''#''" "state p = State_Query" "query_encoder p = utf8_encoder"
  shows "run_at x base pre (b # rest) p = run_at x base (pre @ [b]) rest (p\<lparr>buffer := buffer p @ [b]\<rparr>)"
  using assms cp_eq_iff [of b "CHR ''#''"]
  by (intro run_break; cases p)
    (auto simp: run_state_def query_state_def append_code_point_ascii end_of_file_def Let_def)

lemma query_state_end:
  assumes "clean (if is_special (parsed_url p) then SpecialQuery else QuerySet) (buffer p)"
    and "query_encoder p = utf8_encoder" "state_override ctx = None"
  shows "query_state x ctx end_of_file p =
      Inr (Break (on_url (\<lambda>u. u\<lparr>query := Some (buffer p)\<rparr>) (p\<lparr>buffer := []\<rparr>)))"
    and "query_state x ctx (cp CHR ''#'') p =
      Inr (Break (on_url (\<lambda>u. u\<lparr>query := Some (buffer p), fragment := Some []\<rparr>) (p\<lparr>buffer := [], state := State_Fragment\<rparr>)))"
proof -
  have *: "(if c then p\<lparr>query_encoder := utf8_encoder\<rparr> else p) = p" for c using assms(2) by (cases p) simp
  show "query_state x ctx end_of_file p =
      Inr (Break (on_url (\<lambda>u. u\<lparr>query := Some (buffer p)\<rparr>) (p\<lparr>buffer := []\<rparr>)))"
    using assms unfolding query_state_def * by (simp add: percent_encode_after_encoding_unchanged end_of_file_def)
  show "query_state x ctx (cp CHR ''#'') p =
      Inr (Break (on_url (\<lambda>u. u\<lparr>query := Some (buffer p), fragment := Some []\<rparr>) (p\<lparr>buffer := [], state := State_Fragment\<rparr>)))"
    using assms unfolding query_state_def * by (simp add: percent_encode_after_encoding_unchanged on_url_def)
qed

lemma run_query:
  assumes "clean (if is_special (parsed_url p) then SpecialQuery else QuerySet) q" "pred_option (clean FragmentSet) f"
    and "state p = State_Query" "buffer p = []" "query_encoder p = utf8_encoder" "fragment (parsed_url p) = None"
  shows "run_at x base pre (q @ fragment_text f) p = Inr (True, (parsed_url p)\<lparr>query := Some q, fragment := f\<rparr>)"
proof -
  have "CHR ''#'' \<notin> set q"
    using assms(1) by (auto simp: clean_def list_all_iff contains_char_def split: if_splits)
  moreover have f: "ascii_string (fragment_text f)"
    using assms(2) clean_ascii by (auto simp: fragment_text_def split: option.splits)
  ultimately have "run_at x base pre (q @ fragment_text f) p =
      run_at x base (pre @ q) (fragment_text f) (p\<lparr>buffer := buffer p @ q\<rparr>)"
    using assms clean_ascii [OF assms(1)]
    by (intro run_buffer [where Z = "\<lambda>p. state p = State_Query \<and> query_encoder p = utf8_encoder"] run_query_byte) auto
  also have "\<dots> = Inr (True, (parsed_url p)\<lparr>query := Some q, fragment := f\<rparr>)"
  proof (cases f)
    case None
    have "run_at x base (pre @ q) [] (p\<lparr>buffer := buffer p @ q\<rparr>) =
        Inr (True, parsed_url (p\<lparr>buffer := [], parsed_url := (parsed_url p)\<lparr>query := Some q\<rparr>\<rparr>))"
      using assms by (intro run_end) (simp add: run_state_def query_state_end on_url_def)
    with None assms(6) show ?thesis by (cases "parsed_url p") (simp add: fragment_text_def)
  next
    case (Some g)
    have "run_at x base (pre @ q) (CHR ''#'' # g) (p\<lparr>buffer := buffer p @ q\<rparr>) =
        run_at x base (pre @ q @ ''#'') g (p\<lparr>buffer := [], state := State_Fragment,
          parsed_url := (parsed_url p)\<lparr>query := Some q, fragment := Some []\<rparr>\<rparr>)"
      using assms f Some query_state_end(2) [of "p\<lparr>pointer := length (pre @ q), buffer := q\<rparr>"] unfolding append_assoc [symmetric]
      by (intro run_break; cases p) (simp_all add: run_state_def on_url_def fragment_text_def)
    with Some assms(2) show ?thesis by (simp add: fragment_text_def run_fragment)
  qed
  finally show ?thesis .
qed

end

text \<open>
  A position before the query and the fragment: \<open>u\<close> is the URL when the input ends here, and a question mark or
  a number sign starts the query or the fragment.
\<close>

definition starts_part :: "state \<Rightarrow> url \<Rightarrow> parser \<Rightarrow> bool" where
  "starts_part s u p = (state p = s \<and> parsed_url p = u \<and> buffer p = [] \<and> query_encoder p = utf8_encoder)"

definition tail_start :: "ext \<Rightarrow> url option \<Rightarrow> parser \<Rightarrow> url \<Rightarrow> bool" where
  "tail_start x base p u \<longleftrightarrow>
     (\<forall>pre. run_at x base pre [] p = Inr (True, u)) \<and>
     (\<forall>pre rest. ascii_string rest \<longrightarrow>
        (\<exists>q. starts_part State_Query (u\<lparr>query := Some []\<rparr>) q \<and>
             run_at x base pre (CHR ''?'' # rest) p = run_at x base (pre @ ''?'') rest q) \<and>
        (\<exists>q. starts_part State_Fragment (u\<lparr>fragment := Some []\<rparr>) q \<and>
             run_at x base pre (CHR ''#'' # rest) p = run_at x base (pre @ ''#'') rest q))"

lemma tail_startI:
  assumes "\<And>s n. run_state x (context_at base s) end_of_file (p\<lparr>pointer := n\<rparr>) = Inr (Break (r\<lparr>pointer := n\<rparr>))"
    and "\<And>s n. run_state x (context_at base s) (cp CHR ''?'') (p\<lparr>pointer := n\<rparr>) = Inr (Break (q\<lparr>pointer := n\<rparr>))"
    and "\<And>s n. run_state x (context_at base s) (cp CHR ''#'') (p\<lparr>pointer := n\<rparr>) = Inr (Break (f\<lparr>pointer := n\<rparr>))"
    and "parsed_url r = u" "starts_part State_Query (u\<lparr>query := Some []\<rparr>) q"
    and "starts_part State_Fragment (u\<lparr>fragment := Some []\<rparr>) f"
  shows "tail_start x base p u"
  unfolding tail_start_def
proof (intro conjI allI impI)
  fix pre rest :: string
  show "run_at x base pre [] p = Inr (True, u)" using run_end [OF assms(1)] assms(4) by simp
  assume "ascii_string rest"
  then have "run_at x base pre (CHR ''?'' # rest) p = run_at x base (pre @ ''?'') rest q"
    "run_at x base pre (CHR ''#'' # rest) p = run_at x base (pre @ ''#'') rest f"
    using run_break [OF _ assms(2)] run_break [OF _ assms(3)] by simp_all
  with assms(5,6) show "\<exists>q. starts_part State_Query (u\<lparr>query := Some []\<rparr>) q \<and>
      run_at x base pre (CHR ''?'' # rest) p = run_at x base (pre @ ''?'') rest q"
    "\<exists>q. starts_part State_Fragment (u\<lparr>fragment := Some []\<rparr>) q \<and>
      run_at x base pre (CHR ''#'' # rest) p = run_at x base (pre @ ''#'') rest q"
    by blast+
qed

definition tail_text :: "url \<Rightarrow> string" where
  "tail_text u = query_text (query u) @ fragment_text (fragment u)"

lemma tail_text_ascii: "query_ok u \<Longrightarrow> fragment_ok u \<Longrightarrow> ascii_string (tail_text u)"
  by (auto simp: tail_text_def query_text_def fragment_text_def query_ok_def fragment_ok_def
      dest: clean_ascii split: option.splits)

context external_laws
begin

lemma run_tail:
  assumes "tail_start x base p (u\<lparr>query := None, fragment := None\<rparr>)" "query_ok u" "fragment_ok u"
  shows "run_at x base pre (tail_text u) p = Inr (True, u)"
proof (cases "query u")
  case None
  show ?thesis
  proof (cases "fragment u")
    case None
    with assms \<open>query u = None\<close> show ?thesis
      by (cases u) (simp add: tail_text_def tail_start_def query_text_def fragment_text_def)
  next
    case (Some f)
    then have "clean FragmentSet f" using assms(3) by (simp add: fragment_ok_def)
    with clean_ascii assms(1) obtain q where
      "starts_part State_Fragment (u\<lparr>query := None, fragment := Some []\<rparr>) q"
      "run_at x base pre (CHR ''#'' # f) p = run_at x base (pre @ ''#'') f q"
      unfolding tail_start_def by fastforce
    with Some None \<open>clean FragmentSet f\<close> show ?thesis
      by (cases u) (simp add: tail_text_def query_text_def fragment_text_def starts_part_def run_fragment)
  qed
next
  case (Some t)
  let ?rest = "t @ fragment_text (fragment u)"
  have q: "clean (if is_special u then SpecialQuery else QuerySet) t" using Some assms(2) by (simp add: query_ok_def)
  have f: "pred_option (clean FragmentSet) (fragment u)" using assms(3) by (auto simp: fragment_ok_def split: option.splits)
  have "ascii_string ?rest"
    using tail_text_ascii [OF assms(2,3)] Some by (simp add: tail_text_def query_text_def)
  with assms(1) obtain q where
    "starts_part State_Query (u\<lparr>query := None, fragment := None, query := Some []\<rparr>) q"
    "run_at x base pre (CHR ''?'' # ?rest) p = run_at x base (pre @ ''?'') ?rest q"
    unfolding tail_start_def by blast
  then show ?thesis
    using run_query [of q t "fragment u"] q f Some
    by (cases u) (simp add: tail_text_def query_text_def starts_part_def is_special_def)
qed

end

subsection \<open>The path\<close>

definition path_text :: "string list \<Rightarrow> string" where
  "path_text ss = concat (map (\<lambda>s. ''/'' @ s) ss)"

lemma path_text_simps [simp]: "path_text [] = []" "path_text (s # ss) = CHR ''/'' # s @ path_text ss"
  by (simp_all add: path_text_def)

text \<open>The first segment of the path of a file URL is kept when it is a drive letter only if it is normalized.\<close>

definition keeps_drive :: "url \<Rightarrow> string \<Rightarrow> bool" where
  "keeps_drive u s =
     (scheme u = ''file'' \<and> paths u = [] \<and> is_windows_drive_letter s \<longrightarrow> is_normalized_windows_drive_letter s)"

lemma drive_letter_unchanged: "is_normalized_windows_drive_letter s \<Longrightarrow> [s ! 0, CHR '':''] = s"
  by (auto simp: is_normalized_windows_drive_letter_def numeral_2_eq_2 length_Suc_conv)

lemma end_path_segment_kept:
  assumes "segment_ok special s" "keeps_drive u s"
  shows "end_path_segment slash s u = Inr (u\<lparr>paths := paths u @ [s]\<rparr>)"
  using assms drive_letter_unchanged [of s]
  by (auto simp: end_path_segment_def segment_ok_def keeps_drive_def Let_def)

lemma segment_text_ascii: "segment_text special s \<Longrightarrow> ascii_string s"
  using clean_ascii by (auto simp: segment_text_def)

lemma path_text_ascii: "list_all (segment_ok special) ss \<Longrightarrow> ascii_string (path_text ss)"
  using segment_text_ascii by (induction ss) (auto simp: segment_ok_def)

lemma run_path_byte:
  assumes "ascii_string (b # rest)" "segment_text (is_special (parsed_url p)) [b]" "state p = State_Path"
  shows "run_at x base pre (b # rest) p = run_at x base (pre @ [b]) rest (p\<lparr>buffer := buffer p @ [b]\<rparr>)"
proof -
  have b: "cp b \<noteq> cp CHR ''/''" "cp b \<noteq> cp CHR ''?''" "cp b \<noteq> cp CHR ''#''"
    "is_special (parsed_url p) \<Longrightarrow> cp b \<noteq> cp CHR 0x5C" "cp b \<noteq> end_of_file"
    "\<not> code_point_is_in_percent_encode_set (cp b) PathSet"
    using assms(1,2) by (auto simp: segment_text_def contains_char_def end_of_file_def simp del: of_char_Char)
  then have "append_percent_encoded_if_necessary (cp b) PathSet = Inr [b]"
    using assms(1) by (simp add: append_percent_encoded_if_necessary_eq percent_encoded_char_def append_code_point_ascii
        del: code_point_is_in_percent_encode_set.simps)
  with b assms show ?thesis
    by (intro run_break; cases p) (simp_all add: run_state_def path_state_def)
qed

lemma run_segment:
  assumes "ascii_string (s @ rest)" "segment_text (is_special (parsed_url p)) s" "state p = State_Path"
  shows "run_at x base pre (s @ rest) p = run_at x base (pre @ s) rest (p\<lparr>buffer := buffer p @ s\<rparr>)"
proof -
  have "segment_text (is_special (parsed_url p)) [b]" if "b \<in> set s" for b
    using assms(2) that by (auto simp: segment_text_def clean_def list_all_iff)
  then show ?thesis
    using assms
    by (intro run_buffer [where Z = "\<lambda>q. state q = State_Path \<and> parsed_url q = parsed_url p"] run_path_byte) auto
qed

lemma run_slash:
  assumes "ascii_string rest" "segment_ok special (buffer p)" "keeps_drive (parsed_url p) (buffer p)" "state p = State_Path"
  shows "run_at x base pre (CHR ''/'' # rest) p = run_at x base (pre @ ''/'') rest
      (p\<lparr>parsed_url := (parsed_url p)\<lparr>paths := paths (parsed_url p) @ [buffer p]\<rparr>, buffer := []\<rparr>)"
  using assms end_path_segment_kept [OF assms(2,3)]
  by (intro run_break; cases p) (simp_all add: run_state_def path_state_def)

lemma tail_start_path:
  assumes "segment_ok special (buffer p)" "keeps_drive (parsed_url p) (buffer p)" "state p = State_Path"
    and "query_encoder p = utf8_encoder"
  shows "tail_start x base p ((parsed_url p)\<lparr>paths := paths (parsed_url p) @ [buffer p]\<rparr>)"
proof -
  let ?u = "(parsed_url p)\<lparr>paths := paths (parsed_url p) @ [buffer p]\<rparr>"
  note * = end_path_segment_kept [OF assms(1,2)] and d = run_state_def path_state_def on_url_def starts_part_def
  show ?thesis
    by (rule tail_startI [where r = "p\<lparr>parsed_url := ?u, buffer := []\<rparr>"
          and q = "p\<lparr>parsed_url := ?u\<lparr>query := Some []\<rparr>, buffer := [], state := State_Query\<rparr>"
          and f = "p\<lparr>parsed_url := ?u\<lparr>fragment := Some []\<rparr>, buffer := [], state := State_Fragment\<rparr>"])
      (use assms(3,4) * in \<open>cases p; simp add: d end_of_file_def\<close>)+
qed

context external_laws
begin

lemma run_path:
  assumes "state p = State_Path" "buffer p = []" "query_encoder p = utf8_encoder"
    and "list_all (segment_ok (is_special (parsed_url p))) (s # ss)" "keeps_drive (parsed_url p) s"
    and "u\<lparr>query := None, fragment := None\<rparr> = (parsed_url p)\<lparr>paths := paths (parsed_url p) @ s # ss\<rparr>"
    and "query_ok u" "fragment_ok u"
  shows "run_at x base pre (s @ path_text ss @ tail_text u) p = Inr (True, u)"
  using assms(1-6)
proof (induction ss arbitrary: pre p s)
  case Nil
  let ?p = "p\<lparr>buffer := s\<rparr>"
  have tail: "ascii_string (tail_text u)" using tail_text_ascii assms(7,8) by blast
  have "tail_start x base ?p (u\<lparr>query := None, fragment := None\<rparr>)"
    using Nil.prems tail_start_path [of _ ?p] by simp
  then have "run_at x base (pre @ s) (tail_text u) ?p = Inr (True, u)"
    using run_tail assms(7,8) by blast
  with Nil.prems tail run_segment [of s "tail_text u" p x base pre] show ?case
    by (simp add: segment_ok_def segment_text_ascii)
next
  case (Cons t ss)
  let ?rest = "t @ path_text ss @ tail_text u"
  let ?u = "(parsed_url p)\<lparr>paths := paths (parsed_url p) @ [s]\<rparr>"
  have segs: "list_all (segment_ok (is_special ?u)) (t # ss)" "segment_ok (is_special (parsed_url p)) s"
    using Cons.prems(4) by (simp_all add: is_special_def)
  then have rest: "ascii_string ?rest" "ascii_string s"
    using path_text_ascii [of _ "t # ss"] tail_text_ascii [OF assms(7,8)] segment_text_ascii
    by (auto simp: segment_ok_def)
  then have "run_at x base pre (s @ path_text (t # ss) @ tail_text u) p =
      run_at x base (pre @ s) (CHR ''/'' # ?rest) (p\<lparr>buffer := s\<rparr>)"
    using Cons.prems segs(2) run_segment [of s "CHR ''/'' # ?rest" p x base pre] by (simp add: segment_ok_def)
  also have "\<dots> = run_at x base (pre @ s @ ''/'') ?rest (p\<lparr>parsed_url := ?u, buffer := []\<rparr>)"
    using Cons.prems segs(2)
      run_slash [of ?rest "is_special (parsed_url p)" "p\<lparr>buffer := s\<rparr>" x base "pre @ s"] rest(1) by simp
  also have "\<dots> = Inr (True, u)"
    using Cons.prems segs(1) by (intro Cons.IH) (auto simp: keeps_drive_def)
  finally show ?case .
qed

end

end
