(* ===== verification/Host_Roundtrip.thy ===== *)
theory Host_Roundtrip
  imports Url_Invariant
begin

text \<open>Hosts are read back: the host parser returns the host whose serialization it is given.\<close>

subsection \<open>The text of a host\<close>

text \<open>The text of a host: brackets only at both ends, a colon only between them, and no delimiter of the path.\<close>

definition host_byte :: "bool \<Rightarrow> char \<Rightarrow> bool" where
  "host_byte special b = (b \<notin> set ''/?#[]@'' \<and> (special \<longrightarrow> b \<noteq> CHR 0x5C))"

definition host_text :: "bool \<Rightarrow> string \<Rightarrow> bool" where
  "host_text special s =
     (ascii_string s \<and>
      (list_all (\<lambda>b. host_byte special b \<and> b \<noteq> CHR '':'') s \<or>
       (\<exists>t. s = ''['' @ t @ '']'' \<and> list_all (host_byte special) t)))"

lemma host_text_byte:
  assumes "host_text special s" "b \<in> set s"
  shows "b \<notin> set ''/?#@'' \<and> (special \<longrightarrow> b \<noteq> CHR 0x5C)"
proof -
  consider "host_byte special b" | "b = CHR ''[''" | "b = CHR '']''"
    using assms unfolding host_text_def list_all_iff by fastforce
  then show ?thesis by cases (simp_all add: host_byte_def)
qed

lemma serialize_ipv6_loop_bytes:
  "serialize_ipv6_loop a c ignore ps = Inr out \<Longrightarrow> b \<in> set out \<Longrightarrow> is_ascii_hex_digit (cp b) \<or> b = CHR '':''"
proof (induction a c ignore ps arbitrary: out rule: serialize_ipv6_loop.induct)
  case (2 a c ignore p ps)
  then show ?case
    using number_digits_hex [of 16 b False]
    by (auto simp: bind_result_eq_Inr format_hex_eq split: if_splits)
qed simp

lemma ipv6_host_text:
  assumes "serialize_ipv6_address a = Inr out"
  shows "host_text special (''['' @ out @ '']'')"
proof -
  have b: "is_ascii_hex_digit (cp b) \<or> b = CHR '':''" if "b \<in> set out" for b
    using that assms serialize_ipv6_loop_bytes unfolding serialize_ipv6_address_def by blast
  have "host_byte special b" "cp b < 0x80" if "b \<in> set out" for b
    using b [OF that] by (auto simp: host_byte_def ak_defs)
  then show ?thesis by (auto simp: host_text_def list_all_iff ascii_string_def)
qed

lemma string_host_text:
  assumes "ascii_string s" "list_all (\<lambda>b. \<not> forbidden_host (cp b)) s"
  shows "host_text special s"
  using assms
  by (fastforce simp: host_text_def list_all_iff host_byte_def ascii_string_def forbidden_host_def forbidden_host_bytes_def)

definition decimal_text :: "string \<Rightarrow> bool" where
  "decimal_text s = list_all (\<lambda>b. is_ascii_digit (cp b) \<or> b = CHR ''.'') s"

lemma dotted_decimal_text:
  "decimal_text (number_digits 10 False a @ ''.'' @ number_digits 10 False b @ ''.'' @
     number_digits 10 False c @ ''.'' @ number_digits 10 False d)"
  using number_digits_decimal by (auto simp: decimal_text_def list_all_iff)

lemma decimal_text_byte:
  assumes "decimal_text s" "b \<in> set s"
  shows "cp b < 0x80" "\<not> forbidden_domain (cp b)" "to_ascii_lowercase (cp b) = cp b" "b \<noteq> CHR ''%''"
proof -
  have "b = CHR ''.'' \<or> (0x30 \<le> cp b \<and> cp b \<le> 0x39)" using assms by (auto simp: decimal_text_def list_all_iff ak_defs)
  then show "cp b < 0x80" "\<not> forbidden_domain (cp b)" "to_ascii_lowercase (cp b) = cp b" "b \<noteq> CHR ''%''"
    by (auto simp: forbidden_domain_def forbidden_host_def forbidden_host_bytes_def ak_defs to_ascii_lowercase_def)
qed

subsection \<open>Reading a host back\<close>

text \<open>The name that domain to ASCII keeps, and that is not the text of a number.\<close>

definition domain_stable :: "ext \<Rightarrow> string \<Rightarrow> bool" where
  "domain_stable x s = (domain_to_ascii x s False = Inr s \<and> ends_in_a_number_checker s = Inr False)"

definition host_stable :: "ext \<Rightarrow> bool \<Rightarrow> host \<Rightarrow> bool" where
  "host_stable x special h = (case h of Host_String s \<Rightarrow> special \<and> s \<noteq> [] \<longrightarrow> domain_stable x s | _ \<Rightarrow> True)"

context external_laws
begin

lemma parse_host_domain:
  assumes "s \<noteq> []" "CHR ''%'' \<notin> set s" "list_all (\<lambda>b. \<not> forbidden_domain (cp b)) s"
    and "domain_to_ascii x s False = Inr s" "ends_in_a_number_checker s = Inr n"
  shows "parse_host x s False =
    (if n then bind_result (parse_ipv4_address x s) (\<lambda>a. Inr (Host_IPv4 a)) else Inr (Host_String s))"
proof -
  have "\<not> starts_with_char s CHR ''[''"
    using assms(1,3) by (cases s) (auto simp: starts_with_char_def forbidden_domain_def forbidden_host_def forbidden_host_bytes_def)
  moreover have "\<not> list_ex forbidden_domain (map cp s)" using assms(3) by (auto simp: list_ex_iff list_all_iff)
  ultimately show ?thesis
    using assms
    by (simp add: parse_host_def percent_decode_eq percent_decoded_no_percent any_code_point_eq [OF forbidden_eq(2)] verify_def)
qed

lemma parse_host_ipv4:
  assumes "serialize_ipv4_address a = Inr s"
  shows "s \<noteq> []" "host_text True s" "parse_host x s False = Inr (Host_IPv4 a)"
proof -
  obtain d1 d2 d3 d4 where s: "s = number_digits 10 False d1 @ ''.'' @ number_digits 10 False d2 @ ''.'' @
     number_digits 10 False d3 @ ''.'' @ number_digits 10 False d4"
    using assms by (auto simp: serialize_ipv4_address_def Let_def format_dotted_eq)
  then have dec: "decimal_text s" using dotted_decimal_text by simp
  have split: "split_on CHR ''.'' s = map (number_digits 10 False) [d1, d2, d3, d4]" using split_dotted s by simp
  show "s \<noteq> []" using s by simp
  have ascii: "ascii_string s" using decimal_text_byte(1) [OF dec] by (auto simp: ascii_string_def list_all_iff)
  have forbidden: "list_all (\<lambda>b. \<not> forbidden_domain (cp b)) s" using decimal_text_byte(2) [OF dec] by (auto simp: list_all_iff)
  then show "host_text True s" using ascii by (intro string_host_text) (auto simp: list_all_iff forbidden_domain_def)
  have "\<not> starts_with (number_digits 10 False d) ''xn--'' CaseInsensitive" for d
    using number_digits_decimal [of "hd (number_digits 10 False d)" d]
    by (cases "number_digits 10 False d")
      (auto simp: starts_with_def same_ascii_lowercase_def to_ascii_lowercase_def ak_defs)
  then have "\<not> list_ex (\<lambda>part. starts_with part ''xn--'' CaseInsensitive) (filter (\<lambda>p. p \<noteq> []) (split_on CHR ''.'' s))"
    by (simp add: split)
  moreover have "map (\<lambda>b. char_of (to_ascii_lowercase (cp b))) s = s"
    using decimal_text_byte(3) [OF dec] by (simp add: map_idI)
  ultimately have dom: "domain_to_ascii x s False = Inr s"
    using ascii \<open>s \<noteq> []\<close> unfolding domain_to_ascii_def is_ascii_view_eq split_view_byte_nonempty
    by (simp add: to_ascii_lowercase_string_eq)
  have num: "ends_in_a_number_checker s = Inr True"
    using \<open>s \<noteq> []\<close> number_digits_decimal
    unfolding ends_in_a_number_checker_def split_view_byte split by (simp add: verify_def list_all_iff)
  have "parse_ipv4_address x s = Inr a" using parse_serialize_ipv4 [of a] assms by simp
  then show "parse_host x s False = Inr (Host_IPv4 a)"
    using parse_host_domain [OF \<open>s \<noteq> []\<close> _ forbidden dom num] decimal_text_byte(4) [OF dec] by auto
qed

lemma parse_host_serialized:
  assumes "url_host_ok sch h" "host_stable x (is_special_scheme sch) h"
  shows "\<exists>s. host_serialize h = Inr s \<and> host_text (is_special_scheme sch) s \<and> (s = [] \<longleftrightarrow> is_empty_host h) \<and>
    (is_special_scheme sch \<longrightarrow> s \<noteq> [] \<longrightarrow> parse_host x s False = Inr h) \<and>
    (\<not> is_special_scheme sch \<longrightarrow> parse_host x s True = Inr h)"
proof (cases h)
  case (Host_IPv4 a)
  then have special: "is_special_scheme sch" using assms(1) by (auto simp: url_host_ok_def host_ok_def is_empty_host_def)
  obtain s where "serialize_ipv4_address a = Inr s"
    using parse_serialize_ipv4 [of a] by (auto simp: bind_result_eq_Inr)
  with Host_IPv4 special parse_host_ipv4 [OF this] show ?thesis by (simp add: host_serialize_def is_empty_host_def)
next
  case (Host_IPv6 a)
  then have "length a = 16" using assms(1) by (auto simp: url_host_ok_def host_ok_def is_empty_host_def)
  then obtain s where s: "serialize_ipv6_address a = Inr s" "parse_ipv6_address s = Inr a"
    using parse_serialize_ipv6 [of a] by (auto simp: bind_result_eq_Inr)
  then have "parse_host x (''['' @ s @ '']'') opaque = Inr h" for opaque
    using Host_IPv6
    by (simp add: parse_host_def starts_with_char_def ends_with_char_def substring_view_def verify_def)
  with Host_IPv6 s ipv6_host_text [OF s(1)] show ?thesis by (simp add: host_serialize_def is_empty_host_def)
next
  case (Host_String s)
  show ?thesis
  proof (cases "is_special_scheme sch")
    case True
    show ?thesis
    proof (cases "s = []")
      case False
      then have s: "ascii_string s" "list_all (\<lambda>b. \<not> forbidden_domain (cp b)) s"
        using assms(1) Host_String True by (auto simp: url_host_ok_def host_ok_def is_empty_host_def)
      moreover have "CHR ''%'' \<notin> set s" "list_all (\<lambda>b. \<not> forbidden_host (cp b)) s"
        using s(2) by (auto simp: list_all_iff forbidden_domain_def)
      ultimately have "parse_host x s False = Inr h"
        using parse_host_domain [OF False] assms(2) Host_String True False
        by (auto simp: host_stable_def domain_stable_def)
      then show ?thesis
        using Host_String False True string_host_text [OF s(1) \<open>list_all (\<lambda>b. \<not> forbidden_host (cp b)) s\<close>]
        by (simp add: host_serialize_def is_empty_host_def)
    qed (use Host_String True in \<open>simp add: host_serialize_def is_empty_host_def host_text_def\<close>)
  next
    case False
    then have s: "ascii_string s" "list_all (\<lambda>b. \<not> forbidden_host (cp b)) s" "clean C0Control s"
      using assms(1) Host_String by (auto simp: url_host_ok_def host_ok_def is_empty_host_def split: if_splits)
    have "\<not> starts_with_char s CHR ''[''"
      using s(2) by (cases s) (auto simp: starts_with_char_def forbidden_host_def forbidden_host_bytes_def)
    moreover have "\<not> list_ex forbidden_host (utf8_code_points s)"
      using s(1,2) by (simp add: utf8_code_points_ascii ascii_string_def list_ex_iff list_all_iff)
    moreover have "percent_encoded C0Control SpaceAsPlus_No (utf8_code_points s) = s"
      using s(3) by (intro percent_encoded_unchanged) (simp add: clean_def list_all_iff)
    ultimately have "parse_host x s True = Inr h"
      using Host_String by (simp add: parse_host_def parse_opaque_host_eq)
    then show ?thesis
      using Host_String False string_host_text [OF s(1,2)] by (simp add: host_serialize_def is_empty_host_def)
  qed
qed

end

end
