(* ===== verification/Authority_Runs.thy ===== *)
theory Authority_Runs
  imports Parser_Runs Host_Roundtrip
begin

text \<open>
  Runs of the URL parser over the part of a serialized URL that follows the scheme: credentials, host, port and
  path, up to the end of the input.
\<close>

subsection \<open>Port and path\<close>

definition host_stop :: "string \<Rightarrow> bool" where
  "host_stop rest = (case rest of [] \<Rightarrow> True | b # _ \<Rightarrow> b \<in> set ''/?#'')"

lemma host_stop_path: "host_stop (path_text ss @ tail_text u)"
  by (cases ss) (auto simp: host_stop_def tail_text_def query_text_def fragment_text_def split: option.splits)

lemma host_stop_code_point:
  "host_stop rest \<Longrightarrow> next_code_point rest \<in> {end_of_file, cp CHR ''/'', cp CHR ''?'', cp CHR ''#''}"
  by (auto simp: host_stop_def split: list.splits)

lemma tail_start_path_start:
  assumes "state p = State_PathStart" "buffer p = []" "query_encoder p = utf8_encoder" "\<not> is_special (parsed_url p)"
  shows "tail_start x base p (parsed_url p)"
  by (rule tail_startI [where r = p
        and q = "p\<lparr>parsed_url := (parsed_url p)\<lparr>query := Some []\<rparr>, state := State_Query\<rparr>"
        and f = "p\<lparr>parsed_url := (parsed_url p)\<lparr>fragment := Some []\<rparr>, state := State_Fragment\<rparr>"])
    (use assms in \<open>cases p; simp add: run_state_def path_start_state_def on_url_def starts_part_def end_of_file_def\<close>)+

context external_laws
begin

lemma run_path_start:
  assumes "state p = State_PathStart" "buffer p = []" "query_encoder p = utf8_encoder" "paths (parsed_url p) = []"
    and "list_all (segment_ok (is_special (parsed_url p))) ss" "is_special (parsed_url p) \<Longrightarrow> ss \<noteq> []"
    and "\<And>s ts. ss = s # ts \<Longrightarrow> keeps_drive (parsed_url p) s"
    and "u\<lparr>query := None, fragment := None\<rparr> = (parsed_url p)\<lparr>paths := ss\<rparr>" "query_ok u" "fragment_ok u"
  shows "run_at x base pre (path_text ss @ tail_text u) p = Inr (True, u)"
proof (cases ss)
  case Nil
  then have "u\<lparr>query := None, fragment := None\<rparr> = parsed_url p" using assms(4,8) by (cases "parsed_url p") simp
  moreover have "tail_start x base p (parsed_url p)" using assms Nil by (intro tail_start_path_start) auto
  ultimately show ?thesis using run_tail [of base p u] assms(9,10) Nil by simp
next
  case (Cons s ts)
  let ?rest = "s @ path_text ts @ tail_text u"
  have "ascii_string (path_text ss)" using assms(5) path_text_ascii by blast
  then have "ascii_string (CHR ''/'' # ?rest)" using Cons tail_text_ascii [OF assms(9,10)] by simp
  then have "run_at x base pre (CHR ''/'' # ?rest) p = run_at x base (pre @ ''/'') ?rest (p\<lparr>state := State_Path\<rparr>)"
    using assms(1)
    by (intro run_break; cases p) (simp_all add: run_state_def path_start_state_def Let_def end_of_file_def)
  also have "\<dots> = Inr (True, u)"
    using assms Cons by (intro run_path) auto
  finally show ?thesis using Cons by simp
qed

lemma run_port_none:
  assumes "ascii_string rest" "host_stop rest" "state p = State_Port" "buffer p = []"
  shows "run_at x base pre rest p = run_at x base pre rest (p\<lparr>state := State_PathStart\<rparr>)"
proof -
  have "\<not> is_ascii_digit (next_code_point rest)"
    using host_stop_code_point [OF assms(2)] by (auto simp: ak_defs end_of_file_def)
  then show ?thesis
    using assms host_stop_code_point [OF assms(2)]
    by (intro run_continue; cases p) (auto simp: run_state_def port_state_def)
qed

lemma run_port_byte:
  assumes "ascii_string (b # rest)" "is_ascii_digit (cp b)" "state p = State_Port"
  shows "run_at x base pre (b # rest) p = run_at x base (pre @ [b]) rest (p\<lparr>buffer := buffer p @ [b]\<rparr>)"
  using assms
  by (intro run_break; cases p) (simp_all add: run_state_def port_state_def append_code_point_ascii)

abbreviation decimal :: "16 word \<Rightarrow> string" where
  "decimal n \<equiv> number_digits 10 False (unat n)"

lemma decimal_ascii: "ascii_string (decimal n)"
  using number_digits_decimal [of _ "unat n"] by (force simp: ascii_string_def list_all_iff ak_defs)

lemma run_port:
  assumes "ascii_string rest" "host_stop rest" "state p = State_Port" "buffer p = []"
    and "default_port_for_scheme (scheme (parsed_url p)) \<noteq> Some n"
  shows "run_at x base pre (decimal n @ rest) p = run_at x base (pre @ decimal n) rest
    (p\<lparr>parsed_url := (parsed_url p)\<lparr>port := Some n\<rparr>, state := State_PathStart\<rparr>)"
proof -
  let ?p = "p\<lparr>buffer := decimal n\<rparr>"
  have "run_at x base pre (decimal n @ rest) p = run_at x base (pre @ decimal n) rest (p\<lparr>buffer := buffer p @ decimal n\<rparr>)"
    using assms decimal_ascii number_digits_decimal
    by (intro run_buffer [where Z = "\<lambda>p. state p = State_Port"] run_port_byte) auto
  moreover have "parse_number x 0xFFFF (decimal n) False 10 = Some (unat n)"
    using unsigned_less [of n, where 'a = nat] by (intro parse_number_digits) simp_all
  moreover have "\<not> is_ascii_digit (next_code_point rest)"
    using host_stop_code_point [OF assms(2)] by (auto simp: ak_defs end_of_file_def)
  ultimately show ?thesis
    using assms host_stop_code_point [OF assms(2)]
      run_continue [of rest x base "pre @ decimal n" ?p "p\<lparr>parsed_url := (parsed_url p)\<lparr>port := Some n\<rparr>, state := State_PathStart\<rparr>"]
    by (cases p) (auto simp: run_state_def port_state_def on_url_def Let_def)
qed

end

subsection \<open>The host\<close>

lemma run_host_byte:
  assumes "ascii_string (b # rest)" "host_byte (is_special (parsed_url p)) b" "b = CHR '':'' \<Longrightarrow> inside_brackets p"
    and "state p = State_Host"
  shows "run_at x base pre (b # rest) p = run_at x base (pre @ [b]) rest (p\<lparr>buffer := buffer p @ [b]\<rparr>)"
proof -
  have b: "cp b \<noteq> cp CHR ''/''" "cp b \<noteq> cp CHR ''?''" "cp b \<noteq> cp CHR ''#''" "cp b \<noteq> cp CHR ''[''" "cp b \<noteq> cp CHR '']''"
    "is_special (parsed_url p) \<Longrightarrow> cp b \<noteq> cp CHR 0x5C" "cp b \<noteq> end_of_file"
    "cp b = cp CHR '':'' \<Longrightarrow> inside_brackets p"
    using assms(1-3) by (auto simp: host_byte_def end_of_file_def simp del: of_char_Char)
  with assms(1,4) show ?thesis
    by (intro run_break; cases p) (auto simp: run_state_def host_state_def append_code_point_ascii)
qed

lemma run_host_bracket:
  assumes "ascii_string rest" "state p = State_Host"
  shows "run_at x base pre (CHR ''['' # rest) p =
      run_at x base (pre @ ''['') rest (p\<lparr>buffer := buffer p @ ''['', inside_brackets := True\<rparr>)"
    and "run_at x base pre (CHR '']'' # rest) p =
      run_at x base (pre @ '']'') rest (p\<lparr>buffer := buffer p @ '']'', inside_brackets := False\<rparr>)"
  using assms
  by (intro run_break; cases p;
      simp add: run_state_def host_state_def append_code_point_ascii end_of_file_def char_of_eq_iff)+

lemma run_host_text:
  assumes "ascii_string rest" "host_text (is_special (parsed_url p)) s" "state p = State_Host" "buffer p = []"
    and "\<not> inside_brackets p"
  shows "run_at x base pre (s @ rest) p = run_at x base (pre @ s) rest (p\<lparr>buffer := s\<rparr>)"
proof -
  let ?u = "parsed_url p"
  have ascii: "ascii_string s" using assms(2) by (simp add: host_text_def)
  have bytes: "run_at x base pre (t @ r) q = run_at x base (pre @ t) r (q\<lparr>buffer := buffer q @ t\<rparr>)"
    if "ascii_string (t @ r)" "state q = State_Host" "parsed_url q = ?u"
      "list_all (\<lambda>b. host_byte (is_special ?u) b \<and> (b = CHR '':'' \<longrightarrow> inside_brackets q)) t" for pre t r q
    using that
    by (intro run_buffer [where Z = "\<lambda>r. state r = State_Host \<and> parsed_url r = ?u \<and> inside_brackets r = inside_brackets q"]
        run_host_byte) (auto simp: list_all_iff)
  from assms(2) consider "list_all (\<lambda>b. host_byte (is_special ?u) b \<and> b \<noteq> CHR '':'') s"
    | t where "s = ''['' @ t @ '']''" "list_all (host_byte (is_special ?u)) t" unfolding host_text_def by blast
  then show ?thesis
  proof cases
    case 1
    with bytes [of s rest p pre] assms ascii show ?thesis by (simp add: list_all_iff)
  next
    case 2
    let ?q = "p\<lparr>buffer := ''['', inside_brackets := True\<rparr>"
    have "run_at x base pre (s @ rest) p = run_at x base (pre @ ''['') (t @ '']'' @ rest) ?q"
      using 2 assms ascii run_host_bracket(1) [of "t @ '']'' @ rest" p x base pre] by simp
    also have "\<dots> = run_at x base ((pre @ ''['') @ t) ('']'' @ rest) (?q\<lparr>buffer := ''['' @ t\<rparr>)"
      using 2 assms ascii bytes [of t "'']'' @ rest" ?q "pre @ ''[''"] by (simp add: list_all_iff)
    also have "\<dots> = run_at x base (pre @ s) rest (p\<lparr>buffer := s\<rparr>)"
      using 2 assms ascii run_host_bracket(2) [of rest "?q\<lparr>buffer := ''['' @ t\<rparr>" x base "pre @ ''['' @ t"] by (cases p) simp
    finally show ?thesis .
  qed
qed

definition port_text :: "16 word option \<Rightarrow> string" where
  "port_text n = (case n of None \<Rightarrow> [] | Some n \<Rightarrow> '':'' @ number_digits 10 False (unat n))"

context external_laws
begin

lemma run_host_end:
  assumes "ascii_string rest" "host_stop rest" "state p = State_Host" "\<not> inside_brackets p"
    and "parse_host x (buffer p) (\<not> is_special (parsed_url p)) = Inr h"
    and "is_special (parsed_url p) \<or> n \<noteq> None \<Longrightarrow> buffer p \<noteq> []"
    and "port (parsed_url p) = None" "\<And>m. n = Some m \<Longrightarrow> default_port_for_scheme (scheme (parsed_url p)) \<noteq> Some m"
  shows "run_at x base pre (port_text n @ rest) p = run_at x base (pre @ port_text n) rest
    (p\<lparr>buffer := [], parsed_url := (parsed_url p)\<lparr>host := Some h, port := n\<rparr>, state := State_PathStart\<rparr>)"
proof (cases n)
  case None
  let ?q = "p\<lparr>buffer := [], parsed_url := (parsed_url p)\<lparr>host := Some h\<rparr>, state := State_Port\<rparr>"
  have c: "next_code_point rest \<noteq> cp CHR '':''"
    using host_stop_code_point [OF assms(2)] by (auto simp: end_of_file_def)
  have "run_at x base pre rest p = run_at x base pre rest ?q"
    using assms c host_stop_code_point [OF assms(2)]
    by (intro run_continue; cases p) (auto simp: run_state_def host_state_def with_host_def on_url_def Let_def)
  also have "\<dots> = run_at x base pre rest (?q\<lparr>state := State_PathStart\<rparr>)"
    using assms by (intro run_port_none) auto
  finally show ?thesis using None assms(7) by (cases p; cases "parsed_url p") (simp add: port_text_def)
next
  case (Some m)
  let ?q = "p\<lparr>buffer := [], parsed_url := (parsed_url p)\<lparr>host := Some h\<rparr>, state := State_Port\<rparr>"
  have "run_at x base pre (CHR '':'' # decimal m @ rest) p = run_at x base (pre @ '':'') (decimal m @ rest) ?q"
    using assms Some decimal_ascii
    by (intro run_break; cases p) (simp_all add: run_state_def host_state_def with_host_def on_url_def)
  also have "\<dots> = run_at x base ((pre @ '':'') @ decimal m) rest
      (?q\<lparr>parsed_url := (parsed_url ?q)\<lparr>port := Some m\<rparr>, state := State_PathStart\<rparr>)"
    using assms Some by (intro run_port) auto
  finally show ?thesis using Some by (cases p; cases "parsed_url p") (simp add: port_text_def)
qed

end

subsection \<open>The authority\<close>

lemma get_remaining_including_at:
  assumes "ascii_string rest"
  shows "get_remaining_including_code_point (context_at base (pre @ rest)) (next_code_point rest) (p\<lparr>pointer := length pre\<rparr>) =
    Inr rest"
proof (cases rest)
  case (Cons b t)
  with assms have "underlying_code_point_length_in_bytes b t = 1" "cp b \<noteq> end_of_file"
    "code_unit_length_for_code_point (cp b) = 1"
    by (simp_all add: underlying_code_point_length_in_bytes_def decode_leading_byte_eq end_of_file_def
        code_unit_length_for_code_point_def)
  with Cons show ?thesis
    by (simp add: get_remaining_including_code_point_def substring_view_from_def substring_view_def verify_def)
qed (simp add: get_remaining_including_code_point_def)

definition authority_byte :: "bool \<Rightarrow> char \<Rightarrow> bool" where
  "authority_byte special b = (b \<notin> set ''@/?#'' \<and> (special \<longrightarrow> b \<noteq> CHR 0x5C))"

lemma find_any_of_first:
  assumes "\<And>b. b \<in> set auth \<Longrightarrow> b \<notin> set d" and "rest \<noteq> [] \<Longrightarrow> hd rest \<in> set d"
  shows "(case find_any_of (auth @ rest) d of Some n \<Rightarrow> n | None \<Rightarrow> length (auth @ rest)) = length auth"
proof -
  have auth: "\<forall>j < length auth. (auth @ rest) ! j \<notin> set d" using assms(1) by (simp add: nth_append)
  show ?thesis
  proof (cases rest)
    case Nil
    with auth have "find_any_of (auth @ rest) d \<noteq> Some n" for n unfolding find_any_of_Some by auto
    with Nil show ?thesis by (cases "find_any_of (auth @ rest) d") simp_all
  next
    case (Cons b t)
    with auth assms(2) have "find_any_of (auth @ rest) d = Some (length auth)"
      unfolding find_any_of_Some by simp
    then show ?thesis by simp
  qed
qed

lemma find_any_of_authority:
  assumes "list_all (authority_byte special) auth" and "rest \<noteq> [] \<Longrightarrow> hd rest \<in> set ''@/?#''"
  shows "(case find_any_of (auth @ rest) (if special then ''@/?#'' @ [CHR 0x5C] else ''@/?#'') of
      Some n \<Rightarrow> n | None \<Rightarrow> length (auth @ rest)) = length auth"
  by (rule find_any_of_first) (use assms in \<open>auto simp: list_all_iff authority_byte_def\<close>)

lemma run_authority_host:
  assumes "ascii_string (auth @ rest)" "host_stop rest" "list_all (authority_byte (is_special (parsed_url p))) auth"
    and "at_sign_seen p \<Longrightarrow> auth \<noteq> []" "state p = State_Authority" "cp c < 0x80"
  shows "run_at x base (pre @ [c]) (auth @ rest) p = run_at x base (pre @ [c]) (auth @ rest)
    (p\<lparr>parsed_url := (parsed_url p)\<lparr>password := password_builder p, username := username_builder p\<rparr>, buffer := [],
      state := State_Host\<rparr>)"
proof -
  let ?ctx = "context_at base ((pre @ [c]) @ auth @ rest)" and ?p = "p\<lparr>pointer := length (pre @ [c])\<rparr>"
  let ?q = "p\<lparr>parsed_url := (parsed_url p)\<lparr>password := password_builder p, username := username_builder p\<rparr>, buffer := [],
      state := State_Host\<rparr>"
  have "rest \<noteq> [] \<Longrightarrow> hd rest \<in> set ''@/?#''"
    using assms(2) by (auto simp: host_stop_def split: list.splits)
  note len = find_any_of_authority [OF assms(3) this]
  have at: "\<not> (length auth < length (auth @ rest) \<and> (auth @ rest) ! length auth = CHR ''@'')"
    using assms(2) by (auto simp: host_stop_def nth_append split: list.splits)
  have "authority_state x ?ctx (next_code_point (auth @ rest)) ?p = Inr (Break (?q\<lparr>pointer := length pre\<rparr>))"
    using get_remaining_including_at [OF assms(1), of base "pre @ [c]" p] len at assms(4,5)
    by (cases p) (auto simp: authority_state_def Let_def substring_view_def verify_def on_url_def)
  moreover have "increment_iterator ?ctx (?q\<lparr>pointer := length pre\<rparr>) = Inr (?q\<lparr>pointer := length (pre @ [c])\<rparr>)"
    using assms(6) by (simp add: increment_iterator_def utf8_advance_def)
  ultimately show ?thesis
    using assms(1,5) current_code_point_at [of "auth @ rest" base "pre @ [c]" p]
    by (simp add: run_at_def parse_loop.simps [of x _ "p\<lparr>pointer := Suc (length pre)\<rparr>"] iterator_done_def run_state_def)
qed

definition credentials_text :: "url \<Rightarrow> string" where
  "credentials_text u =
     (if includes_credentials u then username u @ (if password u \<noteq> [] then '':'' @ password u else []) @ ''@'' else [])"

lemma userinfo_byte:
  assumes "clean Userinfo s" "b \<in> set s"
  shows "authority_byte special b" "b \<noteq> CHR '':''" "cp b < 0x80"
proof -
  have "\<not> code_point_is_in_percent_encode_set (cp b) Userinfo" using assms by (simp add: clean_def list_all_iff)
  moreover from this have "cp b \<le> 0x7E" using not_in_set_ascii [of "cp b" Userinfo] by simp
  ultimately show "authority_byte special b" "b \<noteq> CHR '':''" "cp b < 0x80"
    by (auto simp: authority_byte_def contains_char_def)
qed

context external_laws
begin

lemma percent_encode_unchanged: "clean es s \<Longrightarrow> percent_encode x s es SpaceAsPlus_No = Inr s"
  by (simp add: percent_encode_eq percent_encoded_unchanged clean_def list_all_iff
      del: code_point_is_in_percent_encode_set.simps)

lemma append_credentials_text:
  assumes "clean Userinfo name" "clean Userinfo pass" "\<not> at_sign_seen p" "\<not> password_token_seen p"
    and "username_builder p = []" "password_builder p = []"
  shows "append_credentials x (name @ (if pass \<noteq> [] then '':'' @ pass else [])) p =
    Inr (p\<lparr>at_sign_seen := True, username_builder := name, password_builder := pass, password_token_seen := pass \<noteq> []\<rparr>)"
proof -
  have name: "takeWhile (\<lambda>b. b \<noteq> CHR '':'') (name @ r) = name @ takeWhile (\<lambda>b. b \<noteq> CHR '':'') r" for r
    using userinfo_byte(2) [OF assms(1)] by (intro takeWhile_append2) blast
  show ?thesis
  proof (cases "pass = []")
    case True
    have "length (takeWhile (\<lambda>b. b \<noteq> CHR '':'') name) = length name"
      using name [of "[]"] by (simp only: append_Nil2 takeWhile.simps)
    then have "find_char x name CHR '':'' 0 = None" by (simp add: find_char_def find_byte Let_def)
    with True assms percent_encode_unchanged show ?thesis
      by (cases p) (simp add: append_credentials_def Let_def)
  next
    case False
    then have "find_char x (name @ CHR '':'' # pass) CHR '':'' 0 = Some (length name)"
      using name [of "CHR '':'' # pass"] by (simp add: find_char_def find_byte Let_def)
    with False assms percent_encode_unchanged show ?thesis
      by (cases p) (simp add: append_credentials_def Let_def substring_view_def substring_view_from_def verify_def)
  qed
qed

lemma run_credentials:
  assumes "ascii_string rest" "clean Userinfo (username u)" "clean Userinfo (password u)" "state p = State_Authority"
    and "\<not> at_sign_seen p" "\<not> password_token_seen p" "username_builder p = []" "password_builder p = []"
  shows "run_at x base pre (credentials_text u @ rest) p = run_at x base (pre @ credentials_text u) rest
    (p\<lparr>at_sign_seen := includes_credentials u, username_builder := username u, password_builder := password u,
      password_token_seen := password u \<noteq> []\<rparr>)"
proof (cases "includes_credentials u")
  case False
  with assms show ?thesis by (cases p) (simp add: credentials_text_def includes_credentials_def)
next
  case True
  define auth where "auth = username u @ (if password u \<noteq> [] then '':'' @ password u else [])"
  let ?t = "auth @ CHR ''@'' # rest"
  have auth: "list_all (authority_byte special) auth" "ascii_string auth" for special
    using userinfo_byte [OF assms(2)] userinfo_byte [OF assms(3)]
    by (auto simp: auth_def list_all_iff ascii_string_def) (simp add: authority_byte_def)
  have len: "(case find_any_of ?t (if special then ''@/?#'' @ [CHR 0x5C] else ''@/?#'') of
      Some n \<Rightarrow> n | None \<Rightarrow> length ?t) = length auth" for special
    by (rule find_any_of_authority [OF auth(1)]) simp
  have t: "ascii_string ?t" using auth(2) assms(1) by simp
  have "append_credentials x auth (p\<lparr>pointer := length pre\<rparr>) = Inr (p\<lparr>pointer := length pre, at_sign_seen := True,
      username_builder := username u, password_builder := password u, password_token_seen := password u \<noteq> []\<rparr>)"
    unfolding auth_def using assms by (intro append_credentials_text) auto
  then have "run_at x base pre ?t p = run_at x base (pre @ auth @ ''@'') rest
     (p\<lparr>at_sign_seen := True, username_builder := username u, password_builder := password u,
      password_token_seen := password u \<noteq> []\<rparr>)"
    using t assms(4) get_remaining_including_at [OF t, of base pre p] len
    by (intro run_break_skip; cases p) (simp_all add: run_state_def authority_state_def Let_def substring_view_def verify_def)
  with True show ?thesis by (simp add: credentials_text_def auth_def)
qed

lemma port_text_byte:
  assumes "b \<in> set (port_text n)"
  shows "cp b < 0x80" "authority_byte special b"
proof -
  have "b = CHR '':'' \<or> 48 \<le> cp b \<and> cp b \<le> 57"
    using assms number_digits_decimal [of b] by (auto simp: port_text_def ak_defs split: option.splits)
  then show "cp b < 0x80" "authority_byte special b" by (auto simp: authority_byte_def)
qed

text \<open>The authority and what follows it, when the credentials have been read.\<close>

lemma run_host:
  assumes u: "valid_scheme (scheme u)" "authority_ok u" "list_path_ok u" "query_ok u" "fragment_ok u"
      "scheme u \<noteq> ''file''" "is_special u \<Longrightarrow> paths u \<noteq> []"
    and h: "host u = Some h" "host_stable x (is_special u) h" "host_serialize h = Inr s"
    and p: "state p = State_Authority" "parsed_url p = (u\<lparr>username := [], password := [], host := None, port := None,
        paths := [], query := None, fragment := None\<rparr>)"
      "at_sign_seen p = includes_credentials u" "\<not> inside_brackets p" "query_encoder p = utf8_encoder"
      "username_builder p = username u" "password_builder p = password u"
    and pre: "pre \<noteq> []" "cp (last pre) < 0x80"
  shows "run_at x base pre (s @ port_text (port u) @ path_text (paths u) @ tail_text u) p = Inr (True, u)"
proof -
  let ?v = "u\<lparr>host := None, port := None, paths := [], query := None, fragment := None\<rparr>"
  let ?rest = "path_text (paths u) @ tail_text u" and ?q = "p\<lparr>parsed_url := ?v, buffer := [], state := State_Host\<rparr>"
  have ok: "url_host_ok (scheme u) h" "credentials_ok u" using u(2) h(1) by (simp_all add: authority_ok_def)
  then have s: "host_text (is_special u) s" "s = [] \<longleftrightarrow> is_empty_host h"
      "s \<noteq> [] \<or> \<not> is_special u \<Longrightarrow> parse_host x s (\<not> is_special u) = Inr h"
    using parse_host_serialized [of "scheme u" h] h(2,3)
    by (cases "is_special_scheme (scheme u)"; auto simp: is_special_def)+
  have rest: "ascii_string ?rest" "host_stop ?rest"
    using u(3) path_text_ascii tail_text_ascii [OF u(4,5)] host_stop_path by (auto simp: list_path_ok_def)
  have port: "ascii_string (port_text (port u))" "list_all (authority_byte special) (port_text (port u))" for special
    using port_text_byte by (auto simp: ascii_string_def list_all_iff)
  have nonempty: "s \<noteq> []" if "includes_credentials u \<or> is_special u \<or> port u \<noteq> None"
  proof
    assume "s = []"
    with s(2) h(1) have e: "is_empty_host h" "cannot_have_a_username_or_password_or_port u"
      by (simp_all add: cannot_have_a_username_or_password_or_port_def)
    with ok u(6) have "\<not> includes_credentials u" "port u = None" "\<not> is_special u"
      by (simp_all add: credentials_ok_def url_host_ok_def is_special_def)
    with that show False by simp
  qed
  have default: "default_port_for_scheme (scheme u) \<noteq> Some m" if "port u = Some m" for m
    using ok(2) that by (simp add: credentials_ok_def port_ok_def)
  have auth: "list_all (authority_byte (is_special u)) (s @ port_text (port u))" "ascii_string s"
    using host_text_byte [OF s(1)] port(2) s(1) by (auto simp: list_all_iff authority_byte_def host_text_def)
  have v: "(parsed_url p)\<lparr>password := password_builder p, username := username_builder p\<rparr> = ?v"
    "is_special (parsed_url p) = is_special u" "is_special ?v = is_special u"
    unfolding p is_special_def by simp_all
  have "run_at x base pre ((s @ port_text (port u)) @ ?rest) p = run_at x base pre ((s @ port_text (port u)) @ ?rest) ?q"
    using run_authority_host [of "s @ port_text (port u)" ?rest p "last pre" x base "butlast pre"]
      rest auth port(1) p(1,3) pre nonempty unfolding v by auto
  also have "\<dots> = run_at x base (pre @ s) (port_text (port u) @ ?rest) (?q\<lparr>buffer := s\<rparr>)"
    using run_host_text [of "port_text (port u) @ ?rest" ?q s x base pre] rest(1) port(1) s(1) p(4) v(3) by simp
  also have "\<dots> = run_at x base ((pre @ s) @ port_text (port u)) ?rest
      (?q\<lparr>buffer := [], parsed_url := ?v\<lparr>host := Some h, port := port u\<rparr>, state := State_PathStart\<rparr>)"
    using run_host_end [of ?rest "?q\<lparr>buffer := s\<rparr>" h "port u" base "pre @ s"] rest s nonempty p(4) v(3) default by auto
  also have "\<dots> = Inr (True, u)"
    using u h(1) by (intro run_path_start) (auto simp: p list_path_ok_def keeps_drive_def is_special_def)
  finally show ?thesis by simp
qed

end

end
