(* ===== verification/Url_Roundtrip.thy ===== *)
theory Url_Roundtrip
  imports Authority_Runs
begin

text \<open>
  Parsing inverts serialization: the URL parser reads the serialization of a URL that satisfies the invariant
  back as the same URL.
\<close>

subsection \<open>Opaque paths\<close>

lemma run_opaque_byte:
  assumes "ascii_string (b # rest)" "clean C0Control [b]" "b \<noteq> CHR ''?''" "b \<noteq> CHR ''#''"
    and "b = CHR '' '' \<Longrightarrow> rest \<noteq> [] \<and> hd rest \<notin> set ''?#''"
    and "state p = State_OpaquePath" "paths (parsed_url p) = [[]]"
  shows "run_at x base pre (b # rest) p = run_at x base (pre @ [b]) rest (p\<lparr>buffer := buffer p @ [b]\<rparr>)"
proof (cases "b = CHR '' ''")
  case True
  then obtain c t where "rest = c # t" "c \<noteq> CHR ''?''" "c \<noteq> CHR ''#''" using assms(5) by (cases rest) auto
  then have "\<not> starts_with_char rest CHR ''?''" "\<not> starts_with_char rest CHR ''#''"
    by (simp_all add: starts_with_char_def)
  with True assms(1,6,7) get_remaining_at [of b base pre rest p] show ?thesis
    by (intro run_break; cases p) (simp_all add: run_state_def opaque_path_state_def verify_def)
next
  case False
  have b: "cp b \<noteq> cp CHR ''?''" "cp b \<noteq> cp CHR ''#''" "cp b \<noteq> cp CHR '' ''" "cp b \<noteq> end_of_file"
    using False assms(1,3,4) by (auto simp: end_of_file_def simp del: of_char_Char)
  have "append_percent_encoded_if_necessary (cp b) C0Control = Inr [b]"
    using assms(1,2) by (simp add: append_percent_encoded_if_necessary_eq percent_encoded_char_def append_code_point_ascii
        del: code_point_is_in_percent_encode_set.simps)
  with b assms(1,6,7) show ?thesis
    by (intro run_break; cases p) (simp_all add: run_state_def opaque_path_state_def verify_def)
qed

lemma run_opaque:
  assumes "ascii_string (s @ rest)" "clean C0Control s" "CHR ''?'' \<notin> set s" "CHR ''#'' \<notin> set s"
    and "s \<noteq> [] \<Longrightarrow> last s \<noteq> CHR '' ''" "state p = State_OpaquePath" "paths (parsed_url p) = [[]]"
  shows "run_at x base pre (s @ rest) p = run_at x base (pre @ s) rest (p\<lparr>buffer := buffer p @ s\<rparr>)"
  using assms
proof (induction s arbitrary: pre p)
  case (Cons b s)
  have "b = CHR '' '' \<Longrightarrow> s @ rest \<noteq> [] \<and> hd (s @ rest) \<notin> set ''?#''"
    using Cons.prems(3-5) by (cases s) auto
  then have "run_at x base pre (b # s @ rest) p = run_at x base (pre @ [b]) (s @ rest) (p\<lparr>buffer := buffer p @ [b]\<rparr>)"
    using Cons.prems by (intro run_opaque_byte) (auto simp del: code_point_is_in_percent_encode_set.simps)
  also have "\<dots> = run_at x base ((pre @ [b]) @ s) rest (p\<lparr>buffer := buffer p @ b # s\<rparr>)"
    using Cons.IH [of "p\<lparr>buffer := buffer p @ [b]\<rparr>" "pre @ [b]"] Cons.prems
    by (simp split: if_splits del: code_point_is_in_percent_encode_set.simps)
  finally show ?case by simp
qed simp

lemma tail_start_opaque:
  assumes "state p = State_OpaquePath" "query_encoder p = utf8_encoder" "paths (parsed_url p) = [[]]"
  shows "tail_start x base p ((parsed_url p)\<lparr>paths := [buffer p]\<rparr>)"
proof -
  let ?u = "(parsed_url p)\<lparr>paths := [buffer p]\<rparr>"
  show ?thesis
    by (rule tail_startI [where r = "p\<lparr>parsed_url := ?u, buffer := []\<rparr>"
          and q = "p\<lparr>parsed_url := ?u\<lparr>query := Some []\<rparr>, buffer := [], state := State_Query\<rparr>"
          and f = "p\<lparr>parsed_url := ?u\<lparr>fragment := Some []\<rparr>, buffer := [], state := State_Fragment\<rparr>"])
      (use assms in \<open>cases p; simp add: run_state_def opaque_path_state_def on_url_def starts_part_def end_of_file_def
        verify_def\<close>)+
qed

subsection \<open>After the scheme\<close>

abbreviation scheme_parser :: "string \<Rightarrow> state \<Rightarrow> parser" where
  "scheme_parser s st \<equiv> initial_parser (empty_url\<lparr>scheme := s\<rparr>) st utf8_encoder"

abbreviation before_colon :: "string \<Rightarrow> parser" where
  "before_colon s \<equiv> (initial_parser empty_url State_Scheme utf8_encoder)\<lparr>buffer := s\<rparr>"

lemma run_colon_file:
  assumes "ascii_string rest"
  shows "run_at x base pre (CHR '':'' # rest) (before_colon ''file'') =
    run_at x base (pre @ '':'') rest (scheme_parser ''file'' State_File)"
  using assms get_remaining_at [of "CHR '':''" base pre rest "scheme_parser ''file'' State_Scheme"]
  by (intro run_break)
    (simp_all add: run_state_def scheme_state_def after_scheme_def initial_parser_def on_url_def Let_def empty_url_def ak_defs)

lemma run_double_slash:
  assumes "ascii_string rest" "state p = State_SpecialRelativeOrAuthority \<or> state p = State_SpecialAuthoritySlashes"
  shows "run_at x base pre (CHR ''/'' # CHR ''/'' # rest) p =
    run_at x base (pre @ ''//'') rest (p\<lparr>state := State_SpecialAuthorityIgnoreSlashes\<rparr>)"
proof -
  have "run_at x base pre (''/'' @ CHR ''/'' # rest) p =
      run_at x base (pre @ ''/'' @ ''/'') rest (p\<lparr>state := State_SpecialAuthorityIgnoreSlashes\<rparr>)"
    using assms get_remaining_at [of "CHR ''/''" base pre "CHR ''/'' # rest" p]
    by (intro run_break_skip; cases p)
      (auto simp: run_state_def special_relative_or_authority_state_def special_authority_slashes_state_def
        increment_iterator_def utf8_advance_def starts_with_def)
  then show ?thesis by simp
qed

lemma run_colon_special:
  assumes "ascii_string rest" "is_special_scheme s" "s \<noteq> ''file''"
  shows "run_at x base pre (CHR '':'' # CHR ''/'' # CHR ''/'' # rest) (before_colon s) =
    run_at x base (pre @ ''://'') rest (scheme_parser s State_SpecialAuthorityIgnoreSlashes)"
proof -
  let ?same = "case base of Some b \<Rightarrow> scheme b = s | None \<Rightarrow> False"
  let ?st = "if ?same then State_SpecialRelativeOrAuthority else State_SpecialAuthoritySlashes"
  have "run_at x base pre (CHR '':'' # CHR ''/'' # CHR ''/'' # rest) (before_colon s) =
      run_at x base (pre @ '':'') (CHR ''/'' # CHR ''/'' # rest) (scheme_parser s ?st)"
    using assms
    by (intro run_break; cases base)
      (simp_all add: run_state_def scheme_state_def after_scheme_def initial_parser_def on_url_def Let_def empty_url_def
        ak_defs is_special_def verify_def)
  also have "\<dots> = run_at x base ((pre @ '':'') @ ''//'') rest ((scheme_parser s ?st)\<lparr>state := State_SpecialAuthorityIgnoreSlashes\<rparr>)"
    using assms(1) by (intro run_double_slash) (simp_all add: initial_parser_def)
  finally show ?thesis by (simp add: initial_parser_def)
qed

lemma run_colon_slash:
  assumes "ascii_string rest" "\<not> is_special_scheme s"
  shows "run_at x base pre (CHR '':'' # CHR ''/'' # rest) (before_colon s) =
    run_at x base (pre @ '':/'') rest (scheme_parser s State_PathOrAuthority)"
proof -
  have "run_at x base pre ('':'' @ CHR ''/'' # rest) (before_colon s) =
      run_at x base (pre @ '':'' @ ''/'') rest (scheme_parser s State_PathOrAuthority)"
    using assms file_special get_remaining_at [of "CHR '':''" base pre "CHR ''/'' # rest" "scheme_parser s State_Scheme"]
    by (intro run_break_skip; cases "s = ''file''")
      (simp_all add: run_state_def scheme_state_def after_scheme_def initial_parser_def on_url_def Let_def empty_url_def
        ak_defs is_special_def increment_iterator_def utf8_advance_def starts_with_def)
  then show ?thesis by simp
qed

definition opaque_parser :: "string \<Rightarrow> parser" where
  "opaque_parser s =
     initial_parser (empty_url\<lparr>scheme := s, has_an_opaque_path := True, paths := [[]]\<rparr>) State_OpaquePath utf8_encoder"

lemma run_colon_opaque:
  assumes "ascii_string rest" "\<not> is_special_scheme s" "\<not> starts_with_char rest CHR ''/''"
  shows "run_at x base pre (CHR '':'' # rest) (before_colon s) = run_at x base (pre @ '':'') rest (opaque_parser s)"
proof -
  have "\<not> starts_with rest ''/'' CaseSensitive"
    using assms(3) by (cases rest) (auto simp: starts_with_def starts_with_char_def)
  then show ?thesis
    using assms file_special get_remaining_at [of "CHR '':''" base pre rest "scheme_parser s State_Scheme"]
    by (intro run_break; cases "s = ''file''")
      (simp_all add: run_state_def scheme_state_def after_scheme_def initial_parser_def on_url_def Let_def empty_url_def
        ak_defs is_special_def append_slash_def opaque_parser_def)
qed

lemma run_file_slashes:
  assumes "ascii_string rest" "state p = State_File"
  shows "run_at x base pre (CHR ''/'' # CHR ''/'' # rest) p = run_at x base (pre @ ''//'') rest
    (p\<lparr>parsed_url := (parsed_url p)\<lparr>scheme := ''file'', host := Some (Host_String [])\<rparr>, state := State_FileHost\<rparr>)"
proof -
  let ?q = "p\<lparr>parsed_url := (parsed_url p)\<lparr>scheme := ''file'', host := Some (Host_String [])\<rparr>, state := State_FileSlash\<rparr>"
  have "run_at x base pre (CHR ''/'' # CHR ''/'' # rest) p = run_at x base (pre @ ''/'') (CHR ''/'' # rest) ?q"
    using assms by (intro run_break; cases p) (simp_all add: run_state_def file_state_def on_url_def Let_def)
  also have "\<dots> = run_at x base ((pre @ ''/'') @ ''/'') rest (?q\<lparr>state := State_FileHost\<rparr>)"
    using assms by (intro run_break; cases p) (simp_all add: run_state_def file_slash_state_def)
  finally show ?thesis by simp
qed

lemma run_file_host_byte:
  assumes "ascii_string (b # rest)" "b \<notin> set ''/?#''" "b \<noteq> CHR 0x5C" "state p = State_FileHost"
  shows "run_at x base pre (b # rest) p = run_at x base (pre @ [b]) rest (p\<lparr>buffer := buffer p @ [b]\<rparr>)"
proof -
  have "cp b \<noteq> cp CHR ''/''" "cp b \<noteq> cp CHR ''?''" "cp b \<noteq> cp CHR ''#''" "cp b \<noteq> cp CHR 0x5C" "cp b \<noteq> end_of_file"
    using assms(1-3) by (auto simp: end_of_file_def simp del: of_char_Char)
  with assms(1,4) show ?thesis
    by (intro run_break; cases p) (simp_all add: run_state_def file_host_state_def append_code_point_ascii)
qed

lemma drive_letter_host:
  assumes "url_host_ok ''file'' h" "host_serialize h = Inr s"
  shows "\<not> is_windows_drive_letter s"
proof
  assume drive: "is_windows_drive_letter s"
  then obtain b c where s: "s = [b, c]" "is_ascii_alpha (cp b)" "c = CHR '':'' \<or> c = CHR ''|''"
    by (auto simp: is_windows_drive_letter_def numeral_2_eq_2 length_Suc_conv)
  show False
  proof (cases h)
    case (Host_String t)
    with s assms show False
      by (auto simp: host_serialize_def url_host_ok_def is_empty_host_def host_ok_def forbidden_domain_def forbidden_host_def
          forbidden_host_bytes_def)
  next
    case (Host_IPv4 a)
    then have "hd s \<in> set s \<and> decimal_text s"
      using assms(2) s(1) dotted_decimal_text by (auto simp: host_serialize_def serialize_ipv4_address_def Let_def format_dotted_eq)
    with s show False by (auto simp: decimal_text_def ak_defs)
  next
    case (Host_IPv6 a)
    with s assms(2) show False by (auto simp: host_serialize_def bind_result_eq_Inr ak_defs)
  qed
qed

context external_laws
begin

lemma run_file_host:
  assumes u: "authority_ok u" "list_path_ok u" "query_ok u" "fragment_ok u" "scheme u = ''file''" "paths u \<noteq> []"
    and h: "host u = Some h" "host_stable x True h" "host_serialize h = Inr s"
    and p: "state p = State_FileHost" "buffer p = []" "query_encoder p = utf8_encoder"
      "parsed_url p = u\<lparr>host := Some (Host_String []), paths := [], query := None, fragment := None\<rparr>"
  shows "run_at x base pre (s @ path_text (paths u) @ tail_text u) p = Inr (True, u)"
proof -
  let ?rest = "path_text (paths u) @ tail_text u"
  let ?q = "p\<lparr>parsed_url := u\<lparr>paths := [], query := None, fragment := None\<rparr>, state := State_PathStart\<rparr>"
  have ok: "url_host_ok ''file'' h" "h \<noteq> Host_String ''localhost''" using u(1,5) h(1) by (simp_all add: authority_ok_def)
  then have s: "host_text True s" "s = [] \<longleftrightarrow> is_empty_host h" "s \<noteq> [] \<Longrightarrow> parse_host x s False = Inr h"
    using parse_host_serialized [of "''file''" h] h(2,3) by simp_all
  have rest: "ascii_string ?rest" "host_stop ?rest"
    using u(2) path_text_ascii tail_text_ascii [OF u(3,4)] host_stop_path by (auto simp: list_path_ok_def)
  have special: "is_special (parsed_url p)" using u(5) p(4) by (simp add: is_special_def)
  have "run_at x base pre (s @ ?rest) p = run_at x base (pre @ s) ?rest (p\<lparr>buffer := buffer p @ s\<rparr>)"
    using rest(1) p(1) s(1) host_text_byte [OF s(1)]
    by (intro run_buffer [where Z = "\<lambda>p. state p = State_FileHost"] run_file_host_byte) (auto simp: host_text_def)
  also have "\<dots> = run_at x base (pre @ s) ?rest ?q"
  proof (cases "s = []")
    case True
    then have "h = Host_String []" using s(2) by (auto simp: is_empty_host_def split: host.splits)
    with True show ?thesis
      using rest p h(1) host_stop_code_point [OF rest(2)]
      by (intro run_continue; cases p; cases u)
        (auto simp: run_state_def file_host_state_def is_windows_drive_letter_def on_url_def Let_def)
  next
    case False
    then show ?thesis
      using rest p h(1) host_stop_code_point [OF rest(2)] s(3) drive_letter_host [OF ok(1) h(3)] special ok(2)
      by (intro run_continue; cases p; cases u)
        (auto simp: run_state_def file_host_state_def with_host_def on_url_def Let_def)
  qed
  also have "\<dots> = Inr (True, u)"
    using u p by (intro run_path_start) (auto simp: list_path_ok_def keeps_drive_def is_special_def drive_ok_def)
  finally show ?thesis by simp
qed

lemma run_url_opaque:
  assumes u: "url_ok u" "has_an_opaque_path u" "url_blob_entry u = None" "paths u = [s]" "\<not> ends_with_char s CHR '' ''"
  shows "run_at x base pre (CHR '':'' # s @ tail_text u) (before_colon (scheme u)) = Inr (True, u)"
proof -
  let ?p = "opaque_parser (scheme u)"
  have ok: "\<not> is_special_scheme (scheme u)" "opaque_path_text s" "query_ok u" "fragment_ok u"
    "u\<lparr>query := None, fragment := None\<rparr> = (parsed_url ?p)\<lparr>paths := [s]\<rparr>"
    using u by (cases u; auto simp: url_ok_def opaque_url_ok_def is_special_def opaque_parser_def initial_parser_def empty_url_def)+
  have t: "ascii_string (s @ tail_text u)" "\<not> starts_with_char (s @ tail_text u) CHR ''/''"
    using ok(2) clean_ascii tail_text_ascii [OF ok(3,4)]
    by (cases s; auto simp: opaque_path_text_def starts_with_char_def tail_text_def query_text_def fragment_text_def
        split: option.splits)+
  have "run_at x base pre (CHR '':'' # s @ tail_text u) (before_colon (scheme u)) =
      run_at x base (pre @ '':'') (s @ tail_text u) ?p"
    using t ok(1) by (intro run_colon_opaque)
  also have "\<dots> = run_at x base ((pre @ '':'') @ s) (tail_text u) (?p\<lparr>buffer := buffer ?p @ s\<rparr>)"
    using t ok(2) u(5)
    by (intro run_opaque) (auto simp: opaque_path_text_def ends_with_char_def opaque_parser_def initial_parser_def last_conv_nth)
  also have "\<dots> = Inr (True, u)"
    using tail_start_opaque [of "?p\<lparr>buffer := s\<rparr>" x base] ok(3-5)
    by (intro run_tail) (auto simp: opaque_parser_def initial_parser_def)
  finally show ?thesis .
qed

lemma run_url_path:
  assumes u: "url_ok u" "\<not> has_an_opaque_path u" "url_blob_entry u = None" "host u = None"
  shows "run_at x base pre (CHR '':'' # (if length (paths u) > 1 \<and> paths u ! 0 = [] then ''/.'' else []) @
      path_text (paths u) @ tail_text u) (before_colon (scheme u)) = Inr (True, u)"
proof -
  let ?p = "(scheme_parser (scheme u) State_Path)"
  have ok: "\<not> is_special_scheme (scheme u)" "query_ok u" "fragment_ok u" "paths u \<noteq> []" "list_path_ok u" "credentials_ok u"
    using u by (auto simp: url_ok_def authority_ok_def is_special_def)
  then have v: "u\<lparr>query := None, fragment := None\<rparr> = (parsed_url ?p)\<lparr>paths := paths u\<rparr>"
    using u by (cases u) (auto simp: credentials_ok_def cannot_have_a_username_or_password_or_port_def includes_credentials_def
        initial_parser_def empty_url_def)
  have nofile: "scheme u \<noteq> ''file''" using ok(1) by auto
  obtain s ss where ss: "paths u = s # ss" using ok(4) by (cases "paths u") auto
  have segs: "list_all (segment_ok False) (s # ss)"
    using ok(1,5) ss by (simp add: list_path_ok_def is_special_def)
  let ?rest = "s @ path_text ss @ tail_text u"
  have rest: "ascii_string ?rest"
    using path_text_ascii [OF segs] tail_text_ascii [OF ok(2,3)] by simp
  have final: "run_at x base pre' ?rest ?p = Inr (True, u)" for pre'
    using run_path [of ?p s ss u base pre'] ok v segs ss nofile
    by (auto simp: initial_parser_def empty_url_def is_special_def keeps_drive_def)
  have continue: "run_at x base pre' t (scheme_parser (scheme u) State_PathOrAuthority) = run_at x base pre' t ?p"
    if "ascii_string t" "next_code_point t \<noteq> cp CHR ''/''" for pre' t
    using that by (intro run_continue) (simp_all add: run_state_def path_or_authority_state_def initial_parser_def)
  show ?thesis
  proof (cases "length (paths u) > 1 \<and> paths u ! 0 = []")
    case False
    have "next_code_point ?rest \<noteq> cp CHR ''/''"
    proof (cases s)
      case Nil
      with False ss host_stop_path [of "[]" u] show ?thesis
        by (auto simp: tail_text_def query_text_def fragment_text_def end_of_file_def split: option.splits)
    next
      case (Cons b t)
      with segs show ?thesis by (auto simp: segment_ok_def segment_text_def simp del: of_char_Char)
    qed
    with False ss rest ok(1) continue final show ?thesis by (auto simp: run_colon_slash)
  next
    case True
    then have s: "s = []" using ss by simp
    let ?q = "?p\<lparr>buffer := ''.''\<rparr>"
    have "run_at x base pre' (CHR ''.'' # CHR ''/'' # ?rest) ?p = run_at x base (pre' @ ''.'') (CHR ''/'' # ?rest) ?q" for pre'
      using run_path_byte [of "CHR ''.''" "CHR ''/'' # ?rest" ?p x base pre'] rest
      by (simp add: segment_text_def contains_char_def initial_parser_def char_of_eq_iff)
    moreover have "run_at x base pre' (CHR ''/'' # ?rest) ?q = run_at x base (pre' @ ''/'') ?rest ?p" for pre'
      using rest by (intro run_break)
        (simp_all add: run_state_def path_state_def end_path_segment_def is_single_dot_path_segment_def
          is_double_dot_path_segment_def equals_ignoring_ascii_case_def initial_parser_def end_of_file_def)
    ultimately show ?thesis
      using True ss rest ok(1) continue [of "CHR ''.'' # CHR ''/'' # ?rest"] final by (simp add: run_colon_slash)
  qed
qed

text \<open>A URL of which only the scheme is set, completed by the parts of \<open>u\<close>.\<close>

lemma scheme_parser_url:
  assumes "\<not> has_an_opaque_path u" "url_blob_entry u = None"
  shows "empty_url\<lparr>scheme := scheme u\<rparr> =
    u\<lparr>username := [], password := [], host := None, port := None, paths := [], query := None, fragment := None\<rparr>"
  using assms by (cases u) (simp add: empty_url_def)

lemma run_url_authority:
  assumes u: "url_ok u" "\<not> has_an_opaque_path u" "url_blob_entry u = None" "scheme u \<noteq> ''file''"
    and h: "host u = Some h" "host_stable x (is_special u) h" "host_serialize h = Inr s"
    and pre: "pre \<noteq> []" "cp (last pre) < 0x80"
  shows "run_at x base pre (credentials_text u @ s @ port_text (port u) @ path_text (paths u) @ tail_text u)
    (scheme_parser (scheme u) State_Authority) = Inr (True, u)"
proof -
  let ?p = "scheme_parser (scheme u) State_Authority"
  let ?rest = "s @ port_text (port u) @ path_text (paths u) @ tail_text u"
  have ok: "valid_scheme (scheme u)" "authority_ok u" "list_path_ok u" "query_ok u" "fragment_ok u"
    "is_special u \<Longrightarrow> paths u \<noteq> []"
    using u(1,2) by (auto simp: url_ok_def)
  have clean: "clean Userinfo (username u)" "clean Userinfo (password u)"
    using ok(2) by (auto simp: authority_ok_def credentials_ok_def)
  have "ascii_string s"
    using parse_host_serialized [of "scheme u" h] ok(2) h by (auto simp: authority_ok_def is_special_def host_text_def)
  moreover have "ascii_string (port_text (port u))" using port_text_byte(1) by (auto simp: ascii_string_def list_all_iff)
  ultimately have rest: "ascii_string ?rest"
    using ok(3) path_text_ascii tail_text_ascii [OF ok(4,5)] by (auto simp: list_path_ok_def)
  have "run_at x base pre (credentials_text u @ ?rest) ?p = run_at x base (pre @ credentials_text u) ?rest
      (?p\<lparr>at_sign_seen := includes_credentials u, username_builder := username u, password_builder := password u,
      password_token_seen := password u \<noteq> []\<rparr>)"
    using rest clean by (intro run_credentials) (simp_all add: initial_parser_def)
  also have "\<dots> = Inr (True, u)"
    using ok u(4) h pre scheme_parser_url [OF u(2,3)]
    by (intro run_host) (simp_all add: initial_parser_def credentials_text_def)
  finally show ?thesis .
qed

lemma run_url_file:
  assumes u: "url_ok u" "\<not> has_an_opaque_path u" "url_blob_entry u = None"
    and h: "host u = Some h" "host_stable x (is_special u) h" "host_serialize h = Inr s"
    and ascii: "ascii_string (credentials_text u @ s @ port_text (port u) @ path_text (paths u) @ tail_text u)"
    and scheme: "scheme u = ''file''"
  shows "run_at x base pre (CHR '':'' # CHR ''/'' # CHR ''/'' # credentials_text u @ s @ port_text (port u) @
      path_text (paths u) @ tail_text u) (before_colon (scheme u)) = Inr (True, u)"
    (is "run_at x base pre (_ # _ # _ # ?rest) _ = _")
proof -
  have ok: "authority_ok u" "list_path_ok u" "query_ok u" "fragment_ok u" "paths u \<noteq> []" "is_special u"
    using u(1,2) scheme by (auto simp: url_ok_def is_special_def)
  then have none: "username u = []" "password u = []" "port u = None"
    using scheme by (auto simp: authority_ok_def credentials_ok_def cannot_have_a_username_or_password_or_port_def
        includes_credentials_def)
  then have rest: "?rest = s @ path_text (paths u) @ tail_text u"
    by (simp add: credentials_text_def includes_credentials_def port_text_def)
  have "run_at x base pre (CHR '':'' # CHR ''/'' # CHR ''/'' # ?rest) (before_colon (scheme u)) =
      run_at x base ((pre @ '':'') @ ''//'') ?rest ((scheme_parser ''file'' State_File)\<lparr>parsed_url :=
        empty_url\<lparr>scheme := ''file'', host := Some (Host_String [])\<rparr>, state := State_FileHost\<rparr>)"
    using run_colon_file [of "CHR ''/'' # CHR ''/'' # ?rest" x base pre] ascii scheme
      run_file_slashes [of ?rest "scheme_parser ''file'' State_File" x base "pre @ '':''"]
    by (simp add: initial_parser_def)
  also have "\<dots> = Inr (True, u)"
    unfolding rest using ok h scheme none scheme_parser_url [OF u(2,3)]
    by (intro run_file_host) (auto simp: initial_parser_def)
  finally show ?thesis .
qed

lemma run_url_special:
  assumes u: "url_ok u" "\<not> has_an_opaque_path u" "url_blob_entry u = None"
    and h: "host u = Some h" "host_stable x (is_special u) h" "host_serialize h = Inr s"
    and ascii: "ascii_string (credentials_text u @ s @ port_text (port u) @ path_text (paths u) @ tail_text u)"
    and scheme: "scheme u \<noteq> ''file''" "is_special u"
  shows "run_at x base pre (CHR '':'' # CHR ''/'' # CHR ''/'' # credentials_text u @ s @ port_text (port u) @
      path_text (paths u) @ tail_text u) (before_colon (scheme u)) = Inr (True, u)"
    (is "run_at x base pre (_ # _ # _ # ?rest) _ = _")
proof -
  have ok: "authority_ok u" using u(1,2) by (simp add: url_ok_def)
  have "url_host_ok (scheme u) h" using ok h by (simp add: authority_ok_def)
  moreover from this scheme have "\<not> is_empty_host h" by (auto simp: url_host_ok_def is_special_def)
  ultimately have s: "host_text True s" "s \<noteq> []"
    using parse_host_serialized [of "scheme u" h] h scheme by (simp_all add: is_special_def)
  have clean: "clean Userinfo (username u)" "clean Userinfo (password u)"
    using ok by (auto simp: authority_ok_def credentials_ok_def)
  have byte: "b \<noteq> CHR ''/'' \<and> b \<noteq> CHR 0x5C" if "b \<in> set (credentials_text u @ s)" for b
    using that host_text_byte [OF s(1), of b] userinfo_byte(1) [OF clean(1), of b True] userinfo_byte(1) [OF clean(2), of b True]
    by (auto simp: credentials_text_def authority_byte_def split: if_splits)
  obtain b t where bt: "credentials_text u @ s = b # t" using s(2) by (cases "credentials_text u @ s") auto
  have "?rest = b # t @ port_text (port u) @ path_text (paths u) @ tail_text u"
    using arg_cong [OF bt, of "\<lambda>r. r @ port_text (port u) @ path_text (paths u) @ tail_text u"] by simp
  then have "next_code_point ?rest = cp b" by (simp only: next_code_point_simps)
  then have stop: "next_code_point ?rest \<noteq> cp CHR ''/''" "next_code_point ?rest \<noteq> cp CHR 0x5C"
    using byte [of b] bt by (simp_all only: cp_eq_iff list.set_intros simp_thms)
  have "run_at x base pre (CHR '':'' # CHR ''/'' # CHR ''/'' # ?rest) (before_colon (scheme u)) =
      run_at x base (pre @ ''://'') ?rest (scheme_parser (scheme u) State_SpecialAuthorityIgnoreSlashes)"
    using ascii scheme by (intro run_colon_special) (simp_all add: is_special_def)
  also have "\<dots> = run_at x base (pre @ ''://'') ?rest (scheme_parser (scheme u) State_Authority)"
    using ascii stop
    by (intro run_continue) (simp_all add: run_state_def special_authority_ignore_slashes_state_def initial_parser_def)
  also have "\<dots> = Inr (True, u)"
    using u h scheme by (intro run_url_authority) auto
  finally show ?thesis .
qed

lemma run_url_not_special:
  assumes u: "url_ok u" "\<not> has_an_opaque_path u" "url_blob_entry u = None"
    and h: "host u = Some h" "host_stable x (is_special u) h" "host_serialize h = Inr s"
    and ascii: "ascii_string (credentials_text u @ s @ port_text (port u) @ path_text (paths u) @ tail_text u)"
    and scheme: "\<not> is_special u"
  shows "run_at x base pre (CHR '':'' # CHR ''/'' # CHR ''/'' # credentials_text u @ s @ port_text (port u) @
      path_text (paths u) @ tail_text u) (before_colon (scheme u)) = Inr (True, u)"
    (is "run_at x base pre (_ # _ # _ # ?rest) _ = _")
proof -
  have nofile: "scheme u \<noteq> ''file''" using scheme by (auto simp: is_special_def)
  have "run_at x base pre (CHR '':'' # CHR ''/'' # CHR ''/'' # ?rest) (before_colon (scheme u)) =
      run_at x base (pre @ '':/'') (CHR ''/'' # ?rest) (scheme_parser (scheme u) State_PathOrAuthority)"
    using ascii scheme by (intro run_colon_slash) (simp_all add: is_special_def)
  also have "\<dots> = run_at x base ((pre @ '':/'') @ ''/'') ?rest (scheme_parser (scheme u) State_Authority)"
    using ascii by (intro run_break) (simp_all add: run_state_def path_or_authority_state_def initial_parser_def)
  also have "\<dots> = Inr (True, u)"
    using u h nofile by (intro run_url_authority) auto
  finally show ?thesis .
qed

lemma run_url_host:
  assumes u: "url_ok u" "\<not> has_an_opaque_path u" "url_blob_entry u = None"
    and h: "host u = Some h" "host_stable x (is_special u) h" "host_serialize h = Inr s"
    and ascii: "ascii_string (credentials_text u @ s @ port_text (port u) @ path_text (paths u) @ tail_text u)"
  shows "run_at x base pre (CHR '':'' # CHR ''/'' # CHR ''/'' # credentials_text u @ s @ port_text (port u) @
      path_text (paths u) @ tail_text u) (before_colon (scheme u)) = Inr (True, u)"
    (is "run_at x base pre (_ # _ # _ # ?rest) _ = _")
  using run_url_file [OF assms] run_url_special [OF assms] run_url_not_special [OF assms] by blast

end

subsection \<open>The serialization\<close>

text \<open>The bytes of a serialization: what the parser strips and removes does not occur.\<close>

definition printable :: "string \<Rightarrow> bool" where
  "printable s = list_all (\<lambda>b. 0x20 \<le> cp b \<and> cp b < 0x7F) s"

lemma printable_simps [simp]:
  "printable []" "printable (b # s) \<longleftrightarrow> (0x20 \<le> cp b \<and> cp b < 0x7F) \<and> printable s"
  "printable (s @ t) \<longleftrightarrow> printable s \<and> printable t"
  by (simp_all add: printable_def)

lemma clean_printable: "clean es s \<Longrightarrow> printable s"
  using not_in_set_ascii [of _ es] by (fastforce simp: clean_def printable_def list_all_iff)

lemma printable_ascii: "printable s \<Longrightarrow> ascii_string s"
  by (auto simp: printable_def ascii_string_def list_all_iff)

context external_laws
begin

lemma process_input_printable:
  assumes "printable s"
  shows "process_input x s = Inr s"
proof -
  have "\<not> contains_ascii_tab_or_newline s"
    using assms by (auto simp: contains_ascii_tab_or_newline_def printable_def list_ex_iff list_all_iff)
  moreover have "utf8_validate x False s = Inr True"
    using printable_ascii [OF assms] by (simp add: utf8_validate_well_formed ascii_string_well_formed)
  ultimately show ?thesis by (simp add: process_input_def from_utf8_with_replacement_character_def)
qed

lemma trimmed_input_unchanged:
  assumes "s \<noteq> []" "0x20 < cp (hd s)" "0x20 < cp (last s)"
  shows "trimmed_input s = Inr s"
proof -
  have "start_index_loop s 0 = 0" using assms(1,2) by (cases s) (simp_all add: ak_defs)
  moreover have "end_index_loop s 0 (length s) = length s"
    using assms(1,3) by (cases "length s") (auto simp: ak_defs last_conv_nth)
  ultimately show ?thesis by (simp add: trimmed_input_def substring_view_def verify_def)
qed

lemma basic_parse_printable:
  assumes "s \<noteq> []" "0x20 < cp (hd s)" "0x20 < cp (last s)" "printable s"
  shows "basic_parse x s base None None None = run_at x base [] s (initial_parser empty_url State_SchemeStart utf8_encoder)"
  using assms
  by (simp add: basic_parse_def trimmed_input_unchanged process_input_printable run_at_def context_at_def initial_parser_def)

end

text \<open>All parts but an opaque path are free of spaces, too.\<close>

definition graphic :: "string \<Rightarrow> bool" where
  "graphic s = list_all (\<lambda>b. 0x20 < cp b \<and> cp b < 0x7F) s"

lemma graphic_simps [simp]:
  "graphic []" "graphic (b # s) \<longleftrightarrow> (0x20 < cp b \<and> cp b < 0x7F) \<and> graphic s"
  "graphic (s @ t) \<longleftrightarrow> graphic s \<and> graphic t"
  by (simp_all add: graphic_def)

lemma graphic_printable: "graphic s \<Longrightarrow> printable s"
  by (auto simp: graphic_def printable_def list_all_iff)

lemma clean_graphic:
  assumes "clean es s" "es \<in> {FragmentSet, QuerySet, SpecialQuery, PathSet, Userinfo}"
  shows "graphic s"
proof -
  have "0x20 < cp b \<and> cp b < 0x7F" if "b \<in> set s" for b
  proof -
    have *: "\<not> code_point_is_in_percent_encode_set (cp b) es" using that assms(1) by (auto simp: clean_def list_all_iff)
    then have "b \<noteq> CHR '' ''" using assms(2) by (auto simp: contains_char_def char_of_eq_iff)
    then have "cp b \<noteq> cp CHR '' ''" by (simp only: cp_eq_iff not_False_eq_True)
    with not_in_set_ascii [OF *] show ?thesis by simp
  qed
  then show ?thesis by (simp add: graphic_def list_all_iff)
qed

lemma tail_text_graphic: "query_ok u \<Longrightarrow> fragment_ok u \<Longrightarrow> graphic (tail_text u)"
  by (auto simp: tail_text_def query_text_def fragment_text_def query_ok_def fragment_ok_def
      intro: clean_graphic split: option.splits if_splits)

lemma path_text_graphic: "list_all (segment_ok special) ss \<Longrightarrow> graphic (path_text ss)"
  by (induction ss) (auto simp: segment_ok_def segment_text_def intro: clean_graphic)

lemma valid_scheme_graphic: "valid_scheme s \<Longrightarrow> graphic s \<and> s \<noteq> []"
  by (cases s) (auto simp: valid_scheme_def graphic_def list_all_iff ak_defs)

lemma host_graphic:
  assumes "url_host_ok sch h" "host_serialize h = Inr s"
  shows "graphic s"
proof (cases h)
  case (Host_String t)
  then have "clean C0Control s" "list_all (\<lambda>b. \<not> forbidden_host (cp b)) s"
    using assms by (auto simp: url_host_ok_def host_serialize_def is_empty_host_def host_ok_def forbidden_domain_def list_all_iff
        split: if_splits)
  moreover from this(2) have "CHR '' '' \<notin> set s"
    by (auto simp: list_all_iff forbidden_host_def forbidden_host_bytes_def)
  ultimately have "0x20 < cp b \<and> cp b < 0x7F" if "b \<in> set s" for b
    using that clean_printable [of C0Control s] cp_eq_iff [of b "CHR '' ''"]
    by (auto simp: printable_def list_all_iff order_less_le)
  then show ?thesis by (simp add: graphic_def list_all_iff)
next
  case (Host_IPv4 a)
  then have "decimal_text s"
    using assms(2) dotted_decimal_text by (auto simp: host_serialize_def serialize_ipv4_address_def Let_def format_dotted_eq)
  then show ?thesis by (auto simp: decimal_text_def graphic_def list_all_iff ak_defs)
next
  case (Host_IPv6 a)
  then obtain t where "s = ''['' @ t @ '']''" "serialize_ipv6_address a = Inr t"
    using assms(2) by (auto simp: host_serialize_def bind_result_eq_Inr)
  moreover from this(2) have "is_ascii_hex_digit (cp b) \<or> b = CHR '':''" if "b \<in> set t" for b
    using that serialize_ipv6_loop_bytes unfolding serialize_ipv6_address_def by blast
  ultimately show ?thesis by (force simp: graphic_def list_all_iff ak_defs)
qed

lemma port_text_graphic: "graphic (port_text n)"
  using number_digits_decimal by (force simp: port_text_def graphic_def list_all_iff ak_defs split: option.splits)

lemma credentials_text_graphic:
  "clean Userinfo (username u) \<Longrightarrow> clean Userinfo (password u) \<Longrightarrow> graphic (credentials_text u)"
  using clean_graphic [of Userinfo] by (auto simp: credentials_text_def)

lemma serialize_tail:
  assumes "serialize_authority True u = Inr a" "serialize_path u = Inr t"
  shows "serialize ExcludeFragment_No u = Inr (scheme u @ '':'' @ a @
    (if host u = None \<and> \<not> has_an_opaque_path u \<and> length (paths u) > 1 \<and> paths u ! 0 = [] then ''/.'' else []) @ t @ tail_text u)"
  using assms
  by (simp add: serialize_def tail_text_def query_text_def fragment_text_def split: option.splits)

lemma serialize_authority_text:
  assumes "host u = Some h" "host_serialize h = Inr s"
  shows "serialize_authority True u = Inr (''//'' @ credentials_text u @ s @ port_text (port u))"
  using assms
  by (simp add: serialize_authority_def serialized_host_def credentials_text_def port_text_def split: option.splits)

context external_laws
begin

lemma parse_printed_url:
  assumes "valid_scheme s" "printable t" "t \<noteq> [] \<Longrightarrow> last t \<noteq> CHR '' ''"
    and "\<And>pre. run_at x base pre (CHR '':'' # t) (before_colon s) = Inr (True, u)"
  shows "parse_url x (s @ '':'' @ t) base = Inr u"
proof -
  have s: "graphic s" "s \<noteq> []" using valid_scheme_graphic assms(1) by auto
  have "0x20 < cp (hd (s @ '':'' @ t))" using s by (cases s) auto
  moreover have "0x20 < cp (last (s @ '':'' @ t))"
  proof (cases "t = []")
    case False
    then have "cp (last t) \<noteq> 0x20" using assms(3) cp_eq_iff [of "last t" "CHR '' ''"] by simp
    with False assms(2) show ?thesis by (auto simp: printable_def list_all_iff order_less_le)
  qed simp
  moreover have "printable (s @ '':'' @ t)" using s graphic_printable assms(2) by simp
  ultimately have "basic_parse x (s @ '':'' @ t) base None None None =
      run_at x base [] (s @ '':'' @ t) (initial_parser empty_url State_SchemeStart utf8_encoder)"
    using s(2) by (intro basic_parse_printable) auto
  also have "\<dots> = run_at x base ([] @ s) ('':'' @ t)
      ((initial_parser empty_url State_SchemeStart utf8_encoder)\<lparr>buffer := s, state := State_Scheme\<rparr>)"
    using assms(1,2) s printable_ascii graphic_printable by (intro run_scheme) (auto simp: initial_parser_def)
  also have "\<dots> = Inr (True, u)" using assms(4) by (simp add: initial_parser_def)
  finally show ?thesis by (simp add: parse_url_def)
qed

end

text \<open>
  What the serialization of a URL does not keep apart: a domain must be one that domain to ASCII leaves as it is
  and that does not end in a number, and an opaque path must not end in a space.
\<close>

definition url_stable :: "ext \<Rightarrow> url \<Rightarrow> bool" where
  "url_stable x u =
     ((case host u of None \<Rightarrow> True | Some h \<Rightarrow> host_stable x (is_special u) h) \<and>
      (has_an_opaque_path u \<longrightarrow> \<not> ends_with_char (hd (paths u)) CHR '' ''))"

lemma url_ok_blob: "url_ok (u\<lparr>url_blob_entry := e\<rparr>) = url_ok u"
  by (simp add: url_ok_def query_ok_def fragment_ok_def opaque_url_ok_def authority_ok_def credentials_ok_def port_ok_def
      list_path_ok_def drive_ok_def is_special_def includes_credentials_def cannot_have_a_username_or_password_or_port_def
      cong: option.case_cong list.case_cong)

context external_laws
begin

lemma serialize_opaque_parse:
  assumes "url_ok u" "url_stable x u" "url_blob_entry u = None" "has_an_opaque_path u"
  shows "\<exists>s. serialize ExcludeFragment_No u = Inr s \<and> parse_url x s base = Inr u"
proof -
  obtain s where s: "paths u = [s]" "clean C0Control s" "host u = None" "valid_scheme (scheme u)" "query_ok u" "fragment_ok u"
    using assms(1,4) by (auto simp: url_ok_def opaque_url_ok_def opaque_path_text_def)
  have no_space: "\<not> ends_with_char s CHR '' ''" using assms(2,4) s(1) by (simp add: url_stable_def)
  have tail: "graphic (tail_text u)" using tail_text_graphic s(5,6) by blast
  have "serialize ExcludeFragment_No u = Inr (scheme u @ '':'' @ s @ tail_text u)"
    using serialize_tail [of u "[]" s] s(1,3) assms(4) by (simp add: serialize_authority_def serialize_path_def)
  moreover have "parse_url x (scheme u @ '':'' @ s @ tail_text u) base = Inr u"
  proof (rule parse_printed_url)
    show "last (s @ tail_text u) \<noteq> CHR '' ''" if "s @ tail_text u \<noteq> []"
    proof (cases "tail_text u = []")
      case False
      then have "0x20 < cp (last (tail_text u))" using tail by (auto simp: graphic_def list_all_iff)
      with False show ?thesis by auto
    qed (use that no_space in \<open>auto simp: ends_with_char_def last_conv_nth\<close>)
    show "run_at x base pre (CHR '':'' # s @ tail_text u) (before_colon (scheme u)) = Inr (True, u)" for pre
      using assms s(1) no_space by (intro run_url_opaque)
  qed (use s tail clean_printable graphic_printable in auto)
  ultimately show ?thesis by blast
qed

lemma parse_graphic_url:
  assumes "serialize ExcludeFragment_No u = Inr (scheme u @ '':'' @ t)" "valid_scheme (scheme u)" "graphic t"
    and "\<And>pre. run_at x base pre (CHR '':'' # t) (before_colon (scheme u)) = Inr (True, u)"
  shows "\<exists>s. serialize ExcludeFragment_No u = Inr s \<and> parse_url x s base = Inr u"
proof -
  have "parse_url x (scheme u @ '':'' @ t) base = Inr u"
  proof (rule parse_printed_url)
    show "last t \<noteq> CHR '' ''" if "t \<noteq> []"
      using assms(3) that last_in_set [OF that] by (fastforce simp: graphic_def list_all_iff)
  qed (use assms graphic_printable in auto)
  with assms(1) show ?thesis by blast
qed

lemma serialize_list_path_parse:
  assumes "url_ok u" "url_stable x u" "url_blob_entry u = None" "\<not> has_an_opaque_path u"
  shows "\<exists>s. serialize ExcludeFragment_No u = Inr s \<and> parse_url x s base = Inr u"
proof -
  have ok: "valid_scheme (scheme u)" "authority_ok u" "list_path_ok u" "query_ok u" "fragment_ok u"
    using assms(1,4) by (simp_all add: url_ok_def)
  have path: "serialize_path u = Inr (path_text (paths u))"
    by (simp only: serialize_path_def path_text_def assms(4) if_False)
  have g: "graphic (path_text (paths u))" "graphic (tail_text u)"
    using ok path_text_graphic tail_text_graphic by (auto simp: list_path_ok_def)
  show ?thesis
  proof (cases "host u")
    case None
    then show ?thesis
      using assms ok(1) g serialize_tail [OF _ path, of "[]"]
      by (intro parse_graphic_url [OF _ _ _ run_url_path]) (simp_all add: serialize_authority_def)
  next
    case (Some h)
    have h: "host_stable x (is_special u) h" "url_host_ok (scheme u) h"
      using assms(2) ok(2) Some by (simp_all add: url_stable_def authority_ok_def)
    then obtain s where s: "host_serialize h = Inr s"
      using parse_host_serialized [of "scheme u" h] by (auto simp: is_special_def)
    have g2: "graphic (credentials_text u @ s @ port_text (port u) @ path_text (paths u) @ tail_text u)"
      using g ok(2) credentials_text_graphic port_text_graphic host_graphic [OF h(2) s]
      by (simp add: authority_ok_def credentials_ok_def)
    then show ?thesis
      using assms ok(1) Some h(1) s g2 serialize_tail [OF serialize_authority_text [OF Some s] path]
        printable_ascii [OF graphic_printable [OF g2]]
      by (intro parse_graphic_url [where t = "''//'' @ credentials_text u @ s @ port_text (port u) @ path_text (paths u) @ tail_text u"])
        (simp_all add: run_url_host)
  qed
qed

end



end
