(* ===== verification/Lexical_Path.thy ===== *)
theory Lexical_Path
  imports Host
begin

text \<open>
  \<^verbatim>\<open>AK/LexicalPath.cpp\<close> and \<^verbatim>\<open>AK/LexicalPath.h\<close>: canonical paths, their parts, and relative paths, on systems
  other than Windows.
\<close>

subsection \<open>Canonical paths\<close>

text \<open>The loop over the parts of a path.\<close>

fun canonical_parts_loop :: "bool \<Rightarrow> string list \<Rightarrow> string list \<Rightarrow> string list" where
  "canonical_parts_loop is_absolute canonical_parts [] = canonical_parts"
| "canonical_parts_loop is_absolute canonical_parts (part # parts) =
     (if part = ''.'' then canonical_parts_loop is_absolute canonical_parts parts
      else if part = ''..'' \<and> canonical_parts = [] \<and> is_absolute then
        canonical_parts_loop is_absolute canonical_parts parts
      else if part = ''..'' \<and> canonical_parts \<noteq> [] \<and> last canonical_parts \<noteq> ''..'' then
        canonical_parts_loop is_absolute (butlast canonical_parts) parts
      else canonical_parts_loop is_absolute (canonical_parts @ [part]) parts)"

definition canonicalized_path :: "string \<Rightarrow> string result" where
  "canonicalized_path path =
     (if path = [] then Inr ''.''
      else
        bind_result (contains_string path ''.'') (\<lambda>dot.
        bind_result (contains_string path ''//'') (\<lambda>double_slash.
        if \<not> dot \<and> \<not> double_slash \<and> \<not> ends_with_char path CHR ''/'' then Inr path
        else
          let is_absolute = (path ! 0 = CHR ''/'') in
          bind_result (split_view path ''/'' False False) (\<lambda>parts.
            let canonical_parts = canonical_parts_loop is_absolute [] parts;
                canonical_parts = (if canonical_parts = [] \<and> \<not> is_absolute then canonical_parts @ [''.''] else canonical_parts)
            in Inr ((if is_absolute then ''/'' else []) @ join CHR ''/'' canonical_parts)))))"

subsection \<open>The class\<close>

record lexical_path =
  lexical_parts :: "string list"
  lexical_string :: string
  lexical_dirname :: string
  lexical_basename :: string
  lexical_title :: string
  lexical_extension :: string

text \<open>The constructor, with the computation of the directory name and of the title and extension.\<close>

definition dirname_of :: "string \<Rightarrow> string result" where
  "dirname_of s =
     (case find_last s CHR ''/'' of
        None \<Rightarrow> Inr ''.''
      | Some last_slash_index \<Rightarrow>
          if last_slash_index = 0 then substring_view s 0 1 else substring_view s 0 last_slash_index)"

definition title_extension_of :: "string \<Rightarrow> (string \<times> string) result" where
  "title_extension_of base =
     (case find_last base CHR ''.'' of
        None \<Rightarrow> Inr (base, [])
      | Some last_dot_index \<Rightarrow>
          if last_dot_index \<noteq> 0 then
            bind_result (substring_view base 0 last_dot_index) (\<lambda>title.
            bind_result (substring_view_from base (last_dot_index + 1)) (\<lambda>extension. Inr (title, extension)))
          else Inr (base, []))"

definition lexical_path :: "string \<Rightarrow> lexical_path result" where
  "lexical_path path =
     bind_result (canonicalized_path path) (\<lambda>s.
       if s = [] then
         Inr \<lparr>lexical_parts = [], lexical_string = ''.'', lexical_dirname = ''.'', lexical_basename = [],
              lexical_title = [], lexical_extension = []\<rparr>
       else
         bind_result (split_view s ''/'' False False) (\<lambda>parts.
         bind_result (dirname_of s) (\<lambda>dir.
         bind_result
           (if s = ''/'' then Inr s else bind_result (verify (parts \<noteq> [])) (\<lambda>_. Inr (last parts))) (\<lambda>base.
         bind_result (title_extension_of base) (\<lambda>(title, extension).
           Inr \<lparr>lexical_parts = parts, lexical_string = s, lexical_dirname = dir, lexical_basename = base,
                lexical_title = title, lexical_extension = extension\<rparr>)))))"

definition is_absolute_path :: "string \<Rightarrow> bool" where
  "is_absolute_path path = starts_with_char path CHR ''/''"

definition is_absolute :: "lexical_path \<Rightarrow> bool" where
  "is_absolute p = is_absolute_path (lexical_string p)"

definition is_root :: "lexical_path \<Rightarrow> bool" where
  "is_root p = (lexical_string p = ''/'')"

definition has_extension :: "lexical_path \<Rightarrow> string \<Rightarrow> bool" where
  "has_extension p extension = ends_with (lexical_string p) extension CaseInsensitive"

text \<open>\<^verbatim>\<open>Span::trim\<close> keeps the first elements.\<close>

definition is_child_of :: "lexical_path \<Rightarrow> lexical_path \<Rightarrow> bool" where
  "is_child_of p possible_parent =
     (if \<not> is_absolute p \<and> is_absolute possible_parent then True
      else if is_absolute p \<and> \<not> is_absolute possible_parent then False
      else if length (lexical_parts possible_parent) > length (lexical_parts p) then False
      else take (length (lexical_parts possible_parent)) (lexical_parts p) = lexical_parts possible_parent)"

definition lexical_join :: "string \<Rightarrow> string list \<Rightarrow> lexical_path result" where
  "lexical_join first rest = lexical_path (first @ concat (map (\<lambda>s. ''/'' @ s) rest))"

definition lexical_append :: "lexical_path \<Rightarrow> string \<Rightarrow> lexical_path result" where
  "lexical_append p s = lexical_join (lexical_string p) [s]"

definition lexical_prepend :: "lexical_path \<Rightarrow> string \<Rightarrow> lexical_path result" where
  "lexical_prepend p s = lexical_join s [lexical_string p]"

definition lexical_parent :: "lexical_path \<Rightarrow> lexical_path result" where
  "lexical_parent p = lexical_append p ''..''"

datatype strip_extension = StripExtensionNo | StripExtensionYes

definition basename :: "lexical_path \<Rightarrow> strip_extension \<Rightarrow> string" where
  "basename p s = (if s = StripExtensionNo then lexical_basename p else lexical_title p)"

definition static_dirname :: "string \<Rightarrow> string result" where
  "static_dirname path = bind_result (lexical_path path) (\<lambda>p. Inr (lexical_dirname p))"

definition static_basename :: "string \<Rightarrow> strip_extension \<Rightarrow> string result" where
  "static_basename path s = bind_result (lexical_path path) (\<lambda>p. Inr (basename p s))"

definition static_title :: "string \<Rightarrow> string result" where
  "static_title path = bind_result (lexical_path path) (\<lambda>p. Inr (lexical_title p))"

definition static_extension :: "string \<Rightarrow> string result" where
  "static_extension path = bind_result (lexical_path path) (\<lambda>p. Inr (lexical_extension p))"

definition absolute_path :: "string \<Rightarrow> string \<Rightarrow> string result" where
  "absolute_path dir_path target =
     bind_result (lexical_path target) (\<lambda>p.
       if is_absolute p then canonicalized_path target
       else bind_result (lexical_join dir_path [target]) (\<lambda>q. canonicalized_path (lexical_string q)))"

text \<open>The loop that finds the first part that differs.\<close>

fun common_parts :: "string list \<Rightarrow> string list \<Rightarrow> nat" where
  "common_parts (p # path_parts) (q # prefix_parts) =
     (if p \<noteq> q then 0 else Suc (common_parts path_parts prefix_parts))"
| "common_parts _ _ = 0"

definition relative_path :: "string \<Rightarrow> string \<Rightarrow> string option result" where
  "relative_path a_path a_prefix =
     (if \<not> starts_with_char a_path CHR ''/'' \<or> \<not> starts_with_char a_prefix CHR ''/'' then Inr None
      else if a_path = a_prefix then Inr (Some ''.'')
      else
        bind_result (canonicalized_path a_path) (\<lambda>path.
        bind_result (canonicalized_path a_prefix) (\<lambda>prefix.
        if path = prefix then Inr (Some ''.'')
        else if prefix = ''/'' then bind_result (substring_view_from path 1) (\<lambda>s. Inr (Some s))
        else
          bind_result
            (if starts_with path prefix CaseSensitive then
               bind_result (verify (length prefix < length path)) (\<lambda>_. Inr (path ! length prefix = CHR ''/''))
             else Inr False) (\<lambda>child.
          if child then bind_result (substring_view_from path (length prefix + 1)) (\<lambda>s. Inr (Some s))
          else
            bind_result (split_view path ''/'' False False) (\<lambda>path_parts.
            bind_result (split_view prefix ''/'' False False) (\<lambda>prefix_parts.
              let n = common_parts path_parts prefix_parts
              in Inr (Some (concat (replicate (length prefix_parts - n) ''../'') @
                   join CHR ''/'' (drop n path_parts)))))))))"

subsection \<open>Parts\<close>

abbreviation path_parts :: "string \<Rightarrow> string list" where
  "path_parts s \<equiv> filter (\<lambda>p. p \<noteq> []) (split_on CHR ''/'' s)"

text \<open>A list of parts that the loop leaves as it is.\<close>

definition part_ok :: "string \<Rightarrow> bool" where
  "part_ok p = (p \<noteq> [] \<and> CHR ''/'' \<notin> set p)"

definition canonical :: "bool \<Rightarrow> string list \<Rightarrow> bool" where
  "canonical absolute ps =
     (list_all (\<lambda>p. part_ok p \<and> p \<noteq> ''.'') ps \<and> ''..'' \<notin> set (dropWhile (\<lambda>p. p = ''..'') ps) \<and>
      (absolute \<longrightarrow> ''..'' \<notin> set ps))"

lemma split_on_append: "split_on c (s @ c # t) = split_on c s @ split_on c t"
  by (induction s) (auto simp: hd_append tl_append split: list.split)

lemma path_parts_append: "path_parts (s @ CHR ''/'' # t) = path_parts s @ path_parts t"
  by (simp add: split_on_append)

lemma path_parts_ok: "p \<in> set (path_parts s) \<Longrightarrow> part_ok p"
  using split_on_label by (auto simp: part_ok_def)

lemma path_parts_join: "list_all part_ok ps \<Longrightarrow> path_parts (join CHR ''/'' ps) = ps"
  by (induction "CHR ''/''" ps rule: join.induct) (auto simp: part_ok_def split_on_join)

lemma path_parts_slash [simp]: "path_parts (CHR ''/'' # s) = path_parts s"
  by simp

lemma canonical_absolute: "canonical True ps \<longleftrightarrow> list_all (\<lambda>p. part_ok p \<and> p \<noteq> ''.'' \<and> p \<noteq> ''..'') ps"
  by (auto simp: canonical_def list_all_iff dest: set_dropWhileD)

lemma canonical_parts: "canonical absolute ps \<Longrightarrow> list_all part_ok ps"
  by (auto simp: canonical_def list_all_iff)

text \<open>A part \<open>..\<close> can only follow parts \<open>..\<close>.\<close>

lemma dropWhile_snoc:
  "dropWhile P (xs @ [x]) = (if \<forall>y \<in> set xs. P y then if P x then [] else [x] else dropWhile P xs @ [x])"
  by (induction xs) auto

lemma canonical_snoc:
  "canonical absolute (ps @ [p]) \<longleftrightarrow>
     canonical absolute ps \<and> part_ok p \<and> p \<noteq> ''.'' \<and> (p = ''..'' \<longrightarrow> \<not> absolute \<and> (\<forall>q \<in> set ps. q = ''..''))"
proof (cases "\<forall>q \<in> set ps. q = ''..''")
  case True
  then have "dropWhile (\<lambda>q. q = ''..'') ps = []" by (simp only: dropWhile_eq_Nil_conv)
  moreover have "''..'' \<notin> set (dropWhile (\<lambda>q. q = ''..'') (ps @ [p]))"
    using True by (simp only: dropWhile_snoc if_True) (simp split: if_split)
  ultimately show ?thesis
    using True by (simp only: canonical_def list_all_append list.pred_inject set_append list.set) blast
next
  case False
  then have "dropWhile (\<lambda>q. q = ''..'') (ps @ [p]) = dropWhile (\<lambda>q. q = ''..'') ps @ [p]"
    by (simp only: dropWhile_snoc if_False)
  with False show ?thesis by (simp only: canonical_def list_all_append list.pred_inject set_append list.set) blast
qed

lemma canonical_prefix: "canonical absolute (ps @ qs) \<Longrightarrow> canonical absolute ps"
  by (induction qs rule: rev_induct) (simp_all add: canonical_snoc flip: append_assoc)

lemma canonical_dots:
  assumes "canonical absolute cs" "\<not> (cs = [] \<and> absolute)" "\<not> (cs \<noteq> [] \<and> last cs \<noteq> ''..'')"
  shows "canonical absolute (cs @ [''..''])"
proof (cases cs rule: rev_cases)
  case Nil
  with assms show ?thesis using canonical_snoc [of absolute "[]" "''..''"] by (simp add: part_ok_def)
next
  case (snoc ds d)
  with assms have "canonical absolute (ds @ [d])" "d = ''..''" by auto
  with snoc canonical_snoc [of absolute cs "''..''"] show ?thesis by (auto simp: canonical_snoc)
qed

lemma canonical_loop:
  "canonical absolute cs \<Longrightarrow> list_all part_ok ps \<Longrightarrow> canonical absolute (canonical_parts_loop absolute cs ps)"
proof (induction absolute cs ps rule: canonical_parts_loop.induct)
  case (2 absolute cs p ps)
  have pop: "canonical absolute (butlast cs)" if "cs \<noteq> []"
    using 2(5) canonical_prefix [of absolute "butlast cs" "[last cs]"] that by simp
  have push: "canonical absolute (cs @ [p])" if "p \<noteq> ''..''" "p \<noteq> ''.''"
    using that 2(5,6) by (simp add: canonical_snoc)
  have ok: "list_all part_ok ps" using 2(6) by simp
  consider "p = ''.''" | "p = ''..''" "cs = []" "absolute" | "p = ''..''" "cs \<noteq> []" "last cs \<noteq> ''..''"
    | "p = ''..''" "\<not> (cs = [] \<and> absolute)" "\<not> (cs \<noteq> [] \<and> last cs \<noteq> ''..'')" | "p \<noteq> ''.''" "p \<noteq> ''..''" by blast
  then show ?case
  proof cases
    case 4
    with 2(4) [OF _ _ _ canonical_dots [OF 2(5) 4(2,3), folded 4(1)] ok] show ?thesis by auto
  qed (use 2 pop push ok in auto)
qed simp

lemma canonical_loop_id:
  "canonical absolute (cs @ ps) \<Longrightarrow> canonical_parts_loop absolute cs ps = cs @ ps"
proof (induction absolute cs ps rule: canonical_parts_loop.induct)
  case (2 absolute cs p ps)
  have "canonical absolute (cs @ [p])" using 2(5) canonical_prefix [of absolute "cs @ [p]" ps] by simp
  then have "p \<noteq> ''.''" "p = ''..'' \<Longrightarrow> \<not> absolute \<and> (cs \<noteq> [] \<longrightarrow> last cs = ''..'')"
    by (auto simp: canonical_snoc)
  with 2 show ?case by auto
qed simp

lemma canonical_loop_append:
  "canonical_parts_loop absolute cs (ps @ qs) = canonical_parts_loop absolute (canonical_parts_loop absolute cs ps) qs"
  by (induction absolute cs ps rule: canonical_parts_loop.induct) auto

subsection \<open>Paths\<close>

definition path_of :: "bool \<Rightarrow> string list \<Rightarrow> string" where
  "path_of absolute ps = (if absolute then CHR ''/'' # join CHR ''/'' ps else if ps = [] then ''.'' else join CHR ''/'' ps)"

lemma join_split_on: "join c (split_on c s) = s"
proof (induction s)
  case (Cons b s)
  then show ?case by (cases "split_on c s"; cases "tl (split_on c s)") auto
qed simp

lemma split_on_hd: "hd (split_on c s) = [] \<longleftrightarrow> s = [] \<or> hd s = c"
  by (cases s) auto

lemma split_on_tl_empty:
  "[] \<in> set (tl (split_on c s)) \<Longrightarrow> s \<noteq> [] \<and> last s = c \<or> (\<exists>t u. s = t @ [c, c] @ u)"
proof (induction s)
  case (Cons b s)
  have IH: "last (b # s) = c \<or> (\<exists>t u. b # s = t @ [c, c] @ u)" if "[] \<in> set (tl (split_on c s))"
    using Cons.IH [OF that] by (metis append_Cons last_ConsR)
  show ?case
  proof (cases "b = c")
    case True
    with Cons.prems have "hd (split_on c s) = [] \<or> [] \<in> set (tl (split_on c s))" by (cases "split_on c s") auto
    then show ?thesis
    proof
      assume "hd (split_on c s) = []"
      then have "s = [] \<or> hd s = c" by (simp only: split_on_hd)
      then consider "s = []" | r where "s = c # r" by (cases s) auto
      then show ?thesis
      proof cases
        case (2 r)
        with True have "b # s = [] @ [c, c] @ r" by simp
        then show ?thesis by blast
      qed (use True in simp)
    qed (use IH in simp)
  next
    case False
    with Cons.prems have "[] \<in> set (tl (split_on c s))" by (cases "split_on c s") auto
    then show ?thesis using IH by simp
  qed
qed simp

lemma split_on_no_empty:
  assumes "\<nexists>t u. s = t @ [c, c] @ u" "s \<noteq> []" "hd s \<noteq> c" "last s \<noteq> c"
  shows "[] \<notin> set (split_on c s)"
proof
  assume "[] \<in> set (split_on c s)"
  then have "hd (split_on c s) = [] \<or> [] \<in> set (tl (split_on c s))" by (cases "split_on c s") auto
  with assms split_on_hd split_on_tl_empty show False by blast
qed

lemma contains_double_slash:
  "\<exists>d. contains_string s ''//'' = Inr d \<and> (\<not> d \<longrightarrow> (\<nexists>t u. s = t @ ''//'' @ u))"
proof (cases "length s < 2")
  case True
  have "\<nexists>t u. s = t @ ''//'' @ u"
  proof (intro notI, elim exE)
    fix t u
    assume "s = t @ ''//'' @ u"
    then have "length s = length t + 2 + length u" by simp
    with True show False by simp
  qed
  with True show ?thesis by (intro exI [of _ False]) (simp add: contains_string_def)
next
  case False
  obtain r where r: "memmem_optional s ''//'' = Inr r" "first_occurrence s ''//'' r"
    using memmem_optional_first by blast
  have "\<nexists>t u. s = t @ ''//'' @ u" if "r = None"
  proof
    assume "\<exists>t u. s = t @ ''//'' @ u"
    then obtain t u where "s = t @ ''//'' @ u" by blast
    then have "occurs_at s ''//'' (length t)" "length t \<le> length s" by (simp_all add: occurs_at_def)
    with r(2) that show False by (auto simp: first_occurrence_def)
  qed
  with r(1) False show ?thesis by (intro exI [of _ "r \<noteq> None"]; cases s) (simp_all add: contains_string_def)
qed

lemma double_slash_Cons: "(\<nexists>t u. b # r = t @ ''//'' @ u) \<Longrightarrow> (\<nexists>t u. r = t @ ''//'' @ u)"
  by (metis append_Cons)

lemma canonical_no_dots:
  assumes "CHR ''.'' \<notin> set s"
  shows "canonical absolute (path_parts s)"
proof -
  have "part_ok p \<and> p \<noteq> ''.'' \<and> p \<noteq> ''..''" if "p \<in> set (path_parts s)" for p
    using path_parts_ok [OF that] split_on_label [of p "CHR ''/''" s] that assms by auto
  then have "list_all (\<lambda>p. part_ok p \<and> p \<noteq> ''.'' \<and> p \<noteq> ''..'') (path_parts s)" by (simp only: list_all_iff) blast
  then have "canonical True (path_parts s)" by (simp only: canonical_absolute)
  then show ?thesis by (simp only: canonical_def) blast
qed

abbreviation canonical_parts_of :: "string \<Rightarrow> string list" where
  "canonical_parts_of s \<equiv> canonical_parts_loop (starts_with_char s CHR ''/'') [] (path_parts s)"

lemma canonical_parts_of: "canonical (starts_with_char s CHR ''/'') (canonical_parts_of s)"
proof (rule canonical_loop)
  show "canonical (starts_with_char s CHR ''/'') []" by (simp add: canonical_def)
  show "list_all part_ok (path_parts s)" unfolding list_all_iff using path_parts_ok by blast
qed

lemma fast_path:
  assumes "s \<noteq> []" "CHR ''.'' \<notin> set s" "\<nexists>t u. s = t @ ''//'' @ u" "last s \<noteq> CHR ''/''"
  shows "path_of (starts_with_char s CHR ''/'') (canonical_parts_of s) = s"
proof -
  have parts: "canonical_parts_of s = path_parts s"
    using canonical_loop_id [of _ "[]"] canonical_no_dots [OF assms(2)] by simp
  obtain b r where s: "s = b # r" using assms(1) by (cases s) auto
  show ?thesis
  proof (cases "b = CHR ''/''")
    case True
    have "r \<noteq> []" "last r \<noteq> CHR ''/''" using assms(4) s True by (auto split: if_splits)
    moreover have "hd r \<noteq> CHR ''/''"
    proof
      assume "hd r = CHR ''/''"
      then have "s = [] @ ''//'' @ tl r" using s True \<open>r \<noteq> []\<close> by (cases r) auto
      with assms(3) show False by blast
    qed
    moreover have "\<nexists>t u. r = t @ ''//'' @ u" using double_slash_Cons assms(3) s by blast
    ultimately have "[] \<notin> set (split_on CHR ''/'' r)" using split_on_no_empty [of r "CHR ''/''"] by simp
    then have "path_parts r = split_on CHR ''/'' r" by (intro filter_True) auto
    with parts s True show ?thesis
      by (simp only: path_parts_slash starts_with_char_def list.case path_of_def if_True simp_thms join_split_on)
  next
    case False
    have "[] \<notin> set (split_on CHR ''/'' s)" using split_on_no_empty [of s "CHR ''/''"] assms s False by simp
    then have "path_parts s = split_on CHR ''/'' s" by (intro filter_True) auto
    moreover have "starts_with_char s CHR ''/'' = False" using s False by (simp add: starts_with_char_def)
    ultimately show ?thesis
      using parts by (simp only: path_of_def if_False split_on_nonempty join_split_on)
  qed
qed

lemma canonicalized_path_eq:
  "canonicalized_path s = Inr (path_of (starts_with_char s CHR ''/'') (canonical_parts_of s))"
proof (cases "s = []")
  case True
  then show ?thesis by (simp add: canonicalized_path_def path_of_def starts_with_char_def)
next
  case False
  obtain d where d: "contains_string s ''//'' = Inr d" "\<not> d \<longrightarrow> (\<nexists>t u. s = t @ ''//'' @ u)"
    using contains_double_slash by blast
  have dot: "contains_string s ''.'' = Inr (CHR ''.'' \<in> set s)" by (simp add: contains_string_def contains_char_def)
  have abs: "(s ! 0 = CHR ''/'') = starts_with_char s CHR ''/''" using False by (cases s) (auto simp: starts_with_char_def)
  show ?thesis
  proof (cases "CHR ''.'' \<notin> set s \<and> \<not> d \<and> last s \<noteq> CHR ''/''")
    case True
    with False d dot fast_path [OF False] show ?thesis by (simp add: canonicalized_path_def ends_with_char_last)
  next
    case slow: False
    with False d(1) dot show ?thesis
      by (auto simp: canonicalized_path_def ends_with_char_last abs split_view_byte_nonempty path_of_def Let_def)
  qed
qed

subsection \<open>Canonical paths are canonical\<close>

lemma join_nonempty: "list_all part_ok ps \<Longrightarrow> ps \<noteq> [] \<Longrightarrow>
    join c ps \<noteq> [] \<and> hd (join c ps) = hd (hd ps) \<and> last (join c ps) = last (last ps)"
  by (induction c ps rule: join.induct) (auto simp: part_ok_def)

lemma path_of_starts:
  assumes "canonical absolute ps"
  shows "starts_with_char (path_of absolute ps) CHR ''/'' = absolute"
proof (cases "absolute \<or> ps = []")
  case False
  have "hd (hd ps) \<noteq> CHR ''/''" using canonical_parts [OF assms] False by (cases ps; cases "hd ps") (auto simp: part_ok_def)
  with False join_nonempty [OF canonical_parts [OF assms], of "CHR ''/''"] show ?thesis
    by (cases "join CHR ''/'' ps") (auto simp: path_of_def starts_with_char_def)
qed (auto simp: path_of_def starts_with_char_def)

lemma path_of_parts:
  assumes "canonical absolute ps"
  shows "canonical_parts_of (path_of absolute ps) = ps"
proof (cases "absolute \<or> ps \<noteq> []")
  case True
  then have "path_parts (path_of absolute ps) = ps"
    using path_parts_join [OF canonical_parts [OF assms]] by (auto simp: path_of_def)
  then show ?thesis using path_of_starts [OF assms] canonical_loop_id [of absolute "[]" ps] assms by simp
qed (simp add: path_of_def starts_with_char_def)

lemma canonicalized_path_of: "canonical absolute ps \<Longrightarrow> canonicalized_path (path_of absolute ps) = Inr (path_of absolute ps)"
  using path_of_parts [of absolute ps] by (simp only: canonicalized_path_eq path_of_starts)

lemma path_of_inject:
  "canonical absolute ps \<Longrightarrow> canonical absolute qs \<Longrightarrow> path_of absolute ps = path_of absolute qs \<longleftrightarrow> ps = qs"
  using path_of_parts by metis

subsection \<open>Relative paths\<close>

lemma canonical_loop_pop:
  "canonical True cs \<Longrightarrow> k \<le> length cs \<Longrightarrow>
   canonical_parts_loop True cs (replicate k ''..'' @ qs) = canonical_parts_loop True (take (length cs - k) cs) qs"
proof (induction k arbitrary: cs)
  case (Suc k)
  then obtain ds d where cs: "cs = ds @ [d]" by (cases cs rule: rev_cases) auto
  with Suc.prems have "d \<noteq> ''..''" "canonical True ds" by (auto simp: canonical_snoc)
  with Suc cs show ?case by simp
qed simp

lemma path_parts_dots: "path_parts (concat (replicate k ''../'') @ s) = replicate k ''..'' @ path_parts s"
proof (induction k)
  case (Suc k)
  then show ?case using path_parts_append [of "''..''" "concat (replicate k ''../'') @ s"] by simp
qed simp

lemma common_parts_take: "take (common_parts ps qs) ps = take (common_parts ps qs) qs"
  by (induction ps qs rule: common_parts.induct) auto

lemma common_parts_le: "common_parts ps qs \<le> length ps" "common_parts ps qs \<le> length qs"
  by (induction ps qs rule: common_parts.induct) auto

lemma append_relative:
  assumes "starts_with_char pre CHR ''/''"
  shows "canonicalized_path (pre @ ''/'' @ r) =
    Inr (path_of True (canonical_parts_loop True (canonical_parts_of pre) (path_parts r)))"
proof -
  have "starts_with_char (pre @ ''/'' @ r) CHR ''/''" using assms by (cases pre) (auto simp: starts_with_char_def)
  moreover have "path_parts (pre @ ''/'' @ r) = path_parts pre @ path_parts r"
    using path_parts_append [of pre r] by simp
  ultimately show ?thesis using assms canonicalized_path_eq [of "pre @ ''/'' @ r"]
    by (simp only: canonical_loop_append)
qed

lemma relative_general:
  assumes "canonical True A" "canonical True B"
  shows "canonical_parts_loop True B
    (path_parts (concat (replicate (length B - common_parts A B) ''../'') @ join CHR ''/'' (drop (common_parts A B) A))) = A"
proof -
  let ?n = "common_parts A B"
  have A: "canonical True (take ?n A @ drop ?n A)" using assms(1) by simp
  have "list_all part_ok (drop ?n A)"
    using canonical_parts [OF A] by (simp only: list_all_append)
  then have "canonical_parts_loop True B
      (path_parts (concat (replicate (length B - ?n) ''../'') @ join CHR ''/'' (drop ?n A))) =
    canonical_parts_loop True B (replicate (length B - ?n) ''..'' @ drop ?n A)"
    by (simp only: path_parts_dots path_parts_join)
  also have "\<dots> = canonical_parts_loop True (take ?n A) (drop ?n A)"
    using canonical_loop_pop [OF assms(2), of "length B - ?n"] common_parts_le(2) [of A B] common_parts_take [of A B]
    by simp
  also have "\<dots> = A" using canonical_loop_id [OF A] by simp
  finally show ?thesis .
qed

lemma relative_child:
  assumes "canonical True A" "canonical True B"
    and "path_of True A = path_of True B @ CHR ''/'' # r"
  shows "canonical_parts_loop True B (path_parts r) = A"
proof -
  have "path_parts (path_of True A) = A" "path_parts (path_of True B) = B"
    unfolding path_of_def if_True path_parts_slash using path_parts_join canonical_parts assms(1,2) by blast+
  then have "A = B @ path_parts r" using assms(3) path_parts_append [of "path_of True B" r] by metis
  with canonical_loop_id [of True B "path_parts r"] assms(1) show ?thesis by simp
qed

lemma child_test:
  assumes "p \<noteq> q" "q \<noteq> []"
  shows "(if starts_with p q CaseSensitive then
      bind_result (verify (length q < length p)) (\<lambda>_. Inr (p ! length q = CHR ''/'')) else Inr False) =
    Inr (\<exists>r. p = q @ CHR ''/'' # r)"
proof (cases "\<exists>u. p = q @ u")
  case True
  then obtain c u where p: "p = q @ c # u" using assms(1) by (metis append_Nil2 neq_Nil_conv)
  then have "starts_with p q CaseSensitive" using assms(2) by (simp add: starts_with_def)
  with p show ?thesis by simp
next
  case False
  then have "\<not> starts_with p q CaseSensitive" using assms(2)
    by (auto simp: starts_with_def) (metis append_take_drop_id)
  with False show ?thesis by auto
qed

lemma relative_path_canonical:
  assumes "starts_with_char a CHR ''/''" "starts_with_char b CHR ''/''" "a \<noteq> b"
    and "canonicalized_path a = Inr p" "canonicalized_path b = Inr q" "p \<noteq> q" "q \<noteq> ''/''" "q \<noteq> []"
  shows "relative_path a b =
    bind_result (Inr (\<exists>r. p = q @ CHR ''/'' # r)) (\<lambda>child.
      if child then bind_result (substring_view_from p (length q + 1)) (\<lambda>s. Inr (Some s))
      else let n = common_parts (path_parts p) (path_parts q)
           in Inr (Some (concat (replicate (length (path_parts q) - n) ''../'') @ join CHR ''/'' (drop n (path_parts p)))))"
  using assms child_test [of p q]
  by (simp only: relative_path_def bind_result_Inr simp_thms if_True if_False split_view_byte_nonempty cong: if_cong)

lemma relative_path_parts:
  assumes "starts_with_char a CHR ''/''" "starts_with_char b CHR ''/''"
  shows "\<exists>r. relative_path a b = Inr (Some r) \<and>
    canonical_parts_loop True (canonical_parts_of b) (path_parts r) = canonical_parts_of a"
proof -
  define A where "A = canonical_parts_of a"
  define B where "B = canonical_parts_of b"
  have can: "canonical True A" "canonical True B"
    using canonical_parts_of [of a] canonical_parts_of [of b] assms by (simp_all add: A_def B_def)
  have path: "canonicalized_path a = Inr (path_of True A)" "canonicalized_path b = Inr (path_of True B)"
    using canonicalized_path_eq [of a] canonicalized_path_eq [of b] assms by (simp_all add: A_def B_def)
  have root: "path_of True B = ''/'' \<longleftrightarrow> B = []"
    using path_of_inject [OF can(2), of "[]"] by (simp add: path_of_def canonical_def)
  have nonempty: "path_of True B \<noteq> []" by (simp add: path_of_def)
  have parts: "path_parts (path_of True A) = A" "path_parts (path_of True B) = B"
    unfolding path_of_def if_True path_parts_slash using path_parts_join canonical_parts can by blast+
  consider "a = b \<or> A = B" | "a \<noteq> b" "A \<noteq> B" "B = []"
    | r where "a \<noteq> b" "A \<noteq> B" "B \<noteq> []" "path_of True A = path_of True B @ CHR ''/'' # r"
    | "a \<noteq> b" "A \<noteq> B" "B \<noteq> []" "\<nexists>r. path_of True A = path_of True B @ CHR ''/'' # r" by blast
  then show ?thesis
  proof cases
    case 1
    then have "A = B" by (auto simp: A_def B_def)
    moreover have "relative_path a b = Inr (Some ''.'')" using 1 assms path by (auto simp: relative_path_def)
    ultimately show ?thesis by (simp flip: A_def B_def)
  next
    case 2
    then have "relative_path a b = Inr (Some (join CHR ''/'' A))"
      using assms path root path_of_inject [OF can]
      by (simp add: relative_path_def substring_view_from_def substring_view_def) (simp add: path_of_def)
    moreover have "canonical_parts_loop True B (path_parts (join CHR ''/'' A)) = A"
      using 2(3) path_parts_join [OF canonical_parts [OF can(1)]] canonical_loop_id [of True "[]" A] can(1) by simp
    ultimately show ?thesis by (auto simp flip: A_def B_def)
  next
    case (3 r)
    then have "relative_path a b = Inr (Some r)"
      using relative_path_canonical [OF assms 3(1) path] root path_of_inject [OF can] nonempty
      by (simp add: substring_view_from_def substring_view_def)
    with relative_child [OF can 3(4)] show ?thesis by (auto simp flip: A_def B_def)
  next
    case 4
    then have "relative_path a b = Inr (Some (concat (replicate (length B - common_parts A B) ''../'') @
        join CHR ''/'' (drop (common_parts A B) A)))"
      using relative_path_canonical [OF assms 4(1) path] root path_of_inject [OF can] nonempty parts
      by (simp only: bind_result_Inr if_False simp_thms Let_def)
    with relative_general [OF can] show ?thesis by (auto simp flip: A_def B_def)
  qed
qed

subsection \<open>The parts of a path object\<close>

lemma lexical_path_names:
  assumes "find_last s CHR ''/'' = Some i" "last s \<noteq> CHR ''/''"
  shows "s = take i s @ CHR ''/'' # drop (i + 1) s" "path_parts s = path_parts (take i s) @ [drop (i + 1) s]"
proof -
  from find_last_Some [OF assms(1)] have i: "i < length s" "s ! i = CHR ''/''" "CHR ''/'' \<notin> set (drop (i + 1) s)" by auto
  then show s: "s = take i s @ CHR ''/'' # drop (i + 1) s" by (metis Suc_eq_plus1 id_take_nth_drop)
  have "drop (i + 1) s \<noteq> []" using s assms(2) by (metis last_snoc)
  then have "path_parts (drop (i + 1) s) = [drop (i + 1) s]" using i(3) split_on_join(2) [of "CHR ''/''" "drop (i + 1) s"] by simp
  then show "path_parts s = path_parts (take i s) @ [drop (i + 1) s]"
    using path_parts_append [of "take i s" "drop (i + 1) s"] s by metis
qed

definition recomposes :: "lexical_path \<Rightarrow> bool" where
  "recomposes p =
     (canonicalized_path (lexical_string p) = Inr (lexical_string p) \<and>
      (lexical_string p \<noteq> ''/'' \<longrightarrow>
         canonicalized_path (lexical_dirname p @ ''/'' @ lexical_basename p) = Inr (lexical_string p)) \<and>
      (lexical_basename p = lexical_title p \<and> lexical_extension p = [] \<or>
       lexical_basename p = lexical_title p @ ''.'' @ lexical_extension p \<and> lexical_title p \<noteq> []))"

lemma title_extension:
  "\<exists>t e. title_extension_of base = Inr (t, e) \<and>
      (base = t \<and> e = [] \<or> base = t @ ''.'' @ e \<and> t \<noteq> [])"
proof (cases "find_last base CHR ''.''")
  case (Some i)
  then have i: "i < length base" "base ! i = CHR ''.''" using find_last_Some by blast+
  then have "base = take i base @ ''.'' @ drop (i + 1) base" using id_take_nth_drop [of i base] by simp
  with Some i show ?thesis
    by (cases "i = 0") (auto simp: title_extension_of_def substring_view_from_def substring_view_def)
qed (simp add: title_extension_of_def)

lemma path_of_last:
  assumes "canonical absolute ps" "path_of absolute ps \<noteq> ''/''"
  shows "path_of absolute ps \<noteq> []" "last (path_of absolute ps) \<noteq> CHR ''/''"
proof -
  have "last (last ps) \<noteq> CHR ''/''" "ps \<noteq> []" if "\<not> (ps = [] \<and> \<not> absolute)"
  proof -
    show "ps \<noteq> []" using that assms(2) by (auto simp: path_of_def)
    then have "part_ok (last ps)" using canonical_parts [OF assms(1)] unfolding list_all_iff by auto
    then show "last (last ps) \<noteq> CHR ''/''" unfolding part_ok_def by (metis last_in_set)
  qed
  then show "path_of absolute ps \<noteq> []" "last (path_of absolute ps) \<noteq> CHR ''/''"
    using join_nonempty [OF canonical_parts [OF assms(1)], of "CHR ''/''"] by (auto simp: path_of_def)
qed

lemma dirname_basename:
  assumes s: "canonical absolute ps" "s = path_of absolute ps" "s \<noteq> ''/''"
  shows "\<exists>dir. dirname_of s = Inr dir \<and>
    path_parts s \<noteq> [] \<and> canonicalized_path (dir @ ''/'' @ last (path_parts s)) = Inr s"
proof (cases "find_last s CHR ''/''")
  case None
  then have "CHR ''/'' \<notin> set s" by (simp add: find_last_None)
  then have parts: "path_parts s = [s]" using path_of_last(1) [OF s(1)] s(2,3) split_on_join(2) [of "CHR ''/''" s] by simp
  have same: "starts_with_char (''./'' @ s) CHR ''/'' = starts_with_char s CHR ''/''"
    using \<open>CHR ''/'' \<notin> set s\<close> by (cases s) (auto simp: starts_with_char_def)
  have "path_parts (''./'' @ s) = ''.'' # path_parts s" using path_parts_append [of "''.''" s] by simp
  then have "canonicalized_path (''./'' @ s) = canonicalized_path s"
    using same by (simp only: canonicalized_path_eq canonical_parts_loop.simps if_True simp_thms)
  with None parts canonicalized_path_of [OF s(1)] s(2) show ?thesis by (auto simp: dirname_of_def)
next
  case (Some i)
  have last: "last s \<noteq> CHR ''/''" using path_of_last(2) [OF s(1)] s(2,3) by simp
  have i: "i < length s" "s ! i = CHR ''/''" using find_last_Some [OF Some] by auto
  note names = lexical_path_names [OF Some last]
  have base: "last (path_parts s) = drop (i + 1) s" "path_parts s \<noteq> []" using names(2) by simp_all
  show ?thesis
  proof (cases "i = 0")
    case True
    define u where "u = drop 1 s"
    have u: "s = CHR ''/'' # u" using names(1) True by (simp add: u_def)
    have "canonicalized_path (''//'' @ u) = canonicalized_path s"
      unfolding u append_Cons append_Nil canonicalized_path_eq path_parts_slash by (simp only: starts_with_char_def list.case)
    moreover have "substring_view s 0 1 = Inr ''/''" by (simp add: u substring_view_def)
    ultimately show ?thesis
      using Some True base canonicalized_path_of [OF s(1)] s(2) by (intro exI [of _ "''/''"]) (simp add: u_def dirname_of_def)
  next
    case False
    then have "canonicalized_path (take i s @ ''/'' @ drop (i + 1) s) = Inr s"
      using names(1) canonicalized_path_of [OF s(1)] s(2) by simp
    with False Some base i(1) show ?thesis by (auto simp: dirname_of_def substring_view_def)
  qed
qed

subsection \<open>Properties\<close>

text \<open>
  C16: \<^verbatim>\<open>LexicalPath::canonicalized_path\<close> returns for every path: the result has the parts of a canonical path (no
  empty part, no part \<open>.\<close>, and \<open>..\<close> only at the start of a relative path), is absolute exactly when the path
  is, and is left as it is by a second call.
\<close>

theorem canonicalized_path_canonical:
  "\<exists>ps. canonicalized_path path = Inr (path_of (starts_with_char path CHR ''/'') ps) \<and>
     canonical (starts_with_char path CHR ''/'') ps \<and>
     canonicalized_path (path_of (starts_with_char path CHR ''/'') ps) =
       Inr (path_of (starts_with_char path CHR ''/'') ps)"
  using canonicalized_path_eq canonical_parts_of canonicalized_path_of by blast

text \<open>
  C15: \<^verbatim>\<open>LexicalPath::relative_path\<close> returns for all absolute paths, and its result appended to the prefix leads
  back to the path: both have the same canonical path.
\<close>

theorem relative_path_resolves:
  assumes "starts_with_char a_path CHR ''/''" "starts_with_char a_prefix CHR ''/''"
  shows "\<exists>r. relative_path a_path a_prefix = Inr (Some r) \<and>
    canonicalized_path (a_prefix @ ''/'' @ r) = canonicalized_path a_path"
  using relative_path_parts [OF assms] append_relative [OF assms(2)] canonicalized_path_eq [of a_path] assms(1) by auto

theorem relative_path_resolves_witness:
  "\<exists>r. relative_path ''/usr/./lib'' ''/usr/share/x/'' = Inr (Some r) \<and>
    canonicalized_path (''/usr/share/x/'' @ ''/'' @ r) = canonicalized_path ''/usr/./lib''"
  by (rule relative_path_resolves) (simp_all add: starts_with_char_def)

text \<open>
  C17: The constructor of \<^verbatim>\<open>LexicalPath\<close> returns for every path (the \<^verbatim>\<open>VERIFY\<close> on the number of parts holds); the string of
  the object is canonical, its directory name and base name lead back to it unless it is the root, and the base
  name is the title, or the title, a dot and the extension.
\<close>

theorem lexical_path_recomposes: "\<exists>p. lexical_path path = Inr p \<and> recomposes p"
proof -
  obtain absolute ps where s: "canonicalized_path path = Inr (path_of absolute ps)" "canonical absolute ps"
    using canonicalized_path_eq canonical_parts_of by blast
  define s where "s = path_of absolute ps"
  have idem: "canonicalized_path s = Inr s" using canonicalized_path_of s(2) by (simp add: s_def)
  show ?thesis
  proof (cases "s = ''/''")
    case True
    then have "lexical_path path = Inr \<lparr>lexical_parts = [], lexical_string = ''/'', lexical_dirname = ''/'',
        lexical_basename = ''/'', lexical_title = ''/'', lexical_extension = []\<rparr>"
      using s(1) split_view_byte_nonempty [of "''/''" "CHR ''/''"]
      by (simp add: lexical_path_def s_def dirname_of_def title_extension_of_def find_last_def substring_view_def)
    with True idem show ?thesis by (simp add: recomposes_def)
  next
    case False
    obtain dir where dir: "dirname_of s = Inr dir"
        "path_parts s \<noteq> []" "canonicalized_path (dir @ ''/'' @ last (path_parts s)) = Inr s"
      using dirname_basename [OF s(2) s_def False] by blast
    obtain t e where te: "title_extension_of (last (path_parts s)) = Inr (t, e)"
        "last (path_parts s) = t \<and> e = [] \<or> last (path_parts s) = t @ ''.'' @ e \<and> t \<noteq> []"
      using title_extension by blast
    have "s \<noteq> []" using path_of_last(1) [OF s(2)] False by (simp add: s_def)
    then have "lexical_path path = Inr \<lparr>lexical_parts = path_parts s, lexical_string = s, lexical_dirname = dir,
        lexical_basename = last (path_parts s), lexical_title = t, lexical_extension = e\<rparr>"
      unfolding lexical_path_def s(1) bind_result_Inr s_def [symmetric] split_view_byte_nonempty dir(1)
      using False dir(2) te(1) by (simp only: if_False bind_result_Inr verify_True prod.case simp_thms)
    with idem dir(3) te(2) show ?thesis by (simp add: recomposes_def)
  qed
qed

end
