(* ===== verification/Hash_Table.thy ===== *)
theory Hash_Table
  imports Prelude "HOL-Library.Multiset"
begin

text \<open>
  \<^verbatim>\<open>AK/HashTable.h\<close> for the unordered table (\<^verbatim>\<open>IsOrdered = false\<close>): a set with open addressing, linear probing, the
  \<^emph>\<open>robin hood\<close> rule (an entry that is farther from its ideal bucket takes the place of one that is nearer) and deletion by
  shifting back.

  The array \<^verbatim>\<open>m_buckets\<close> is a list of buckets, empty for the null pointer.  The slot of a bucket is \<^term>\<open>None\<close> as long as
  it holds no object: reading it is the fault \<open>Bad_access\<close>, as is an index outside the array.  A \<^verbatim>\<open>VERIFY\<close> that does not
  hold is \<open>Aborted\<close>.  The loops of the table run until they find a certain bucket; they are given as much fuel as there
  are buckets, and \<open>Endless\<close> says that all buckets have been visited without finding it.  The memory allocator is the
  parameter \<open>alloc\<close>, which says whether an array of the given number of buckets can be allocated.
\<close>

subsection \<open>Types\<close>

datatype fault = Aborted | Bad_access | Endless | No_memory

type_synonym 'b run = "fault + 'b"

definition require :: "bool \<Rightarrow> unit run" where
  "require b = (if b then Inr () else Inl Aborted)"

definition must_run :: "'b run \<Rightarrow> 'b run" where
  "must_run r = (if r = Inl No_memory then Inl Aborted else r)"

datatype hash_set_result = InsertedNewEntry | ReplacedExistingEntry | KeptExistingEntry

datatype existing_entry_behavior = Keep | Replace

text \<open>The traits of the element type.\<close>

record 'a traits =
  hash_of :: "'a \<Rightarrow> 32 word"
  equals :: "'a \<Rightarrow> 'a \<Rightarrow> bool"
  may_have_slow_equality_check :: bool

record 'a bucket =
  bucket_state :: nat
  bucket_hash :: "32 word"
  slot :: "'a option"

record 'a hash_table =
  m_buckets :: "'a bucket list"
  m_size :: nat
  m_mask :: nat

abbreviation (input) Free :: nat where
  "Free \<equiv> 0"

abbreviation (input) CalculateLength :: nat where
  "CalculateLength \<equiv> 255"

text \<open>A bucket of the zeroed memory that \<^verbatim>\<open>kcalloc\<close> returns, and the table of the default constructor.\<close>

definition zero_bucket :: "'a bucket" where
  "zero_bucket = \<lparr>bucket_state = Free, bucket_hash = 0, slot = None\<rparr>"

definition empty_table :: "'a hash_table" where
  "empty_table = \<lparr>m_buckets = [], m_size = 0, m_mask = 0\<rparr>"

definition set_hash :: "'a traits \<Rightarrow> 32 word \<Rightarrow> 'a bucket \<Rightarrow> 'a bucket" where
  "set_hash T h b = (if may_have_slow_equality_check T then b\<lparr>bucket_hash := h\<rparr> else b)"

definition check_hash :: "'a traits \<Rightarrow> 32 word \<Rightarrow> 'a bucket \<Rightarrow> bool" where
  "check_hash T h b = (if may_have_slow_equality_check T then bucket_hash b = h else True)"

definition capacity :: "'a hash_table \<Rightarrow> nat" where
  "capacity t = (if m_buckets t = [] then 0 else m_mask t + 1)"

definition table_is_empty :: "'a hash_table \<Rightarrow> bool" where
  "table_is_empty t = (m_size t = 0)"

text \<open>Access to a bucket of the array and to the object in its slot.\<close>

definition bucket_at :: "'a hash_table \<Rightarrow> nat \<Rightarrow> 'a bucket run" where
  "bucket_at t i = (if i < length (m_buckets t) then Inr (m_buckets t ! i) else Inl Bad_access)"

definition read_slot :: "'a bucket \<Rightarrow> 'a run" where
  "read_slot b = (case slot b of None \<Rightarrow> Inl Bad_access | Some v \<Rightarrow> Inr v)"

definition put_bucket :: "'a hash_table \<Rightarrow> nat \<Rightarrow> 'a bucket \<Rightarrow> 'a hash_table" where
  "put_bucket t i b = t\<lparr>m_buckets := (m_buckets t)[i := b]\<rparr>"

subsection \<open>Lookup\<close>

definition bucket_matches :: "'a traits \<Rightarrow> 32 word \<Rightarrow> ('a \<Rightarrow> bool) \<Rightarrow> 'a bucket \<Rightarrow> bool run" where
  "bucket_matches T h predicate b =
     (if check_hash T h b then bind_result (read_slot b) (\<lambda>v. Inr (predicate v)) else Inr False)"

fun lookup_loop :: "'a traits \<Rightarrow> 'a hash_table \<Rightarrow> 32 word \<Rightarrow> ('a \<Rightarrow> bool) \<Rightarrow> nat \<Rightarrow> nat \<Rightarrow> nat option run" where
  "lookup_loop T t h predicate 0 bucket_index = Inl Endless"
| "lookup_loop T t h predicate (Suc fuel) bucket_index =
     bind_result (bucket_at t bucket_index) (\<lambda>b.
       if bucket_state b = Free then Inr None
       else bind_result (bucket_matches T h predicate b) (\<lambda>found.
         if found then Inr (Some bucket_index)
         else lookup_loop T t h predicate fuel ((bucket_index + 1) AND m_mask t)))"

definition lookup_with_hash :: "'a traits \<Rightarrow> 'a hash_table \<Rightarrow> 32 word \<Rightarrow> ('a \<Rightarrow> bool) \<Rightarrow> nat option run" where
  "lookup_with_hash T t h predicate =
     (if table_is_empty t then Inr None else lookup_loop T t h predicate (capacity t) (unat h AND m_mask t))"

definition table_find :: "'a traits \<Rightarrow> 'a hash_table \<Rightarrow> 'a \<Rightarrow> nat option run" where
  "table_find T t v =
     (if table_is_empty t then Inr None else lookup_with_hash T t (hash_of T v) (\<lambda>entry. equals T entry v))"

definition table_contains :: "'a traits \<Rightarrow> 'a hash_table \<Rightarrow> 'a \<Rightarrow> bool run" where
  "table_contains T t v = bind_result (table_find T t v) (\<lambda>it. Inr (it \<noteq> None))"

subsection \<open>Insertion\<close>

definition used_bucket_probe_length :: "'a traits \<Rightarrow> 'a hash_table \<Rightarrow> nat \<Rightarrow> nat run" where
  "used_bucket_probe_length T t i =
     bind_result (bucket_at t i) (\<lambda>b.
     bind_result (require (bucket_state b \<noteq> Free)) (\<lambda>_.
       if bucket_state b = CalculateLength then
         bind_result (read_slot b) (\<lambda>v.
           let ideal_bucket_index = unat (hash_of T v) AND m_mask t in
           if i < ideal_bucket_index then Inr (capacity t + i - ideal_bucket_index)
           else Inr (i - ideal_bucket_index))
       else Inr (bucket_state b - 1)))"

definition bucket_state_for_probe_length :: "nat \<Rightarrow> nat" where
  "bucket_state_for_probe_length probe_length = (if probe_length > 253 then CalculateLength else probe_length + 1)"

text \<open>
  The inner loop: find a free bucket for the displaced bucket \<open>bucket_to_move\<close>, exchanging it for every bucket on the way
  that is nearer to its ideal place.
\<close>

fun displace_loop :: "'a traits \<Rightarrow> nat \<Rightarrow> 'a hash_table \<Rightarrow> 'a bucket \<Rightarrow> nat \<Rightarrow> nat \<Rightarrow> 'a hash_table run" where
  "displace_loop T 0 t bucket_to_move bucket_index probe_length = Inl Endless"
| "displace_loop T (Suc fuel) t bucket_to_move bucket_index probe_length =
     (let bucket_index = (bucket_index + 1) AND m_mask t;
          probe_length = probe_length + 1
      in bind_result (bucket_at t bucket_index) (\<lambda>b.
        if bucket_state b = Free then
          Inr (put_bucket t bucket_index
            (bucket_to_move\<lparr>bucket_state := bucket_state_for_probe_length probe_length\<rparr>))
        else bind_result (used_bucket_probe_length T t bucket_index) (\<lambda>target_probe_length.
          if probe_length > target_probe_length then
            displace_loop T fuel
              (put_bucket t bucket_index
                (bucket_to_move\<lparr>bucket_state := bucket_state_for_probe_length probe_length\<rparr>))
              b bucket_index target_probe_length
          else displace_loop T fuel t bucket_to_move bucket_index probe_length)))"

text \<open>
  The outer loop.  It returns the result, the index of the bucket, the probe length and the table; for a new entry the
  bucket is still free.
\<close>

fun lookup_for_writing_loop ::
  "'a traits \<Rightarrow> 'a hash_table \<Rightarrow> 32 word \<Rightarrow> ('a \<Rightarrow> bool) \<Rightarrow> existing_entry_behavior \<Rightarrow> nat \<Rightarrow> nat \<Rightarrow> nat \<Rightarrow>
   (hash_set_result \<times> nat \<times> nat \<times> 'a hash_table) run" where
  "lookup_for_writing_loop T t h predicate behavior 0 bucket_index probe_length = Inl Endless"
| "lookup_for_writing_loop T t h predicate behavior (Suc fuel) bucket_index probe_length =
     bind_result (bucket_at t bucket_index) (\<lambda>b.
       if bucket_state b = Free then Inr (InsertedNewEntry, bucket_index, probe_length, t)
       else bind_result (bucket_matches T h predicate b) (\<lambda>found.
         if found then
           Inr (if behavior = Replace then ReplacedExistingEntry else KeptExistingEntry, bucket_index, 0, t)
         else bind_result (used_bucket_probe_length T t bucket_index) (\<lambda>target_probe_length.
           if probe_length > target_probe_length then
             bind_result
               (displace_loop T (capacity t)
                 (put_bucket t bucket_index
                   (set_hash T h (b\<lparr>bucket_state := bucket_state_for_probe_length probe_length, slot := None\<rparr>)))
                 b bucket_index target_probe_length) (\<lambda>t.
             bind_result (bucket_at t bucket_index) (\<lambda>inserted_bucket.
               Inr (InsertedNewEntry, bucket_index, probe_length,
                 put_bucket t bucket_index (inserted_bucket\<lparr>bucket_state := Free\<rparr>))))
           else lookup_for_writing_loop T t h predicate behavior fuel
             ((bucket_index + 1) AND m_mask t) (probe_length + 1))))"

definition lookup_for_writing ::
  "'a traits \<Rightarrow> 'a hash_table \<Rightarrow> 32 word \<Rightarrow> ('a \<Rightarrow> bool) \<Rightarrow> existing_entry_behavior \<Rightarrow>
   (hash_set_result \<times> nat \<times> nat \<times> 'a hash_table) run" where
  "lookup_for_writing T t h predicate behavior =
     lookup_for_writing_loop T t h predicate behavior (capacity t) (unat h AND m_mask t) 0"

definition commit_inserted_bucket :: "'a traits \<Rightarrow> 'a hash_table \<Rightarrow> nat \<Rightarrow> 32 word \<Rightarrow> nat \<Rightarrow> 'a hash_table run" where
  "commit_inserted_bucket T t i h probe_length =
     bind_result (bucket_at t i) (\<lambda>b.
       Inr (let t = put_bucket t i (set_hash T h (b\<lparr>bucket_state := bucket_state_for_probe_length probe_length\<rparr>))
            in t\<lparr>m_size := m_size t + 1\<rparr>))"

text \<open>\<^verbatim>\<open>write_slot\<close> constructs or assigns the object of a bucket.\<close>

definition write_slot :: "'a hash_table \<Rightarrow> nat \<Rightarrow> 'a \<Rightarrow> 'a hash_table run" where
  "write_slot t i v = bind_result (bucket_at t i) (\<lambda>b. Inr (put_bucket t i (b\<lparr>slot := Some v\<rparr>)))"

definition write_value ::
  "'a traits \<Rightarrow> 'a hash_table \<Rightarrow> 'a \<Rightarrow> existing_entry_behavior \<Rightarrow> (hash_set_result \<times> 'a hash_table) run" where
  "write_value T t v behavior =
     bind_result (lookup_for_writing T t (hash_of T v) (\<lambda>candidate. equals T candidate v) behavior)
       (\<lambda>(result, i, probe_length, t).
         case result of
           ReplacedExistingEntry \<Rightarrow> bind_result (write_slot t i v) (\<lambda>t. Inr (result, t))
         | InsertedNewEntry \<Rightarrow>
             bind_result (write_slot t i v) (\<lambda>t.
             bind_result (commit_inserted_bucket T t i (hash_of T v) probe_length) (\<lambda>t. Inr (result, t)))
         | KeptExistingEntry \<Rightarrow> Inr (result, t))"

subsection \<open>Growing\<close>

text \<open>\<^verbatim>\<open>AK/IntegralMath.h\<close>.\<close>

fun log2 :: "nat \<Rightarrow> nat" where
  "log2 n = (if n < 2 then 0 else Suc (log2 (n div 2)))"

declare log2.simps [simp del]

definition ceil_log2 :: "nat \<Rightarrow> nat" where
  "ceil_log2 n = (if n \<le> 1 then 0 else log2 (n - 1) + 1)"

definition exp2 :: "nat \<Rightarrow> nat" where
  "exp2 exponent = push_bit exponent 1"

text \<open>Iteration: the first used bucket at or after an index, and the objects of all used buckets in order.\<close>

fun scan_used :: "'a bucket list \<Rightarrow> nat \<Rightarrow> nat option" where
  "scan_used [] i = None"
| "scan_used (b # bs) i = (if bucket_state b \<noteq> Free then Some i else scan_used bs (Suc i))"

definition table_begin :: "'a hash_table \<Rightarrow> nat option" where
  "table_begin t = scan_used (m_buckets t) 0"

definition skip_to_next :: "'a hash_table \<Rightarrow> nat \<Rightarrow> nat option" where
  "skip_to_next t i = scan_used (drop (i + 1) (m_buckets t)) (i + 1)"

lemma scan_used_range: "scan_used bs i = Some j \<Longrightarrow> i \<le> j \<and> j < i + length bs"
  by (induction bs i rule: scan_used.induct) (auto split: if_splits)

function iterate :: "'a hash_table \<Rightarrow> nat option \<Rightarrow> nat list" where
  "iterate t it = (case it of None \<Rightarrow> [] | Some i \<Rightarrow> i # iterate t (skip_to_next t i))"
  by pat_completeness auto

termination
  by (relation "measure (\<lambda>(t, it). case it of None \<Rightarrow> 0 | Some i \<Rightarrow> Suc (length (m_buckets t) - i))")
    (auto simp: skip_to_next_def split: option.splits dest!: scan_used_range)

declare iterate.simps [simp del]

definition table_indices :: "'a hash_table \<Rightarrow> nat list" where
  "table_indices t = iterate t (table_begin t)"

fun read_all :: "'a hash_table \<Rightarrow> nat list \<Rightarrow> 'a list run" where
  "read_all t [] = Inr []"
| "read_all t (i # is) =
     bind_result (bucket_at t i) (\<lambda>b. bind_result (read_slot b) (\<lambda>v.
     bind_result (read_all t is) (\<lambda>vs. Inr (v # vs))))"

definition table_values :: "'a hash_table \<Rightarrow> 'a list run" where
  "table_values t = read_all t (table_indices t)"

fun write_all :: "'a traits \<Rightarrow> 'a hash_table \<Rightarrow> 'a list \<Rightarrow> 'a hash_table run" where
  "write_all T t [] = Inr t"
| "write_all T t (v # vs) = bind_result (write_value T t v Keep) (\<lambda>(result, t). write_all T t vs)"

definition should_grow :: "'a hash_table \<Rightarrow> bool" where
  "should_grow t = ((m_size t + 1) * 100 \<ge> capacity t * 70)"

definition try_rehash :: "(nat \<Rightarrow> bool) \<Rightarrow> 'a traits \<Rightarrow> 'a hash_table \<Rightarrow> nat \<Rightarrow> 'a hash_table run" where
  "try_rehash alloc T t new_capacity =
     (let new_capacity = exp2 (ceil_log2 (max new_capacity (capacity t + 1))) in
      bind_result (require (new_capacity \<ge> m_size t)) (\<lambda>_.
        if \<not> alloc new_capacity then Inl No_memory
        else if m_buckets t = [] then
          Inr (t\<lparr>m_buckets := replicate new_capacity zero_bucket, m_mask := new_capacity - 1\<rparr>)
        else
          bind_result (table_values t) (\<lambda>vs.
            write_all T \<lparr>m_buckets = replicate new_capacity zero_bucket, m_size = 0, m_mask = new_capacity - 1\<rparr> vs)))"

definition rehash :: "(nat \<Rightarrow> bool) \<Rightarrow> 'a traits \<Rightarrow> 'a hash_table \<Rightarrow> nat \<Rightarrow> 'a hash_table run" where
  "rehash alloc T t new_capacity = must_run (try_rehash alloc T t new_capacity)"

text \<open>The product is computed with \<^verbatim>\<open>size_t\<close>.\<close>

definition try_ensure_capacity :: "(nat \<Rightarrow> bool) \<Rightarrow> 'a traits \<Rightarrow> 'a hash_table \<Rightarrow> nat \<Rightarrow> 'a hash_table run" where
  "try_ensure_capacity alloc T t n =
     (let required_capacity = (n * 100) mod 2 ^ 64 div 70 + 1 in
      if required_capacity \<le> capacity t then Inr t else try_rehash alloc T t required_capacity)"

definition ensure_capacity :: "(nat \<Rightarrow> bool) \<Rightarrow> 'a traits \<Rightarrow> 'a hash_table \<Rightarrow> nat \<Rightarrow> 'a hash_table run" where
  "ensure_capacity alloc T t n = must_run (try_ensure_capacity alloc T t n)"

definition try_set ::
  "(nat \<Rightarrow> bool) \<Rightarrow> 'a traits \<Rightarrow> 'a hash_table \<Rightarrow> 'a \<Rightarrow> existing_entry_behavior \<Rightarrow>
   (hash_set_result \<times> 'a hash_table) run" where
  "try_set alloc T t v behavior =
     bind_result (if should_grow t then try_rehash alloc T t (max (capacity t * 2) 8) else Inr t) (\<lambda>t.
       write_value T t v behavior)"

definition table_set ::
  "(nat \<Rightarrow> bool) \<Rightarrow> 'a traits \<Rightarrow> 'a hash_table \<Rightarrow> 'a \<Rightarrow> existing_entry_behavior \<Rightarrow>
   (hash_set_result \<times> 'a hash_table) run" where
  "table_set alloc T t v behavior = must_run (try_set alloc T t v behavior)"

fun try_set_from ::
  "(nat \<Rightarrow> bool) \<Rightarrow> 'a traits \<Rightarrow> 'a hash_table \<Rightarrow> 'a list \<Rightarrow> 'a hash_table run" where
  "try_set_from alloc T t [] = Inr t"
| "try_set_from alloc T t (v # vs) =
     bind_result (try_set alloc T t v Replace) (\<lambda>(result, t). try_set_from alloc T t vs)"

text \<open>\<^verbatim>\<open>ensure\<close> with a hash, a predicate and a callback, which is the value that it returns.\<close>

definition ensure ::
  "(nat \<Rightarrow> bool) \<Rightarrow> 'a traits \<Rightarrow> 'a hash_table \<Rightarrow> 32 word \<Rightarrow> ('a \<Rightarrow> bool) \<Rightarrow> 'a \<Rightarrow> existing_entry_behavior \<Rightarrow>
   ('a \<times> 'a hash_table) run" where
  "ensure alloc T t h predicate initial behavior =
     bind_result (if should_grow t then rehash alloc T t (max (capacity t * 2) 8) else Inr t) (\<lambda>t.
     bind_result (lookup_for_writing T t h predicate behavior) (\<lambda>(result, i, probe_length, t).
     bind_result
       (case result of
          InsertedNewEntry \<Rightarrow>
            bind_result (write_slot t i initial) (\<lambda>t. commit_inserted_bucket T t i h probe_length)
        | ReplacedExistingEntry \<Rightarrow> write_slot t i initial
        | KeptExistingEntry \<Rightarrow> Inr t) (\<lambda>t.
     bind_result (bucket_at t i) (\<lambda>b. bind_result (read_slot b) (\<lambda>v. Inr (v, t))))))"

text \<open>The copy constructor, \<^verbatim>\<open>clear\<close> and \<^verbatim>\<open>clear_with_capacity\<close>.\<close>

fun set_all :: "(nat \<Rightarrow> bool) \<Rightarrow> 'a traits \<Rightarrow> 'a hash_table \<Rightarrow> 'a list \<Rightarrow> 'a hash_table run" where
  "set_all alloc T t [] = Inr t"
| "set_all alloc T t (v # vs) =
     bind_result (table_set alloc T t v Replace) (\<lambda>(result, t). set_all alloc T t vs)"

definition copy_table :: "(nat \<Rightarrow> bool) \<Rightarrow> 'a traits \<Rightarrow> 'a hash_table \<Rightarrow> 'a hash_table run" where
  "copy_table alloc T other =
     bind_result (rehash alloc T empty_table (capacity other)) (\<lambda>t.
     bind_result (table_values other) (\<lambda>vs. set_all alloc T t vs))"

definition clear :: "'a hash_table \<Rightarrow> 'a hash_table" where
  "clear t = empty_table"

definition clear_with_capacity :: "'a hash_table \<Rightarrow> 'a hash_table" where
  "clear_with_capacity t =
     (if m_buckets t = [] then t
      else t\<lparr>m_buckets := replicate (capacity t) zero_bucket, m_size := 0\<rparr>)"

subsection \<open>Deletion\<close>

text \<open>
  The loop that shifts the following buckets back.  The bucket that is moved keeps its state until the next one or the
  final mark overwrites it.
\<close>

fun shift_loop :: "'a traits \<Rightarrow> nat \<Rightarrow> 'a hash_table \<Rightarrow> nat \<Rightarrow> nat \<Rightarrow> 'a hash_table run" where
  "shift_loop T 0 t shift_to_index shift_from_index = Inl Endless"
| "shift_loop T (Suc fuel) t shift_to_index shift_from_index =
     (let shift_from_index = (shift_from_index + 1) AND m_mask t
      in bind_result (bucket_at t shift_from_index) (\<lambda>b.
        bind_result
          (if bucket_state b = Free then Inr 0 else used_bucket_probe_length T t shift_from_index)
          (\<lambda>shift_from_probe_length.
          if bucket_state b = Free \<or> shift_from_probe_length = 0 then
            bind_result (bucket_at t shift_to_index) (\<lambda>last_bucket.
              Inr (put_bucket t shift_to_index (last_bucket\<lparr>bucket_state := Free\<rparr>)))
          else
            shift_loop T fuel
              (put_bucket
                (put_bucket t shift_to_index
                  (b\<lparr>bucket_state := bucket_state_for_probe_length (shift_from_probe_length - 1)\<rparr>))
                shift_from_index (b\<lparr>slot := None\<rparr>))
              ((shift_to_index + 1) AND m_mask t) shift_from_index)))"

definition delete_bucket :: "'a traits \<Rightarrow> 'a hash_table \<Rightarrow> nat \<Rightarrow> 'a hash_table run" where
  "delete_bucket T t i =
     bind_result (bucket_at t i) (\<lambda>b.
     bind_result (require (bucket_state b \<noteq> Free)) (\<lambda>_.
     bind_result (require (i \<le> m_mask t)) (\<lambda>_.
       shift_loop T (capacity t) ((put_bucket t i (b\<lparr>slot := None\<rparr>))\<lparr>m_size := m_size t - 1\<rparr>) i i)))"

definition remove_iterator :: "'a traits \<Rightarrow> 'a hash_table \<Rightarrow> nat option \<Rightarrow> 'a hash_table run" where
  "remove_iterator T t it =
     bind_result (require (it \<noteq> None)) (\<lambda>_. delete_bucket T t (the it))"

definition table_remove :: "'a traits \<Rightarrow> 'a hash_table \<Rightarrow> 'a \<Rightarrow> (bool \<times> 'a hash_table) run" where
  "table_remove T t v =
     bind_result (table_find T t v) (\<lambda>it.
       if it \<noteq> None then bind_result (remove_iterator T t it) (\<lambda>t. Inr (True, t))
       else Inr (False, t))"

fun take_matching_loop ::
  "'a traits \<Rightarrow> ('a \<Rightarrow> bool) \<Rightarrow> nat \<Rightarrow> 'a hash_table \<Rightarrow> nat \<Rightarrow> 'a list \<Rightarrow> ('a list \<times> 'a hash_table) run" where
  "take_matching_loop T predicate 0 t i vs = Inl Endless"
| "take_matching_loop T predicate (Suc fuel) t i vs =
     (if i < capacity t then
        bind_result (bucket_at t i) (\<lambda>b.
          if bucket_state b = Free then take_matching_loop T predicate fuel t (i + 1) vs
          else
            bind_result (read_slot b) (\<lambda>v.
              if \<not> predicate v then take_matching_loop T predicate fuel t (i + 1) vs
              else
                bind_result (delete_bucket T t i) (\<lambda>t.
                bind_result (bucket_at t i) (\<lambda>b.
                  if bucket_state b \<noteq> Free then take_matching_loop T predicate fuel t i (vs @ [v])
                  else take_matching_loop T predicate fuel t (i + 1) (vs @ [v])))))
      else Inr (vs, t))"

text \<open>Every round passes a bucket or deletes one.\<close>

definition take_all_matching :: "'a traits \<Rightarrow> 'a hash_table \<Rightarrow> ('a \<Rightarrow> bool) \<Rightarrow> ('a list \<times> 'a hash_table) run" where
  "take_all_matching T t predicate = take_matching_loop T predicate (capacity t + m_size t + 1) t 0 []"

text \<open>\<^verbatim>\<open>remove_all_matching\<close> is the same loop, which counts instead of collecting.\<close>

definition remove_all_matching :: "'a traits \<Rightarrow> 'a hash_table \<Rightarrow> ('a \<Rightarrow> bool) \<Rightarrow> (bool \<times> 'a hash_table) run" where
  "remove_all_matching T t predicate =
     bind_result (take_matching_loop T predicate (capacity t + m_size t + 1) t 0 []) (\<lambda>(vs, t). Inr (vs \<noteq> [], t))"

end
