(* ===== verification/Robin_Hood.thy ===== *)
theory Robin_Hood
  imports Hash_Table
begin

text \<open>
  The invariant of the buckets of a hash table and what the loops do under it: lookup, displacement and shifting.
\<close>

declare lookup_loop.simps(2) [simp del] displace_loop.simps(2) [simp del] lookup_for_writing_loop.simps(2) [simp del]
  shift_loop.simps(2) [simp del] take_matching_loop.simps(2) [simp del]

subsection \<open>Positions on the ring of buckets\<close>

definition probe :: "nat \<Rightarrow> nat \<Rightarrow> nat \<Rightarrow> nat" where
  "probe N a i = (i + N - a) mod N"

lemma probe_less: "0 < N \<Longrightarrow> probe N a i < N"
  by (simp add: probe_def)

lemma probe_eq: "a < N \<Longrightarrow> i < N \<Longrightarrow> probe N a i = (if i < a then N + i - a else i - a)"
  using mod_add_self1 [of N "i - a"] by (auto simp: probe_def add.commute not_less simp del: mod_add_self1)

lemma probe_zero: "a < N \<Longrightarrow> i < N \<Longrightarrow> probe N a i = 0 \<longleftrightarrow> i = a"
  by (auto simp: probe_eq)

lemma next_eq: "i < N \<Longrightarrow> Suc i mod N = (if Suc i = N then 0 else Suc i)"
  by auto

lemma probe_next:
  assumes "a < N" "i < N"
  shows "probe N a (Suc i mod N) = (if probe N a i + 1 = N then 0 else probe N a i + 1)"
  using assms by (auto simp: probe_eq next_eq)

lemma offset_eq: "a < (N::nat) \<Longrightarrow> m < N \<Longrightarrow> (a + m) mod N = (if a + m < N then a + m else a + m - N)"
  by (cases "a + m < N") (simp_all add: le_mod_geq)

lemma probe_offset: "a < N \<Longrightarrow> m < N \<Longrightarrow> probe N a ((a + m) mod N) = m"
  by (auto simp: offset_eq probe_eq)

lemma offset_probe: "a < N \<Longrightarrow> i < N \<Longrightarrow> (a + probe N a i) mod N = i"
  by (subst offset_eq) (auto simp: probe_eq)

lemma offset_next: "Suc ((a + m) mod N) mod N = (a + Suc m) mod N"
  by (simp add: mod_Suc_eq)

lemma offset_inj: "a < (N::nat) \<Longrightarrow> m < N \<Longrightarrow> n < N \<Longrightarrow> (a + m) mod N = (a + n) mod N \<longleftrightarrow> m = n"
  using offset_eq [of a N m] offset_eq [of a N n] by (auto split: if_splits)

lemma next_neq: "i < N \<Longrightarrow> 1 < N \<Longrightarrow> Suc i mod N \<noteq> (i::nat)"
  by (simp add: next_eq)

lemma next_inj: "i < N \<Longrightarrow> j < N \<Longrightarrow> Suc i mod N = Suc j mod N \<longleftrightarrow> i = (j::nat)"
  by (auto simp: next_eq split: if_splits)

subsection \<open>The invariant\<close>

abbreviation used :: "'a bucket \<Rightarrow> bool" where
  "used b \<equiv> bucket_state b \<noteq> Free"

definition ideal :: "'a traits \<Rightarrow> nat \<Rightarrow> 'a \<Rightarrow> nat" where
  "ideal T N v = unat (hash_of T v) mod N"

lemma ideal_less [simp]: "0 < N \<Longrightarrow> ideal T N v < N"
  by (simp add: ideal_def)

text \<open>The distance of the entry in a bucket from its ideal bucket.\<close>

definition distance :: "'a traits \<Rightarrow> nat \<Rightarrow> nat \<Rightarrow> 'a bucket \<Rightarrow> nat" where
  "distance T N i b = probe N (ideal T N (the (slot b))) i"

definition holds :: "'a traits \<Rightarrow> nat \<Rightarrow> nat \<Rightarrow> 'a bucket \<Rightarrow> bool" where
  "holds T N i b \<longleftrightarrow>
     slot b \<noteq> None \<and> check_hash T (hash_of T (the (slot b))) b \<and>
     bucket_state b = bucket_state_for_probe_length (distance T N i b)"

text \<open>An entry that is not in its ideal bucket is at most one step worse off than the entry before it.\<close>

definition follows :: "'a traits \<Rightarrow> nat \<Rightarrow> nat \<Rightarrow> 'a bucket \<Rightarrow> nat \<Rightarrow> 'a bucket \<Rightarrow> bool" where
  "follows T N i b j c \<longleftrightarrow>
     (used c \<and> 0 < distance T N j c \<longrightarrow> used b \<and> distance T N j c \<le> distance T N i b + 1)"

definition buckets_ok :: "'a traits \<Rightarrow> 'a bucket list \<Rightarrow> bool" where
  "buckets_ok T bs \<longleftrightarrow>
     (\<forall>i < length bs. used (bs ! i) \<longrightarrow> holds T (length bs) i (bs ! i)) \<and>
     (\<forall>i < length bs. follows T (length bs) i (bs ! i) (Suc i mod length bs) (bs ! (Suc i mod length bs)))"

definition entries :: "'a bucket list \<Rightarrow> 'a list" where
  "entries bs = map (\<lambda>b. the (slot b)) (filter used bs)"

lemma state_for_nonzero [simp]: "bucket_state_for_probe_length p \<noteq> Free"
  by (simp add: bucket_state_for_probe_length_def)

lemma buckets_holds: "buckets_ok T bs \<Longrightarrow> i < length bs \<Longrightarrow> used (bs ! i) \<Longrightarrow> holds T (length bs) i (bs ! i)"
  by (simp add: buckets_ok_def)

lemma buckets_follows:
  "buckets_ok T bs \<Longrightarrow> i < length bs \<Longrightarrow>
   follows T (length bs) i (bs ! i) (Suc i mod length bs) (bs ! (Suc i mod length bs))"
  by (simp add: buckets_ok_def)

lemma buckets_ok_update:
  assumes ok: "buckets_ok T bs" and i: "i < length bs" and N: "1 < length bs"
    and "used b \<Longrightarrow> holds T (length bs) i b"
    and before: "\<And>k. k < length bs \<Longrightarrow> Suc k mod length bs = i \<Longrightarrow> follows T (length bs) k (bs ! k) i b"
    and after: "follows T (length bs) i b (Suc i mod length bs) (bs ! (Suc i mod length bs))"
  shows "buckets_ok T (bs[i := b])"
  unfolding buckets_ok_def length_list_update
proof (intro conjI allI impI)
  fix k
  assume k: "k < length bs"
  show "holds T (length bs) k (bs[i := b] ! k)" if "used (bs[i := b] ! k)"
    using that k assms(4) buckets_holds [OF ok k] by (cases "k = i") auto
  have less: "Suc k mod length bs < length bs" using k by (intro mod_less_divisor) linarith
  show "follows T (length bs) k (bs[i := b] ! k) (Suc k mod length bs) (bs[i := b] ! (Suc k mod length bs))"
  proof (cases "k = i")
    case True
    then show ?thesis using after next_neq [OF i N] i by simp
  next
    case False
    then show ?thesis using before [OF k] buckets_follows [OF ok k] k less i
      by (cases "Suc k mod length bs = i") simp_all
  qed
qed

lemma free_follows: "\<not> used c \<Longrightarrow> follows T N i b j c"
  by (simp add: follows_def)

lemma buckets_ok_replicate: "buckets_ok T (replicate n zero_bucket)"
  by (auto simp: buckets_ok_def follows_def zero_bucket_def)

subsection \<open>The multiset of entries\<close>

abbreviation elements :: "'a bucket list \<Rightarrow> 'a multiset" where
  "elements bs \<equiv> mset (entries bs)"

lemma elements_split:
  "i < length bs \<Longrightarrow> elements bs = elements (take i bs) + elements [bs ! i] + elements (drop (Suc i) bs)"
  unfolding entries_def
  by (subst id_take_nth_drop [of i bs]) (simp_all del: append_take_drop_id)

lemma elements_update:
  assumes "i < length bs"
  shows "elements (bs[i := b]) + elements [bs ! i] = elements bs + elements [b]"
  using elements_split [of i "bs[i := b]"] elements_split [OF assms] assms
  by (simp add: take_update_cancel drop_update_cancel)

lemma elements_single [simp]:
  "elements [b] = (if used b then {#the (slot b)#} else {#})"
  by (simp add: entries_def)

lemma elements_replicate [simp]: "entries (replicate n zero_bucket) = []"
  by (simp add: entries_def zero_bucket_def)

lemma in_entries: "v \<in> set (entries bs) \<longleftrightarrow> (\<exists>i < length bs. used (bs ! i) \<and> the (slot (bs ! i)) = v)"
  by (auto simp: entries_def in_set_conv_nth) 

subsection \<open>Tables with a ring of buckets\<close>

definition ring :: "'a hash_table \<Rightarrow> bool" where
  "ring t \<longleftrightarrow> (\<exists>k. length (m_buckets t) = 2 ^ k \<and> m_mask t = 2 ^ k - 1)"

lemma ring_mask: "ring t \<Longrightarrow> i AND m_mask t = i mod length (m_buckets t)"
  using and_mask_nat by (auto simp: ring_def)

lemma ring_capacity: "ring t \<Longrightarrow> capacity t = length (m_buckets t)"
  by (auto simp: ring_def capacity_def)

lemma ring_nonempty: "ring t \<Longrightarrow> 0 < length (m_buckets t)"
  by (auto simp: ring_def)

lemma put_bucket_simps [simp]:
  "m_buckets (put_bucket t i b) = (m_buckets t)[i := b]" "m_mask (put_bucket t i b) = m_mask t"
  "m_size (put_bucket t i b) = m_size t" "ring (put_bucket t i b) = ring t" "capacity (put_bucket t i b) = capacity t"
  by (simp_all add: put_bucket_def ring_def capacity_def)

lemma ring_size [simp]: "ring (t\<lparr>m_size := n\<rparr>) = ring t" "capacity (t\<lparr>m_size := n\<rparr>) = capacity t"
  by (simp_all add: ring_def capacity_def)

lemma bucket_at_eq: "i < length (m_buckets t) \<Longrightarrow> bucket_at t i = Inr (m_buckets t ! i)"
  by (simp add: bucket_at_def)

lemma read_slot_holds: "holds T N i b \<Longrightarrow> read_slot b = Inr (the (slot b))"
  by (auto simp: holds_def read_slot_def)

lemma used_bucket_probe_length_eq:
  assumes "ring t" "i < length (m_buckets t)" "used (m_buckets t ! i)" "holds T (length (m_buckets t)) i (m_buckets t ! i)"
  shows "used_bucket_probe_length T t i = Inr (distance T (length (m_buckets t)) i (m_buckets t ! i))"
proof -
  have "distance T (length (m_buckets t)) i (m_buckets t ! i) =
      (let a = ideal T (length (m_buckets t)) (the (slot (m_buckets t ! i)))
       in if i < a then length (m_buckets t) + i - a else i - a)"
    unfolding distance_def Let_def using ring_nonempty [OF assms(1)] assms(2) by (intro probe_eq ideal_less)
  with assms show ?thesis
    by (simp add: used_bucket_probe_length_def bucket_at_eq require_def read_slot_holds ring_mask ring_capacity ideal_def)
      (auto simp: holds_def bucket_state_for_probe_length_def ring_capacity Let_def split: if_splits)
qed

text \<open>All buckets from the ideal bucket of an entry to its bucket are used, by entries that are at least as far off.\<close>

lemma chain:
  assumes ok: "buckets_ok T bs" and i: "i < length bs" "used (bs ! i)"
    and a: "a = ideal T (length bs) (the (slot (bs ! i)))" and m: "m \<le> distance T (length bs) i (bs ! i)"
  defines "j \<equiv> (a + m) mod length bs"
  shows "used (bs ! j) \<and> m \<le> distance T (length bs) j (bs ! j)"
  using m unfolding j_def
proof (induction rule: inc_induct)
  case base
  have "(a + distance T (length bs) i (bs ! i)) mod length bs = i"
    unfolding distance_def a using i by (intro offset_probe ideal_less) linarith+
  then show ?case using i by simp
next
  case (step n)
  have less: "(a + n) mod length bs < length bs" using i(1) by (intro mod_less_divisor) linarith
  show ?case using buckets_follows [OF ok less] step by (auto simp: follows_def offset_next)
qed

subsection \<open>Lookup\<close>

definition matches :: "'a traits \<Rightarrow> 32 word \<Rightarrow> ('a \<Rightarrow> bool) \<Rightarrow> 'a bucket \<Rightarrow> bool" where
  "matches T h predicate b \<longleftrightarrow> check_hash T h b \<and> predicate (the (slot b))"

lemma bucket_matches_eq: "holds T N i b \<Longrightarrow> bucket_matches T h predicate b = Inr (matches T h predicate b)"
  by (simp add: bucket_matches_def matches_def read_slot_holds)

lemma lookup_loop:
  assumes t: "ring t" "buckets_ok T (m_buckets t)" and "i < length (m_buckets t)"
    and "\<not> used (m_buckets t ! ((i + d) mod length (m_buckets t)))" "d < fuel"
  shows "\<exists>r. lookup_loop T t h predicate fuel i = Inr r \<and>
    (case r of
       None \<Rightarrow> \<exists>e. \<not> used (m_buckets t ! ((i + e) mod length (m_buckets t))) \<and>
         (\<forall>m < e. used (m_buckets t ! ((i + m) mod length (m_buckets t))) \<and>
           \<not> matches T h predicate (m_buckets t ! ((i + m) mod length (m_buckets t))))
     | Some j \<Rightarrow> j < length (m_buckets t) \<and> used (m_buckets t ! j) \<and> matches T h predicate (m_buckets t ! j))"
  using assms(3-)
proof (induction fuel arbitrary: i d)
  case (Suc fuel)
  let ?N = "length (m_buckets t)"
  show ?case
  proof (cases "used (m_buckets t ! i) \<and> \<not> matches T h predicate (m_buckets t ! i)")
    case True
    then have "d \<noteq> 0" using Suc.prems by (cases d) auto
    then obtain d' where d: "d = Suc d'" by (cases d) auto
    have step: "(Suc i mod ?N + m) mod ?N = (i + Suc m) mod ?N" for m by (simp add: mod_simps)
    obtain r where r: "lookup_loop T t h predicate fuel (Suc i mod ?N) = Inr r"
      "case r of
         None \<Rightarrow> \<exists>e. \<not> used (m_buckets t ! ((Suc i mod ?N + e) mod ?N)) \<and>
           (\<forall>m < e. used (m_buckets t ! ((Suc i mod ?N + m) mod ?N)) \<and>
             \<not> matches T h predicate (m_buckets t ! ((Suc i mod ?N + m) mod ?N)))
       | Some j \<Rightarrow> j < ?N \<and> used (m_buckets t ! j) \<and> matches T h predicate (m_buckets t ! j)"
      using Suc.IH [of "Suc i mod ?N" d'] Suc.prems d ring_nonempty [OF t(1)] unfolding step by auto
    have "lookup_loop T t h predicate (Suc fuel) i = Inr r"
      using True r(1) Suc.prems(1) bucket_matches_eq [OF buckets_holds [OF t(2) Suc.prems(1)]] ring_mask [OF t(1)]
      by (simp add: lookup_loop.simps(2) bucket_at_eq)
    moreover have "\<exists>e. \<not> used (m_buckets t ! ((i + e) mod ?N)) \<and>
         (\<forall>m < e. used (m_buckets t ! ((i + m) mod ?N)) \<and> \<not> matches T h predicate (m_buckets t ! ((i + m) mod ?N)))"
      if none: "r = None"
    proof -
      obtain e where "\<not> used (m_buckets t ! ((i + Suc e) mod ?N))"
        "\<forall>m < e. used (m_buckets t ! ((i + Suc m) mod ?N)) \<and> \<not> matches T h predicate (m_buckets t ! ((i + Suc m) mod ?N))"
        using r(2) none unfolding step by auto
      with True Suc.prems(1) show ?thesis by (intro exI [of _ "Suc e"]) (auto simp: less_Suc_eq_0_disj)
    qed
    ultimately show ?thesis using r(2) by (intro exI [of _ r]) (simp split: option.splits)
  next
    case False
    then show ?thesis
      using Suc.prems(1) bucket_matches_eq [OF buckets_holds [OF t(2) Suc.prems(1)]]
      by (cases "used (m_buckets t ! i)") (auto simp: lookup_loop.simps(2) bucket_at_eq intro: exI [of _ 0])
  qed
qed simp

subsection \<open>Displacement\<close>

lemma distance_less: "i < N \<Longrightarrow> distance T N i b < N"
  by (simp add: distance_def probe_less)

lemma distance_bound:
  assumes "buckets_ok T bs" "i < length bs" "used (bs ! i)" "k < length bs" "\<not> used (bs ! k)"
  shows "distance T (length bs) i (bs ! i) + 1 < length bs"
proof (rule ccontr)
  let ?a = "ideal T (length bs) (the (slot (bs ! i)))"
  have a: "?a < length bs" using assms(2) by (intro ideal_less) linarith
  assume "\<not> distance T (length bs) i (bs ! i) + 1 < length bs"
  moreover have "probe (length bs) ?a k < length bs" using a by (intro probe_less) linarith
  ultimately have "probe (length bs) ?a k \<le> distance T (length bs) i (bs ! i)" by linarith
  from chain [OF assms(1-3) refl this] offset_probe [OF a assms(4)] assms(5) show False by simp
qed

text \<open>An entry that stands at bucket \<open>i\<close>, no worse off than the entry there, moves on to the next bucket.\<close>

definition carried :: "'a traits \<Rightarrow> 'a bucket list \<Rightarrow> nat \<Rightarrow> 'a bucket \<Rightarrow> 'a \<Rightarrow> nat \<Rightarrow> bool" where
  "carried T bs i b w p \<longleftrightarrow>
     buckets_ok T bs \<and> i < length bs \<and> used (bs ! i) \<and> (\<exists>k < length bs. \<not> used (bs ! k)) \<and>
     slot b = Some w \<and> check_hash T (hash_of T w) b \<and>
     p = probe (length bs) (ideal T (length bs) w) i \<and> p \<le> distance T (length bs) i (bs ! i)"

lemma carried_next:
  assumes "carried T bs i b w p"
  shows "1 < length bs" "Suc i mod length bs < length bs" "Suc i mod length bs \<noteq> i"
    "probe (length bs) (ideal T (length bs) w) (Suc i mod length bs) = p + 1"
proof -
  obtain k where "k < length bs" "\<not> used (bs ! k)" using assms by (auto simp: carried_def)
  then have "distance T (length bs) i (bs ! i) + 1 < length bs"
    using distance_bound assms by (auto simp: carried_def)
  then have bound: "p + 1 < length bs" using assms by (simp add: carried_def)
  then show N: "1 < length bs" by linarith
  then show "Suc i mod length bs < length bs" by (intro mod_less_divisor) linarith
  show "Suc i mod length bs \<noteq> i" using next_neq N assms by (simp add: carried_def)
  have "ideal T (length bs) w < length bs" using N by (intro ideal_less) linarith
  then show "probe (length bs) (ideal T (length bs) w) (Suc i mod length bs) = p + 1"
    using probe_next assms bound by (auto simp: carried_def)
qed

lemma carried_move:
  assumes c: "carried T bs i b w p"
  defines "j \<equiv> Suc i mod length bs" and "c \<equiv> b\<lparr>bucket_state := bucket_state_for_probe_length (p + 1)\<rparr>"
  assumes room: "used (bs ! j) \<Longrightarrow> distance T (length bs) j (bs ! j) < p + 1"
  shows "buckets_ok T (bs[j := c])" "distance T (length bs) j c = p + 1"
proof -
  note nx = carried_next [OF c, folded j_def]
  have ok: "buckets_ok T bs" using c by (simp add: carried_def)
  show dist: "distance T (length bs) j c = p + 1" using nx(4) c by (simp add: distance_def c_def carried_def)
  show "buckets_ok T (bs[j := c])"
  proof (rule buckets_ok_update)
    show "buckets_ok T bs" "j < length bs" "1 < length bs" using ok nx by simp_all
    show "holds T (length bs) j c"
      using dist c by (simp add: holds_def carried_def c_def check_hash_def)
    show "follows T (length bs) k (bs ! k) j c" if "k < length bs" "Suc k mod length bs = j" for k
    proof -
      have "k = i" using next_inj that c by (simp add: carried_def j_def)
      then show ?thesis using dist c by (simp add: follows_def carried_def)
    qed
    have "follows T (length bs) j (bs ! j) (Suc j mod length bs) (bs ! (Suc j mod length bs))"
      by (rule buckets_follows [OF ok nx(2)])
    then show "follows T (length bs) j c (Suc j mod length bs) (bs ! (Suc j mod length bs))"
      using room dist by (auto simp: follows_def c_def)
  qed
qed

lemma carried_elements:
  assumes "carried T bs i b w p"
  defines "j \<equiv> Suc i mod length bs" and "c \<equiv> b\<lparr>bucket_state := bucket_state_for_probe_length (p + 1)\<rparr>"
  shows "elements (bs[j := c]) + elements [bs ! j] = add_mset w (elements bs)"
  using elements_update [OF carried_next(2) [OF assms(1)], of c] assms(1) by (simp add: c_def j_def carried_def)

text \<open>The entry of an exchanged bucket is carried on, and so is an entry that finds no place.\<close>

lemma carried_exchange:
  assumes c: "carried T bs i b w p"
  defines "j \<equiv> Suc i mod length bs" and "c \<equiv> b\<lparr>bucket_state := bucket_state_for_probe_length (p + 1)\<rparr>"
  assumes room: "used (bs ! j)" "distance T (length bs) j (bs ! j) < p + 1"
  shows "carried T (bs[j := c]) j (bs ! j) (the (slot (bs ! j))) (distance T (length bs) j (bs ! j))"
proof -
  note nx = carried_next [OF c, folded j_def]
  have ok: "buckets_ok T bs" using c by (simp add: carried_def)
  obtain k where k: "k < length bs" "\<not> used (bs ! k)" using c by (auto simp: carried_def)
  then have "\<not> used (bs[j := c] ! k)" using room(1) by (cases "k = j") auto
  moreover have "holds T (length bs) j (bs ! j)" by (rule buckets_holds [OF ok nx(2) room(1)])
  moreover have "used c" by (simp add: c_def)
  ultimately show ?thesis
    using carried_move [OF c, folded j_def c_def] room nx(2) k(1)
    by (auto simp: carried_def holds_def distance_def)
qed

lemma carried_on:
  assumes c: "carried T bs i b w p"
  defines "j \<equiv> Suc i mod length bs"
  assumes "used (bs ! j)" "p + 1 \<le> distance T (length bs) j (bs ! j)"
  shows "carried T bs j b w (p + 1)"
  using assms carried_next [OF c] by (simp add: carried_def)

text \<open>The loop leaves the bucket \<open>s\<close> alone, for which any used bucket can stand in.\<close>

definition same_but :: "nat \<Rightarrow> 'a hash_table \<Rightarrow> 'a hash_table \<Rightarrow> bool" where
  "same_but s t t' \<longleftrightarrow>
     ring t' \<and> length (m_buckets t') = length (m_buckets t) \<and> m_size t' = m_size t \<and>
     m_buckets t' ! s = m_buckets t ! s"

lemma displace_loop:
  assumes "ring t" "s < length (m_buckets t)" "carried T ((m_buckets t)[s := g]) i b w p"
    and "i = (s + x) mod length (m_buckets t)" "x < f" "f < length (m_buckets t)" "f - x \<le> fuel"
    and "\<not> used ((m_buckets t)[s := g] ! ((s + f) mod length (m_buckets t)))"
  shows "\<exists>t'. displace_loop T fuel t b i p = Inr t' \<and> same_but s t t' \<and> buckets_ok T ((m_buckets t')[s := g]) \<and>
    elements ((m_buckets t')[s := g]) = add_mset w (elements ((m_buckets t)[s := g]))"
  using assms
proof (induction fuel arbitrary: t i b w p x)
  case (Suc fuel)
  let ?bs = "m_buckets t" and ?N = "length (m_buckets t)" and ?G = "(m_buckets t)[s := g]"
  define j where "j = Suc i mod ?N"
  define c where "c = b\<lparr>bucket_state := bucket_state_for_probe_length (p + 1)\<rparr>"
  note car = Suc.prems(3)
  have j: "j = (s + Suc x) mod ?N" "j < ?N" using Suc.prems(4) carried_next(2) [OF car] by (simp_all add: j_def offset_next)
  have "j \<noteq> s" using offset_inj [of s ?N "Suc x" 0] Suc.prems(2,5,6) j(1) ring_nonempty [OF Suc.prems(1)] by simp
  then have Gj: "?G ! j = ?bs ! j" and swap: "?bs[j := c, s := g] = ?G[j := c]"
    using j(2) by (simp_all add: list_update_swap)
  have step: "(i + 1) AND m_mask t = j" using ring_mask [OF Suc.prems(1)] by (simp add: j_def)
  note elems = carried_elements [OF car, unfolded length_list_update, folded j_def c_def]
  note move = carried_move [OF car, unfolded length_list_update, folded j_def c_def]
  show ?case
  proof (cases "used (?bs ! j)")
    case False
    then have "displace_loop T (Suc fuel) t b i p = Inr (put_bucket t j c)"
      using j(2) step by (simp add: displace_loop.simps(2) bucket_at_eq c_def)
    with False Gj swap elems move(1) Suc.prems(1) \<open>j \<noteq> s\<close> show ?thesis by (simp add: same_but_def)
  next
    case True
    then have "Suc x < f" using Suc.prems(5,8) Gj j(1) by (metis Suc_lessI)
    have fuel: "f - Suc x \<le> fuel" using Suc.prems(7) by linarith
    have holds: "holds T ?N j (?bs ! j)" using buckets_holds [of T ?G j] car True Gj j(2) by (simp add: carried_def)
    define q where "q = distance T ?N j (?bs ! j)"
    have q: "used_bucket_probe_length T t j = Inr q"
      using used_bucket_probe_length_eq [OF Suc.prems(1) j(2) True holds] by (simp add: q_def)
    show ?thesis
    proof (cases "q < p + 1")
      case True
      let ?t = "put_bucket t j c"
      have less: "(s + f) mod ?N \<noteq> j" using offset_inj [of s ?N f "Suc x"] Suc.prems(2,6) \<open>Suc x < f\<close> j(1) by simp
      have "carried T ((m_buckets ?t)[s := g]) j (?bs ! j) (the (slot (?bs ! j))) q"
        using carried_exchange [OF car, unfolded length_list_update, folded j_def c_def] \<open>used (?bs ! j)\<close> True Gj swap
        by (simp add: q_def)
      then obtain t' where t': "displace_loop T fuel ?t (?bs ! j) j q = Inr t'" "same_but s ?t t'"
        "buckets_ok T ((m_buckets t')[s := g])"
        "elements ((m_buckets t')[s := g]) = add_mset (the (slot (?bs ! j))) (elements ((m_buckets ?t)[s := g]))"
        using Suc.IH [of ?t j "?bs ! j" "the (slot (?bs ! j))" q "Suc x"] Suc.prems j \<open>Suc x < f\<close> swap less fuel by auto
      have "displace_loop T (Suc fuel) t b i p = Inr t'"
        using t'(1) j(2) step q True \<open>used (?bs ! j)\<close> by (simp add: displace_loop.simps(2) bucket_at_eq c_def)
      with t' elems swap Gj \<open>used (?bs ! j)\<close> \<open>j \<noteq> s\<close> show ?thesis by (simp add: same_but_def)
    next
      case False
      have "carried T ?G j b w (p + 1)"
        using carried_on [OF car] \<open>used (?bs ! j)\<close> False Gj by (simp add: q_def j_def)
      then obtain t' where t': "displace_loop T fuel t b j (p + 1) = Inr t'" "same_but s t t'"
        "buckets_ok T ((m_buckets t')[s := g])" "elements ((m_buckets t')[s := g]) = add_mset w (elements ?G)"
        using Suc.IH [of t j b w "p + 1" "Suc x"] Suc.prems j \<open>Suc x < f\<close> fuel by auto
      have "displace_loop T (Suc fuel) t b i p = Inr t'"
        using t'(1) j(2) step q False \<open>used (?bs ! j)\<close> by (simp add: displace_loop.simps(2) bucket_at_eq)
      with t' show ?thesis by blast
    qed
  qed
qed simp

subsection \<open>Lookup for writing\<close>

text \<open>The buckets before offset \<open>m\<close> from \<open>a\<close> are used by other entries, which are at least as far from home as a new one.\<close>

definition passed :: "'a traits \<Rightarrow> 32 word \<Rightarrow> ('a \<Rightarrow> bool) \<Rightarrow> 'a bucket list \<Rightarrow> nat \<Rightarrow> bool" where
  "passed T h predicate bs m \<longleftrightarrow>
     (\<forall>j < m. let i = (unat h + j) mod length bs in
        used (bs ! i) \<and> \<not> matches T h predicate (bs ! i) \<and> j \<le> distance T (length bs) i (bs ! i))"

definition stops :: "'a traits \<Rightarrow> 32 word \<Rightarrow> 'a bucket list \<Rightarrow> nat \<Rightarrow> bool" where
  "stops T h bs m \<longleftrightarrow>
     (let i = (unat h + m) mod length bs in used (bs ! i) \<longrightarrow> distance T (length bs) i (bs ! i) < m)"

lemma passed_Suc:
  "passed T h predicate bs m \<Longrightarrow> i = (unat h + m) mod length bs \<Longrightarrow> used (bs ! i) \<Longrightarrow>
   \<not> matches T h predicate (bs ! i) \<Longrightarrow> m \<le> distance T (length bs) i (bs ! i) \<Longrightarrow> passed T h predicate bs (Suc m)"
  by (auto simp: passed_def less_Suc_eq Let_def)

text \<open>The search has passed every entry that could match.\<close>

lemma no_entry_matches:
  assumes ok: "buckets_ok T bs" and "passed T h predicate bs m" "stops T h bs m"
    and hash: "\<And>v. v \<in> set (entries bs) \<Longrightarrow> predicate v \<Longrightarrow> hash_of T v = h"
    and v: "v \<in> set (entries bs)"
  shows "\<not> predicate v"
proof
  assume match: "predicate v"
  obtain i where i: "i < length bs" "used (bs ! i)" "the (slot (bs ! i)) = v" using v by (auto simp: in_entries)
  let ?a = "ideal T (length bs) v" and ?d = "distance T (length bs) i (bs ! i)"
  have a: "?a = unat h mod length bs" using hash [OF v match] by (simp add: ideal_def)
  have pos: "(?a + n) mod length bs = (unat h + n) mod length bs" for n by (simp add: a mod_simps)
  have "(?a + ?d) mod length bs = i" unfolding distance_def i(3) using i(1) by (intro offset_probe ideal_less) linarith+
  moreover have "matches T h predicate (bs ! i)"
    using buckets_holds [OF ok i(1,2)] hash [OF v match] match i(3) by (auto simp: holds_def matches_def)
  ultimately have "m \<le> ?d" using assms(2) pos unfolding passed_def Let_def by (metis not_le)
  then show False using chain [OF ok i(1,2) i(3) [symmetric, THEN arg_cong [of _ _ "ideal T (length bs)"]]] assms(3) pos
    unfolding stops_def Let_def by (metis not_le)
qed

lemma place_bucket:
  assumes ok: "buckets_ok T bs" and N: "1 < length bs" "m < length bs"
    and "passed T h predicate bs m" "stops T h bs m"
    and k: "k = (unat h + m) mod length bs"
    and c: "slot c = Some w" "hash_of T w = h" "check_hash T h c" "bucket_state c = bucket_state_for_probe_length m"
  shows "buckets_ok T (bs[k := c])" "distance T (length bs) k c = m"
    "elements (bs[k := c]) + elements [bs ! k] = add_mset w (elements bs)"
proof -
  have a: "ideal T (length bs) w = unat h mod length bs" using c(2) by (simp add: ideal_def)
  have "ideal T (length bs) w < length bs" using N(1) by (intro ideal_less) linarith
  moreover have "k = (ideal T (length bs) w + m) mod length bs" by (simp add: k a mod_simps)
  ultimately show dist: "distance T (length bs) k c = m"
    using probe_offset [of "ideal T (length bs) w" "length bs" m] N(2) c(1) by (simp add: distance_def)
  have kN: "k < length bs" using N(1) unfolding k by (intro mod_less_divisor) linarith
  show "elements (bs[k := c]) + elements [bs ! k] = add_mset w (elements bs)"
    using elements_update [OF kN, of c] c(1,4) by simp
  show "buckets_ok T (bs[k := c])"
  proof (rule buckets_ok_update [OF ok kN N(1)])
    show "holds T (length bs) k c" using dist c by (simp add: holds_def)
    show "follows T (length bs) i (bs ! i) k c" if i: "i < length bs" "Suc i mod length bs = k" for i
    proof (cases m)
      case (Suc n)
      define i' where "i' = (unat h + n) mod length bs"
      have "Suc i' mod length bs = k" using Suc k offset_next by (simp add: i'_def)
      moreover have "i' < length bs" using N(1) unfolding i'_def by (intro mod_less_divisor) linarith
      ultimately have "i = i'" using next_inj i by blast
      then show ?thesis using assms(4) Suc dist by (auto simp: passed_def follows_def i'_def Let_def)
    qed (simp add: follows_def dist)
    show "follows T (length bs) k c (Suc k mod length bs) (bs ! (Suc k mod length bs))"
      using buckets_follows [OF ok kN] assms(5) dist c(4) by (auto simp: follows_def stops_def k Let_def)
  qed
qed

text \<open>A bucket reserved for a new entry: whatever bucket with the entry, its hash and the probe length is put there.\<close>

definition reserved :: "'a traits \<Rightarrow> 'a \<Rightarrow> 'a hash_table \<Rightarrow> nat \<Rightarrow> nat \<Rightarrow> 'a hash_table \<Rightarrow> bool" where
  "reserved T w t k m t' \<longleftrightarrow>
     ring t' \<and> length (m_buckets t') = length (m_buckets t) \<and> m_size t' = m_size t \<and>
     k < length (m_buckets t) \<and>
     (\<forall>c. slot c = Some w \<and> check_hash T (hash_of T w) c \<and> bucket_state c = bucket_state_for_probe_length m \<longrightarrow>
        buckets_ok T ((m_buckets t')[k := c]) \<and>
        elements ((m_buckets t')[k := c]) = add_mset w (elements (m_buckets t)))"

lemma reserve_free:
  assumes "ring t" "buckets_ok T (m_buckets t)" "1 < length (m_buckets t)" "m < length (m_buckets t)"
    and "passed T (hash_of T w) predicate (m_buckets t) m" "k = (unat (hash_of T w) + m) mod length (m_buckets t)"
    and "\<not> used (m_buckets t ! k)"
  shows "reserved T w t k m t"
proof -
  have "stops T (hash_of T w) (m_buckets t) m" using assms(6,7) by (simp add: stops_def Let_def)
  note place = place_bucket [OF assms(2-5) this assms(6)]
  have "k < length (m_buckets t)" using assms(3) unfolding assms(6) by (intro mod_less_divisor) linarith
  then show ?thesis using place(1,3) assms(1,7) by (auto simp: reserved_def)
qed

lemma reserve_steal:
  assumes t: "ring t" and ok: "buckets_ok T (m_buckets t)" and m: "m < length (m_buckets t)"
    and "passed T (hash_of T w) predicate (m_buckets t) m" "stops T (hash_of T w) (m_buckets t) m"
    and k: "k = (unat (hash_of T w) + m) mod length (m_buckets t)"
    and used: "used (m_buckets t ! k)" "m_buckets t ! k = b" "q = distance T (length (m_buckets t)) k b"
    and free: "f < length (m_buckets t)" "\<not> used (m_buckets t ! ((k + f) mod length (m_buckets t)))"
  shows "\<exists>t'. displace_loop T (capacity t) (put_bucket t k s) b k q = Inr t' \<and> k < length (m_buckets t') \<and>
    (\<forall>x. reserved T w t k m (put_bucket t' k x))"
proof -
  let ?bs = "m_buckets t" and ?N = "length (m_buckets t)"
  have kN: "k < ?N" using m unfolding k by (intro mod_less_divisor) linarith
  have f: "0 < f" using free used(1) kN by (cases f) auto
  have N: "1 < ?N" using f free(1) by linarith
  have holds: "holds T ?N k b" using buckets_holds [OF ok kN] used by simp
  have displaced: "\<exists>t'. displace_loop T (capacity t) (put_bucket t k s) b k q = Inr t' \<and>
      same_but k (put_bucket t k s) t' \<and> buckets_ok T ((m_buckets t')[k := c]) \<and>
      elements ((m_buckets t')[k := c]) = add_mset w (elements ?bs)"
    if c: "slot c = Some w" "check_hash T (hash_of T w) c" "bucket_state c = bucket_state_for_probe_length m" for c
  proof -
    note place = place_bucket [OF ok N m assms(4,5) k c(1) refl c(2,3)]
    have less: "(k + f) mod ?N < ?N" using N by (intro mod_less_divisor) linarith
    have "(k + f) mod ?N \<noteq> k" using offset_inj [of k ?N f 0] f free(1) kN ring_nonempty [OF t] by simp
    then have fr: "\<not> used (?bs[k := c] ! ((k + f) mod ?N))" using free(2) by simp
    have "q < m" using assms(5) used k by (simp add: stops_def Let_def)
    then have "carried T (?bs[k := c]) k b (the (slot b)) q"
      using place(1,2) kN c(3) fr less holds used(2,3) by (auto simp: carried_def holds_def distance_def)
    from displace_loop [of "put_bucket t k s" k T c k b "the (slot b)" q 0 f "capacity t"] this
    show ?thesis using t kN free(1) f fr place(3) used ring_capacity [OF t] by auto
  qed
  let ?c = "\<lparr>bucket_state = bucket_state_for_probe_length m, bucket_hash = hash_of T w, slot = Some w\<rparr>"
  obtain t' where t': "displace_loop T (capacity t) (put_bucket t k s) b k q = Inr t'" "same_but k (put_bucket t k s) t'"
  proof -
    have "check_hash T (hash_of T w) ?c" by (simp add: check_hash_def)
    with displaced [of ?c] that show thesis by auto
  qed
  with displaced show ?thesis
    using kN by (auto simp: reserved_def same_but_def)
qed

lemma lookup_for_writing_loop:
  assumes t: "ring t" "buckets_ok T (m_buckets t)" "1 < length (m_buckets t)"
    and hash: "\<And>v. v \<in> set (entries (m_buckets t)) \<Longrightarrow> predicate v \<Longrightarrow> hash_of T v = hash_of T w"
    and "passed T (hash_of T w) predicate (m_buckets t) m" "m \<le> d" "d < length (m_buckets t)" "d - m < fuel"
    and "\<not> used (m_buckets t ! ((unat (hash_of T w) + d) mod length (m_buckets t)))"
  shows "\<exists>r k p t'. lookup_for_writing_loop T t (hash_of T w) predicate behavior fuel
      ((unat (hash_of T w) + m) mod length (m_buckets t)) m = Inr (r, k, p, t') \<and>
    (r = InsertedNewEntry \<and> reserved T w t k p t' \<and> (\<forall>v \<in> set (entries (m_buckets t)). \<not> predicate v) \<or>
     r = (if behavior = Replace then ReplacedExistingEntry else KeptExistingEntry) \<and> t' = t \<and>
     k < length (m_buckets t) \<and> used (m_buckets t ! k) \<and> predicate (the (slot (m_buckets t ! k))))"
  using assms(5-)
proof (induction fuel arbitrary: m)
  case (Suc fuel)
  let ?h = "hash_of T w" and ?bs = "m_buckets t" and ?N = "length (m_buckets t)"
  define k where "k = (unat ?h + m) mod ?N"
  have kN: "k < ?N" using t(3) unfolding k_def by (intro mod_less_divisor) linarith
  have at: "bucket_at t k = Inr (?bs ! k)" using kN by (simp add: bucket_at_eq)
  have m: "m < ?N" using Suc.prems by linarith
  show ?case
  proof (cases "used (?bs ! k)")
    case False
    then have "stops T ?h ?bs m" by (simp add: stops_def k_def Let_def)
    from no_entry_matches [OF t(2) Suc.prems(1) this hash] reserve_free [OF t m Suc.prems(1) k_def False] False at
    show ?thesis by (auto simp: lookup_for_writing_loop.simps(2) simp flip: k_def)
  next
    case True
    have holds: "holds T ?N k (?bs ! k)" by (rule buckets_holds [OF t(2) kN True])
    define q where "q = distance T ?N k (?bs ! k)"
    have q: "used_bucket_probe_length T t k = Inr q"
      using used_bucket_probe_length_eq [OF t(1) kN True holds] by (simp add: q_def)
    note unfold = lookup_for_writing_loop.simps(2) [of T t ?h predicate behavior fuel k m] at bind_result_Inr
      bucket_matches_eq [OF holds] q
    consider "matches T ?h predicate (?bs ! k)" | "\<not> matches T ?h predicate (?bs ! k)" "q < m"
      | "\<not> matches T ?h predicate (?bs ! k)" "m \<le> q" by linarith
    then show ?thesis
    proof cases
      case 1
      with True kN show ?thesis unfolding k_def [symmetric] unfold by (auto simp: matches_def)
    next
      case 2
      have stop: "stops T ?h ?bs m" using 2 by (simp add: stops_def k_def q_def Let_def)
      obtain e where "d = m + e" using Suc.prems(2) le_Suc_ex by blast
      then have f: "(k + (d - m)) mod ?N = (unat ?h + d) mod ?N" by (simp add: k_def mod_simps add.assoc)
      have less: "d - m < ?N" using Suc.prems(3) by linarith
      define s where "s = set_hash T ?h ((?bs ! k)\<lparr>bucket_state := bucket_state_for_probe_length m, slot := None\<rparr>)"
      obtain t' where "displace_loop T (capacity t) (put_bucket t k s) (?bs ! k) k q = Inr t'"
        "k < length (m_buckets t')" "\<forall>x. reserved T w t k m (put_bucket t' k x)"
        using reserve_steal [OF t(1,2) m Suc.prems(1) stop k_def True refl q_def less, unfolded f, OF Suc.prems(5)] by blast
      with 2 True no_entry_matches [OF t(2) Suc.prems(1) stop hash] show ?thesis
        unfolding k_def [symmetric] unfold s_def by (auto simp: bucket_at_eq)
    next
      case 3
      have "passed T ?h predicate ?bs (Suc m)"
        using passed_Suc [OF Suc.prems(1) k_def True] 3 by (simp add: q_def)
      moreover have "d \<noteq> m" using True Suc.prems(5) by (auto simp: k_def)
      ultimately show ?thesis
        using Suc.IH [of "Suc m"] Suc.prems(2-5) 3 True offset_next [of "unat ?h" m ?N] ring_mask [OF t(1), of "k + 1"]
        unfolding k_def [symmetric] unfold by simp
    qed
  qed
qed simp

subsection \<open>Shifting back\<close>

lemma shift_bucket:
  assumes ok: "buckets_ok T bs" and i: "i < length bs" "1 < length bs"
  defines "j \<equiv> Suc i mod length bs"
  assumes b: "bs ! j = b" "used b" "0 < distance T (length bs) j b"
  defines "c \<equiv> b\<lparr>bucket_state := bucket_state_for_probe_length (distance T (length bs) j b - 1)\<rparr>"
  shows "buckets_ok T (bs[i := c])"
proof -
  let ?d = "distance T (length bs)"
  have jN: "j < length bs" using i(2) unfolding j_def by (intro mod_less_divisor) linarith
  have holds: "holds T (length bs) j b" using buckets_holds [OF ok jN] b(1,2) by simp
  have "ideal T (length bs) (the (slot b)) < length bs" using i(2) by (intro ideal_less) linarith
  then have dist: "?d i c = ?d j b - 1"
    using probe_next [OF _ i(1)] b(3) by (auto simp: distance_def c_def j_def split: if_splits)
  have prev: "used (bs ! i)" "?d j b \<le> ?d i (bs ! i) + 1"
    using buckets_follows [OF ok i(1)] b by (auto simp: follows_def j_def)
  show ?thesis
  proof (rule buckets_ok_update [OF ok i])
    show "holds T (length bs) i c" using holds dist by (simp add: holds_def c_def check_hash_def)
    show "follows T (length bs) k (bs ! k) i c" if "k < length bs" "Suc k mod length bs = i" for k
      using buckets_follows [OF ok that(1)] that(2) prev dist by (auto simp: follows_def)
    show "follows T (length bs) i c (Suc i mod length bs) (bs ! (Suc i mod length bs))"
      using dist b by (auto simp: follows_def c_def simp flip: j_def)
  qed
qed

lemma clear_bucket:
  assumes ok: "buckets_ok T bs" and i: "i < length bs" "1 < length bs" and x: "\<not> used x"
    and stop: "\<not> (used (bs ! (Suc i mod length bs)) \<and> 0 < distance T (length bs) (Suc i mod length bs) (bs ! (Suc i mod length bs)))"
  shows "buckets_ok T (bs[i := x])"
proof (rule buckets_ok_update [OF ok i])
  show "follows T (length bs) k (bs ! k) i x" for k using x by (rule free_follows)
  show "follows T (length bs) i x (Suc i mod length bs) (bs ! (Suc i mod length bs))"
    using stop by (auto simp: follows_def)
qed (use x in simp)

lemma shift_loop:
  assumes "ring t" "i < length (m_buckets t)" "used g" "slot g = Some v" "buckets_ok T ((m_buckets t)[i := g])"
    and "0 < d" "d < length (m_buckets t)" "d \<le> fuel" "\<not> used (m_buckets t ! ((i + d) mod length (m_buckets t)))"
  shows "\<exists>t'. shift_loop T fuel t i i = Inr t' \<and> ring t' \<and> length (m_buckets t') = length (m_buckets t) \<and>
    m_size t' = m_size t \<and> buckets_ok T (m_buckets t') \<and>
    add_mset v (elements (m_buckets t')) = elements ((m_buckets t)[i := g])"
  using assms
proof (induction fuel arbitrary: t i g v d)
  case (Suc fuel)
  let ?bs = "m_buckets t" and ?N = "length (m_buckets t)" and ?G = "(m_buckets t)[i := g]"
  define j where "j = Suc i mod ?N"
  have N: "1 < ?N" using Suc.prems(6,7) by linarith
  have j: "j < ?N" using N unfolding j_def by (intro mod_less_divisor) linarith
  have "j \<noteq> i" using next_neq [OF Suc.prems(2) N] by (simp add: j_def)
  then have Gj: "?G ! j = ?bs ! j" by simp
  have step: "(i + 1) AND m_mask t = j" using ring_mask [OF Suc.prems(1)] by (simp add: j_def)
  have G: "i < length ?G" "1 < length ?G" using Suc.prems(2) N by simp_all
  define p where "p = distance T ?N j (?bs ! j)"
  have p: "used_bucket_probe_length T t j = Inr p" if "used (?bs ! j)"
    using used_bucket_probe_length_eq [OF Suc.prems(1) j that] buckets_holds [OF Suc.prems(5), of j] Gj that j
    by (simp add: p_def)
  show ?case
  proof (cases "used (?bs ! j) \<and> 0 < p")
    case False
    define x where "x = (?bs ! i)\<lparr>bucket_state := 0\<rparr>"
    have "shift_loop T (Suc fuel) t i i = Inr (put_bucket t i x)"
      using False p step j Suc.prems(2) by (cases "used (?bs ! j)") (simp_all add: shift_loop.simps(2) bucket_at_eq x_def)
    moreover have "buckets_ok T (?G[i := x])"
      using clear_bucket [OF Suc.prems(5) G, of x] False Gj by (simp add: p_def x_def flip: j_def)
    moreover have "add_mset v (elements (?bs[i := x])) = elements ?G"
      using elements_update [OF G(1), of x] Suc.prems(2-4) by (simp add: x_def)
    ultimately show ?thesis using Suc.prems(1) by simp
  next
    case True
    define b where "b = ?bs ! j"
    define c where "c = b\<lparr>bucket_state := bucket_state_for_probe_length (p - 1)\<rparr>"
    let ?t = "put_bucket (put_bucket t i c) j (b\<lparr>slot := None\<rparr>)"
    have "holds T ?N j b" using buckets_holds [OF Suc.prems(5), of j] True Gj j by (simp add: b_def)
    then obtain u where u: "slot b = Some u" by (auto simp: holds_def)
    have G1: "(m_buckets ?t)[j := b] = ?G[i := c]"
      using \<open>j \<noteq> i\<close> by (simp add: b_def list_update_swap [of i j])
    have ok: "buckets_ok T ((m_buckets ?t)[j := b])" unfolding G1
      using shift_bucket [OF Suc.prems(5) G, of b] Gj True by (simp add: b_def c_def p_def flip: j_def)
    have "d \<noteq> 1" using Suc.prems(9) True by (auto simp: j_def)
    then have d: "0 < d - 1" "d - 1 < ?N" "d - 1 \<le> fuel" using Suc.prems(6-8) by linarith+
    have pos: "(j + (d - 1)) mod ?N = (i + d) mod ?N" using Suc.prems(6) by (cases d) (simp_all add: j_def mod_simps)
    have "\<not> used (m_buckets ?t ! ((j + (d - 1)) mod ?N))"
      using Suc.prems(7,9) True offset_inj [of i ?N d 0] offset_inj [of j ?N "d - 1" 0] Suc.prems(2,6) d j
        ring_nonempty [OF Suc.prems(1)]
      unfolding pos by auto
    with Suc.IH [OF _ _ _ u ok, of "d - 1"] obtain t' where t': "shift_loop T fuel ?t j j = Inr t'" "ring t'"
      "length (m_buckets t') = ?N" "m_size t' = m_size t" "buckets_ok T (m_buckets t')"
      "add_mset u (elements (m_buckets t')) = elements (?G[i := c])"
      using Suc.prems(1) j d True unfolding G1 by (auto simp: b_def)
    have "shift_loop T (Suc fuel) t i i = Inr t'"
      using t'(1) p True step j by (simp add: shift_loop.simps(2) bucket_at_eq b_def c_def)
    moreover have "add_mset v (elements (?G[i := c])) = add_mset u (elements ?G)"
      using elements_update [OF G(1), of c] Suc.prems(2-4) u by (simp add: c_def)
    then have "add_mset v (elements (m_buckets t')) = elements ?G"
      unfolding t'(6) [symmetric] by (simp add: add_mset_commute [of v u])
    ultimately show ?thesis using t' by blast
  qed
qed simp

end
