(* ===== verification/Hash_Refinement.thy ===== *)
theory Hash_Refinement
  imports Hash_Set Hash_Functions
begin

text \<open>
  The traits of the element types of hash tables, which satisfy the laws of \<open>hash_traits\<close>, and the properties of hash
  tables: the refinement of an abstract set, lookup, reserved capacity, removal by a predicate, and copies.
\<close>

subsection \<open>Traits\<close>

definition u32_traits :: "32 word traits" where
  "u32_traits = \<lparr>hash_of = u32_hash, equals = (=), may_have_slow_equality_check = False\<rparr>"

definition u64_traits :: "64 word traits" where
  "u64_traits = \<lparr>hash_of = u64_hash, equals = (=), may_have_slow_equality_check = False\<rparr>"

definition string_view_hash :: "string \<Rightarrow> 32 word" where
  "string_view_hash s = (if s = [] then 0 else string_hash s 0)"

definition string_view_traits :: "string traits" where
  "string_view_traits = \<lparr>hash_of = string_view_hash, equals = (=), may_have_slow_equality_check = True\<rparr>"

definition case_insensitive_string_view_traits :: "string traits" where
  "case_insensitive_string_view_traits =
     \<lparr>hash_of = (\<lambda>s. if s = [] then 0 else case_insensitive_string_hash s 0),
      equals = equals_ignoring_ascii_case, may_have_slow_equality_check = True\<rparr>"

interpretation u32: hash_traits u32_traits
  by unfold_locales (simp_all add: u32_traits_def)

interpretation u64: hash_traits u64_traits
  by unfold_locales (simp_all add: u64_traits_def)

interpretation string_view: hash_traits string_view_traits
  by unfold_locales (simp_all add: string_view_traits_def)

lemma same_ascii_lowercase_eq:
  "same_ascii_lowercase a b \<longleftrightarrow> map (\<lambda>c. to_ascii_lowercase (cp c)) a = map (\<lambda>c. to_ascii_lowercase (cp c)) b"
  by (simp only: same_ascii_lowercase_def list_all2_eq list_all2_map1 list_all2_map2)

lemma equals_ignoring_ascii_case_eq: "equals_ignoring_ascii_case a b = same_ascii_lowercase a b"
  by (auto simp: equals_ignoring_ascii_case_def same_ascii_lowercase_eq dest: map_eq_imp_length_eq)

interpretation case_insensitive: hash_traits case_insensitive_string_view_traits
proof
  fix v w
  assume "equals case_insensitive_string_view_traits v w"
  then have same: "same_ascii_lowercase v w"
    by (simp add: case_insensitive_string_view_traits_def equals_ignoring_ascii_case_eq)
  then have "v = [] \<longleftrightarrow> w = []" by (auto simp: same_ascii_lowercase_eq)
  with case_insensitive_string_hash_eq [OF same]
  show "hash_of case_insensitive_string_view_traits v = hash_of case_insensitive_string_view_traits w"
    by (simp add: case_insensitive_string_view_traits_def)
qed (simp_all add: case_insensitive_string_view_traits_def equals_ignoring_ascii_case_eq same_ascii_lowercase_eq)

subsection \<open>Sequences of operations\<close>

datatype 'a table_op =
    Op_set 'a existing_entry_behavior
  | Op_contains 'a
  | Op_remove 'a
  | Op_remove_all "'a \<Rightarrow> bool"
  | Op_ensure_capacity nat
  | Op_clear
  | Op_clear_with_capacity

datatype table_reply = Reply_set hash_set_result | Reply_bool bool | Reply_none

fun run_op :: "(nat \<Rightarrow> bool) \<Rightarrow> 'a traits \<Rightarrow> 'a hash_table \<Rightarrow> 'a table_op \<Rightarrow> (table_reply \<times> 'a hash_table) run" where
  "run_op alloc T t (Op_set v behavior) =
     bind_result (try_set alloc T t v behavior) (\<lambda>(r, t). Inr (Reply_set r, t))"
| "run_op alloc T t (Op_contains v) = bind_result (table_contains T t v) (\<lambda>b. Inr (Reply_bool b, t))"
| "run_op alloc T t (Op_remove v) = bind_result (table_remove T t v) (\<lambda>(b, t). Inr (Reply_bool b, t))"
| "run_op alloc T t (Op_remove_all p) = bind_result (remove_all_matching T t p) (\<lambda>(b, t). Inr (Reply_bool b, t))"
| "run_op alloc T t (Op_ensure_capacity n) = bind_result (try_ensure_capacity alloc T t n) (\<lambda>t. Inr (Reply_none, t))"
| "run_op alloc T t Op_clear = Inr (Reply_none, clear t)"
| "run_op alloc T t Op_clear_with_capacity = Inr (Reply_none, clear_with_capacity t)"

fun spec_op :: "('a \<Rightarrow> 'a \<Rightarrow> bool) \<Rightarrow> 'a multiset \<Rightarrow> 'a table_op \<Rightarrow> table_reply \<times> 'a multiset" where
  "spec_op eq M (Op_set v behavior) = map_prod Reply_set id (set_spec eq M v behavior)"
| "spec_op eq M (Op_contains v) = (Reply_bool (\<exists>u \<in># M. eq u v), M)"
| "spec_op eq M (Op_remove v) = map_prod Reply_bool id (remove_spec eq M v)"
| "spec_op eq M (Op_remove_all p) = (Reply_bool (\<exists>u \<in># M. p u), {#w \<in># M. \<not> p w#})"
| "spec_op eq M (Op_ensure_capacity n) = (Reply_none, M)"
| "spec_op eq M Op_clear = (Reply_none, {#})"
| "spec_op eq M Op_clear_with_capacity = (Reply_none, {#})"

fun run_ops :: "(nat \<Rightarrow> bool) \<Rightarrow> 'a traits \<Rightarrow> 'a hash_table \<Rightarrow> 'a table_op list \<Rightarrow> (table_reply list \<times> 'a hash_table) run" where
  "run_ops alloc T t [] = Inr ([], t)"
| "run_ops alloc T t (op # ops) =
     bind_result (run_op alloc T t op) (\<lambda>(r, t). bind_result (run_ops alloc T t ops) (\<lambda>(rs, t). Inr (r # rs, t)))"

fun spec_ops :: "('a \<Rightarrow> 'a \<Rightarrow> bool) \<Rightarrow> 'a multiset \<Rightarrow> 'a table_op list \<Rightarrow> table_reply list \<times> 'a multiset" where
  "spec_ops eq M [] = ([], M)"
| "spec_ops eq M (op # ops) = (let (r, M) = spec_op eq M op; (rs, M) = spec_ops eq M ops in (r # rs, M))"

context hash_traits
begin

lemma take_all_matching_correct:
  assumes "table_ok T t"
  shows "\<exists>ws t'. take_all_matching T t predicate = Inr (ws, t') \<and> table_ok T t' \<and>
    mset ws = filter_mset predicate (table_elements t) \<and>
    table_elements t' = filter_mset (\<lambda>w. \<not> predicate w) (table_elements t)"
  using take_matching_loop_correct [OF assms, of 0 predicate "capacity t + m_size t + 1" "[]"]
  by (simp add: take_all_matching_def)

lemma remove_all_matching_correct:
  assumes "table_ok T t"
  shows "\<exists>t'. remove_all_matching T t predicate = Inr (\<exists>u \<in># table_elements t. predicate u, t') \<and> table_ok T t' \<and>
    table_elements t' = filter_mset (\<lambda>w. \<not> predicate w) (table_elements t)"
proof -
  obtain ws t' where w: "take_all_matching T t predicate = Inr (ws, t')" "table_ok T t'"
    "mset ws = filter_mset predicate (table_elements t)"
    "table_elements t' = filter_mset (\<lambda>w. \<not> predicate w) (table_elements t)"
    using take_all_matching_correct [OF assms] by blast
  have "ws \<noteq> [] \<longleftrightarrow> (\<exists>u \<in># table_elements t. predicate u)"
    using w(3) by (metis (no_types, lifting) filter_mset_eq_conv mset_zero_iff multiset_nonemptyE mem_Collect_eq set_mset_filter set_mset_eq_empty_iff empty_iff)
  with w show ?thesis by (simp add: remove_all_matching_def take_all_matching_def)
qed

lemma contains_correct:
  "table_ok T t \<Longrightarrow> table_contains T t v = Inr (\<exists>u \<in># table_elements t. equals T u v)"
  using find_correct [of t v] in_elements [of _ "m_buckets t"]
  by (fastforce simp: table_contains_def split: option.splits)

lemma clear_correct:
  "table_ok T (clear t)" "table_elements (clear t) = {#}"
  by (simp_all add: clear_def table_ok_def empty_table_def)

lemma clear_with_capacity_correct:
  assumes "table_ok T t"
  shows "table_ok T (clear_with_capacity t)" "table_elements (clear_with_capacity t) = {#}"
  using assms table_capacity [OF assms]
  by (auto simp: clear_with_capacity_def table_ok_def ring_def buckets_ok_replicate)

lemma try_ensure_capacity_correct:
  assumes t: "table_ok T t"
  shows "try_ensure_capacity alloc T t n = Inl No_memory \<and> (\<exists>c. \<not> alloc c) \<or>
    (\<exists>t'. try_ensure_capacity alloc T t n = Inr t' \<and> table_ok T t' \<and> table_elements t' = table_elements t \<and>
       (n * 100) mod 2 ^ 64 div 70 + 1 \<le> capacity t')"
  using try_rehash_correct [OF t, of alloc "(n * 100) mod 2 ^ 64 div 70 + 1"] t
  by (auto simp: try_ensure_capacity_def Let_def)

lemma run_op_correct:
  assumes t: "table_ok T t"
  shows "run_op alloc T t op = Inl No_memory \<and> (\<exists>c. \<not> alloc c) \<or>
    (\<exists>r t'. run_op alloc T t op = Inr (r, t') \<and> table_ok T t' \<and>
       (r, table_elements t') = spec_op (equals T) (table_elements t) op)"
proof (cases op)
  case (Op_set v behavior)
  then show ?thesis using try_set_correct [OF t, of alloc v behavior] by (auto simp: map_prod_def split: prod.splits)
next
  case (Op_remove v)
  then show ?thesis using remove_correct [OF t, of v] by (auto simp: map_prod_def split: prod.splits)
next
  case (Op_ensure_capacity n)
  then show ?thesis using try_ensure_capacity_correct [OF t, of alloc n] by auto
qed (use t contains_correct [OF t] remove_all_matching_correct [OF t] clear_correct
    clear_with_capacity_correct [OF t] in auto)

lemma run_ops_correct:
  "table_ok T t \<Longrightarrow> run_ops alloc T t ops = Inl No_memory \<and> (\<exists>c. \<not> alloc c) \<or>
    (\<exists>rs t'. run_ops alloc T t ops = Inr (rs, t') \<and> table_ok T t' \<and>
       (rs, table_elements t') = spec_ops (equals T) (table_elements t) ops)"
proof (induction ops arbitrary: t)
  case (Cons op ops)
  show ?case using run_op_correct [OF Cons.prems, of alloc op]
  proof (elim disjE conjE exE)
    fix r t'
    assume "run_op alloc T t op = Inr (r, t')" "table_ok T t'"
      "(r, table_elements t') = spec_op (equals T) (table_elements t) op"
    with Cons.IH [of t'] show ?thesis by (auto split: prod.splits)
  qed auto
qed simp

lemma set_without_growing:
  assumes t: "table_ok T t" and n: "n * 100 < capacity t * 70"
  shows "m_size t + length vs \<le> n \<Longrightarrow>
    \<exists>t'. try_set_from alloc T t vs = Inr t' \<and> table_ok T t' \<and> capacity t' = capacity t"
  using assms
proof (induction vs arbitrary: t)
  case (Cons v vs)
  have "\<not> should_grow t" using Cons.prems(1,3) by (simp add: should_grow_def)
  from write_value_table [OF Cons.prems(2) this, of v Replace] obtain r t' where
    t': "write_value T t v Replace = Inr (r, t')" "table_ok T t'"
      "(r, table_elements t') = set_spec (equals T) (table_elements t) v Replace" "capacity t' = capacity t" by blast
  have "m_size t' \<le> m_size t + 1"
    using set_spec_size [OF t'(3)] table_size [OF t'(2)] table_size [OF Cons.prems(2)] by simp
  then have "m_size t' + length vs \<le> n" using Cons.prems(1) by simp
  then obtain t'' where "try_set_from alloc T t' vs = Inr t''" "table_ok T t''" "capacity t'' = capacity t'"
    using Cons.IH [of t'] t'(2,4) Cons.prems(3) by auto
  with t' \<open>\<not> should_grow t\<close> show ?case by (auto simp: try_set_def)
qed simp

lemma set_all_correct:
  "table_ok T t \<Longrightarrow> apart (equals T) (table_elements t + mset vs) \<Longrightarrow>
   set_all alloc T t vs = Inl Aborted \<and> (\<exists>c. \<not> alloc c) \<or>
   (\<exists>t'. set_all alloc T t vs = Inr t' \<and> table_ok T t' \<and> table_elements t' = table_elements t + mset vs)"
proof (induction vs arbitrary: t)
  case (Cons v vs)
  have "apart (equals T) (add_mset v (table_elements t + mset vs))" using Cons.prems(2) by simp
  then have new: "\<not> (\<exists>u \<in># table_elements t. equals T u v)" unfolding apart_add by auto
  show ?case using try_set_correct [OF Cons.prems(1), of alloc v Replace]
  proof (elim disjE conjE exE)
    fix r t'
    assume t': "try_set alloc T t v Replace = Inr (r, t')" "table_ok T t'"
      "(r, table_elements t') = set_spec (equals T) (table_elements t) v Replace"
    then have "table_elements t' = add_mset v (table_elements t)" using new by (auto simp: set_spec_def)
    with Cons.IH [OF t'(2)] Cons.prems(2) t'(1) show ?thesis
      by (auto simp: table_set_def must_run_def)
  qed (auto simp: table_set_def must_run_def)
qed simp

lemma copy_table_correct:
  assumes t: "table_ok T t"
  shows "copy_table alloc T t = Inl Aborted \<and> (\<exists>c. \<not> alloc c) \<or>
    (\<exists>t'. copy_table alloc T t = Inr t' \<and> table_ok T t' \<and> table_elements t' = table_elements t)"
proof -
  have empty: "table_ok T (empty_table :: 'a hash_table)" "table_elements (empty_table :: 'a hash_table) = {#}"
    by (simp_all add: table_ok_def empty_table_def)
  have vals: "table_values t = Inr (entries (m_buckets t))"
    using t table_values_eq [of T t] by (cases "m_buckets t = []")
      (auto simp: table_ok_def empty_table_def table_values_def table_indices_def table_begin_def iterate.simps)
  show ?thesis using try_rehash_correct [OF empty(1), of alloc "capacity t"]
  proof (elim disjE conjE exE)
    fix t0 :: "'a hash_table"
    assume t0: "try_rehash alloc T empty_table (capacity t) = Inr t0" "table_ok T t0"
      "table_elements t0 = table_elements (empty_table :: 'a hash_table)"
    with set_all_correct [OF t0(2), of "entries (m_buckets t)" alloc] table_apart [OF t] vals empty(2)
    show ?thesis by (simp add: copy_table_def rehash_def must_run_def)
  qed (auto simp: copy_table_def rehash_def must_run_def)
qed

lemma ensure_after_growing:
  assumes t: "table_ok T t" "\<not> should_grow t"
  shows "\<exists>v t'. bind_result (lookup_for_writing T t (hash_of T w) (\<lambda>c. equals T c w) behavior)
      (\<lambda>(result, i, probe_length, t).
        bind_result
         (case result of
            InsertedNewEntry \<Rightarrow>
              bind_result (write_slot t i w) (\<lambda>t. commit_inserted_bucket T t i (hash_of T w) probe_length)
          | ReplacedExistingEntry \<Rightarrow> write_slot t i w
          | KeptExistingEntry \<Rightarrow> Inr t) (\<lambda>t.
       bind_result (bucket_at t i) (\<lambda>b. bind_result (read_slot b) (\<lambda>v. Inr (v, t))))) = Inr (v, t') \<and>
    table_ok T t' \<and> table_elements t' = snd (set_spec (equals T) (table_elements t) w behavior) \<and>
    v \<in># table_elements t' \<and> equals T v w"
proof -
  let ?M = "table_elements t"
  have less: "(m_size t + 1) * 100 < length (m_buckets t) * 70"
    using t table_capacity [OF t(1)] by (simp add: should_grow_def)
  then have core: "core_ok T t" and room: "m_size t + 1 < length (m_buckets t)"
    using t(1) by (auto simp: core_ok_def table_ok_def split: if_splits)
  have ap: "apart (equals T) ?M" by (rule table_apart [OF t(1)])
  obtain r k p t' where w: "lookup_for_writing T t (hash_of T w) (\<lambda>c. equals T c w) behavior = Inr (r, k, p, t')"
    and cases: "r = InsertedNewEntry \<and> reserved T w t k p t' \<and> \<not> (\<exists>u \<in># ?M. equals T u w) \<or>
     r = (if behavior = Replace then ReplacedExistingEntry else KeptExistingEntry) \<and> t' = t \<and>
     k < length (m_buckets t) \<and> used (m_buckets t ! k) \<and> equals T (the (slot (m_buckets t ! k))) w"
    using find_for_writing [OF core, of w behavior] by blast
  from cases show ?thesis
  proof
    assume new: "r = InsertedNewEntry \<and> reserved T w t k p t' \<and> \<not> (\<exists>u \<in># ?M. equals T u w)"
    then have "apart (equals T) (add_mset w ?M)" using ap equals_sym by (auto simp: apart_add)
    with insert_reserved [OF core room] new obtain t'' where t'':
      "bind_result (write_slot t' k w) (\<lambda>t. commit_inserted_bucket T t k (hash_of T w) p) = Inr t''" "core_ok T t''"
      "table_elements t'' = add_mset w ?M" "length (m_buckets t'') = length (m_buckets t)" "m_size t'' = m_size t + 1"
      "k < length (m_buckets t'')" "slot (m_buckets t'' ! k) = Some w" by blast
    have "table_ok T t''" using less t''(4,5) by (intro core_table [OF t''(2)]) simp
    moreover have "w \<in> set (entries (m_buckets t''))" unfolding set_mset_mset [symmetric] t''(3) by simp
    ultimately show ?thesis using t''(2-) w new equals_refl [of w]
      by (intro exI [of _ w] exI [of _ t'']) (simp add: t''(1) bucket_at_eq read_slot_def set_spec_def del: bind_result_eq_Inr)
  next
    assume old: "r = (if behavior = Replace then ReplacedExistingEntry else KeptExistingEntry) \<and> t' = t \<and>
     k < length (m_buckets t) \<and> used (m_buckets t ! k) \<and> equals T (the (slot (m_buckets t ! k))) w"
    define u where "u = the (slot (m_buckets t ! k))"
    have u: "u \<in># ?M" "equals T u w" using old in_elements [of u "m_buckets t"] by (auto simp: u_def)
    then have ex: "\<exists>u \<in># ?M. equals T u w" by blast
    have "hash_of T w = hash_of T u" using equals_hash [OF u(2)] by simp
    from replace_slot [OF core _ _ u_def this apart_replace [OF ap u]] old obtain t'' where t'':
      "write_slot t k w = Inr t''" "core_ok T t''" "table_elements t'' = add_mset w (?M - {#u#})"
      "length (m_buckets t'') = length (m_buckets t)" "m_size t'' = m_size t" "slot (m_buckets t'' ! k) = Some w" by blast
    have "table_ok T t''" using less t''(4,5) by (intro core_table [OF t''(2)]) simp
    moreover have "slot (m_buckets t ! k) = Some u"
      using buckets_holds [of T "m_buckets t" k] core old by (auto simp: core_ok_def holds_def u_def)
    moreover have "w \<in> set (entries (m_buckets t''))" unfolding set_mset_mset [symmetric] t''(3) by simp
    ultimately show ?thesis using old w ex u t t'' filter_equal [OF ap u] equals_refl [of w]
      by (cases behavior) (simp_all add: bucket_at_eq read_slot_def set_spec_def)
  qed
qed

lemma ensure_correct:
  assumes t: "table_ok T t"
  shows "ensure alloc T t (hash_of T w) (\<lambda>c. equals T c w) w behavior = Inl Aborted \<and> (\<exists>c. \<not> alloc c) \<or>
    (\<exists>v t'. ensure alloc T t (hash_of T w) (\<lambda>c. equals T c w) w behavior = Inr (v, t') \<and> table_ok T t' \<and>
       table_elements t' = snd (set_spec (equals T) (table_elements t) w behavior) \<and>
       v \<in># table_elements t' \<and> equals T v w)"
proof -
  let ?grow = "if should_grow t then rehash alloc T t (max (capacity t * 2) 8) else Inr t"
  have grow: "?grow = must_run (if should_grow t then try_rehash alloc T t (max (capacity t * 2) 8) else Inr t)"
    by (simp add: rehash_def must_run_def)
  show ?thesis using grow_if_needed [OF t, of alloc]
  proof (elim disjE conjE exE)
    fix t0
    assume t0: "(if should_grow t then try_rehash alloc T t (max (capacity t * 2) 8) else Inr t) = Inr t0"
      "table_ok T t0" "table_elements t0 = table_elements t" "\<not> should_grow t0"
    have "?grow = Inr t0" unfolding grow t0(1) by (simp add: must_run_def)
    then show ?thesis using ensure_after_growing [OF t0(2,4), of w behavior] t0(3) by (auto simp: ensure_def)
  next
    fix c
    assume "(if should_grow t then try_rehash alloc T t (max (capacity t * 2) 8) else Inr t) = Inl No_memory" "\<not> alloc c"
    moreover from this(1) have "?grow = Inl Aborted" unfolding grow by (simp add: must_run_def)
    ultimately show ?thesis by (auto simp: ensure_def)
  qed
qed

end

subsection \<open>Properties\<close>

lemma empty_table_ok [simp]: "table_ok T empty_table" "m_buckets empty_table = []"
  by (simp_all add: table_ok_def empty_table_def)

text \<open>A table with three entries, on which the properties are applied.\<close>

lemma three_entries: "\<exists>t. table_ok u32_traits t \<and> table_elements t = {#1, 2, 3#}"
  using u32.run_ops_correct [OF empty_table_ok(1), of "\<lambda>_. True" "[Op_set 1 Keep, Op_set 2 Keep, Op_set 3 Replace]"]
  by (auto simp: set_spec_def u32_traits_def)



text \<open>
  C11: \<^verbatim>\<open>HashTable::find\<close> returns, and gives a used bucket with an equal entry exactly when the table has one.
\<close>

theorem table_find_finds:
  assumes "hash_traits T" "table_ok T t"
  shows "(\<exists>i. table_find T t v = Inr (Some i) \<and> i < capacity t \<and> used (m_buckets t ! i) \<and>
      (\<exists>u. slot (m_buckets t ! i) = Some u \<and> equals T u v)) \<and> (\<exists>u \<in># table_elements t. equals T u v) \<or>
    table_find T t v = Inr None \<and> \<not> (\<exists>u \<in># table_elements t. equals T u v)"
proof -
  obtain r where r: "table_find T t v = Inr r"
    "case r of
       None \<Rightarrow> \<not> (\<exists>u \<in># table_elements t. equals T u v)
     | Some i \<Rightarrow> i < length (m_buckets t) \<and> used (m_buckets t ! i) \<and> equals T (the (slot (m_buckets t ! i))) v"
    using hash_traits.find_correct [OF assms] by blast
  show ?thesis
  proof (cases r)
    case (Some i)
    then have i: "i < length (m_buckets t)" "used (m_buckets t ! i)" "equals T (the (slot (m_buckets t ! i))) v"
      using r(2) by auto
    then have "the (slot (m_buckets t ! i)) \<in># table_elements t" using in_elements [of _ "m_buckets t"] by blast
    moreover have "buckets_ok T (m_buckets t)" using assms(2) i(1) by (auto simp: table_ok_def split: if_splits)
    then have "holds T (length (m_buckets t)) i (m_buckets t ! i)" using buckets_holds i by blast
    ultimately show ?thesis
      using Some r(1) i hash_traits.table_capacity [OF assms] by (auto simp only: holds_def) auto
  qed (use r in simp)
qed

theorem table_find_finds_witness:
  "\<exists>t i. table_find u32_traits t 2 = Inr (Some i) \<and> slot (m_buckets t ! i) = Some 2"
proof -
  obtain t where t: "table_ok u32_traits t" "table_elements t = {#1, 2, 3#}" using three_entries by blast
  from table_find_finds [OF u32.hash_traits_axioms t(1), of 2] show ?thesis
    unfolding t(2) by (auto simp: u32_traits_def)
qed



text \<open>
  C13: \<^verbatim>\<open>HashTable::take_all_matching\<close> ends for every predicate, although it deletes from the table that it walks through; it
  returns each matching entry once and leaves exactly the others.
\<close>

theorem take_all_matching_takes:
  assumes "hash_traits T" "table_ok T t"
  shows "\<exists>ws t'. take_all_matching T t predicate = Inr (ws, t') \<and> table_ok T t' \<and>
    mset ws = filter_mset predicate (table_elements t) \<and>
    table_elements t' = filter_mset (\<lambda>w. \<not> predicate w) (table_elements t)"
  by (rule hash_traits.take_all_matching_correct [OF assms])

theorem take_all_matching_takes_witness:
  "\<exists>t ws t'. take_all_matching u32_traits t (\<lambda>w. w < 3) = Inr (ws, t') \<and> mset ws = {#1, 2#} \<and>
     table_elements t' = {#3#}"
proof -
  obtain t where t: "table_ok u32_traits t" "table_elements t = {#1, 2, 3#}" using three_entries by blast
  from take_all_matching_takes [OF u32.hash_traits_axioms t(1), of "\<lambda>w. w < 3"] show ?thesis
    unfolding t(2) by auto
qed

text \<open>
  C14: The copy constructor of \<^verbatim>\<open>HashTable\<close> gives a table with the same entries, unless an allocation fails.
\<close>

theorem copy_table_same:
  assumes "hash_traits T" "table_ok T t"
  shows "copy_table alloc T t = Inl Aborted \<and> (\<exists>c. \<not> alloc c) \<or>
    (\<exists>t'. copy_table alloc T t = Inr t' \<and> table_ok T t' \<and> table_elements t' = table_elements t)"
  by (rule hash_traits.copy_table_correct [OF assms])

theorem copy_table_same_witness:
  "\<exists>t t'. copy_table (\<lambda>_. True) u32_traits t = Inr t' \<and> table_elements t' = {#1, 2, 3#}"
proof -
  obtain t where t: "table_ok u32_traits t" "table_elements t = {#1, 2, 3#}" using three_entries by blast
  from copy_table_same [OF u32.hash_traits_axioms t(1), of "\<lambda>_. True"] show ?thesis unfolding t(2) by auto
qed


end
