(* ===== verification/Spec2Isabelle.thy ===== *)
theory Spec2Isabelle
  imports Url_Roundtrip Lexical_Path Hash_Refinement
begin

text \<open>
  \<^bold>\<open>The URL stack of the ladybone browser.\<close>

  \<^bold>\<open>The program.\<close>  \<^verbatim>\<open>src/Libraries/LibURL\<close> parses, represents and serializes URLs, hosts, origins and
  sites; it rests on the byte, character, string and formatting routines of \<^verbatim>\<open>src/AK\<close>.  A string of bytes
  enters \<^verbatim>\<open>Parser::basic_parse\<close>, is decoded and stripped, and runs through a state machine of 21 states, which
  calls the host parser, the percent-encoder and the number parser; the result is a URL record, from which
  serializations, origins and sites are computed.

  \<^bold>\<open>Representation.\<close>  A byte is a \<^typ>\<open>char\<close>, a string of bytes a \<^typ>\<open>string\<close>, a code point a natural number
  that the code keeps below \<^term>\<open>0x110000::nat\<close>, a machine integer a word of its width wherever an operation can
  wrap.  A fallible operation returns a value of \<open>'a result\<close>: \<^term>\<open>Inl Failure\<close> is an error or an absent value
  that the code returns, \<^term>\<open>Inl Verify_failed\<close> is an assertion that does not hold (\<^verbatim>\<open>VERIFY\<close>, \<^verbatim>\<open>MUST\<close>, an index
  out of range, the value of an empty \<^verbatim>\<open>Optional\<close>), which ends the process.  Third-party code (simdutf, fast_float,
  ICU, the generated public suffix table and the text encoders) is an argument: the record \<open>ext\<close>, with the
  documented laws in the locale \<open>external_laws\<close>, which \<open>reference_ext\<close> satisfies.

  \<^bold>\<open>Theories, from the bottom up.\<close>
  \<^item> \<open>Prelude\<close>: results, errors, named collections, lemmas on lists and words that all theories share.
  \<^item> \<open>Characters\<close>: \<^verbatim>\<open>AK/CharacterTypes.h\<close>.
  \<^item> \<open>Utf8\<close>: the encoder of \<^verbatim>\<open>AK/UnicodeUtils.h\<close> and the decoding iterator of \<^verbatim>\<open>AK/Utf8View.h\<close>; decoding inverts
    encoding, and well-formed strings are exactly the encodings of scalar values.
  \<^item> \<open>External\<close>: the parameters, their laws and a reference instance.
  \<^item> \<open>Kmp_Search\<close>, \<open>Mem_Search\<close>: \<^verbatim>\<open>AK/MemMem.h\<close>; the Knuth-Morris-Pratt search and the word-parallel search
    return the first occurrence.
  \<^item> \<open>Strings\<close>: the part of \<^verbatim>\<open>AK/StringView\<close>, \<^verbatim>\<open>AK/StringUtils\<close> and \<^verbatim>\<open>AK/String\<close> that the URL code calls.
  \<^item> \<open>Lexical_Path\<close>: \<^verbatim>\<open>AK/LexicalPath\<close>; canonical paths are fixed points, relative paths lead back.
  \<^item> \<open>Hash_Functions\<close>: \<^verbatim>\<open>AK/HashFunctions.h\<close> and \<^verbatim>\<open>AK/StringHash.h\<close>.
  \<^item> \<open>Hash_Table\<close>: the unordered \<^verbatim>\<open>AK/HashTable.h\<close>, with faults as values; \<open>Robin_Hood\<close>: the invariant of its buckets and
    what each loop does under it; \<open>Hash_Set\<close>: the locale \<open>hash_traits\<close> of element types and the effect of every
    operation on the entries; \<open>Hash_Refinement\<close>: the traits of integers and strings, which satisfy the locale, the
    refinement of an abstract set by every sequence of operations, and bounds on reserved capacity.
  \<^item> \<open>Number_Format\<close>: \<^verbatim>\<open>AK/Format.cpp\<close> for unsigned integers; printed numbers are read back.
  \<^item> \<open>Percent\<close>: percent-encode sets, encoding and decoding of \<^verbatim>\<open>LibURL/URL.cpp\<close>; round trip and idempotence.
  \<^item> \<open>Ip_Addresses\<close>: \<^verbatim>\<open>AK/IPv4Address.h\<close> and \<^verbatim>\<open>AK/IPv6Address.h\<close>.
  \<^item> \<open>Host\<close>: \<^verbatim>\<open>LibURL/Host.cpp\<close> with the lookup code of the public suffix generator.
  \<^item> \<open>Host_Parser\<close>: the host parsers of \<^verbatim>\<open>LibURL/Parser.cpp\<close> and \<^verbatim>\<open>LibUnicode/IDNA.cpp\<close>; safety of the host
    parser and round trips of both kinds of addresses.
  \<^item> \<open>Origin_Site\<close>: \<^verbatim>\<open>LibURL/Origin.cpp\<close>, \<^verbatim>\<open>LibURL/Site.cpp\<close>, and the trustworthiness of an origin.
  \<^item> \<open>Url\<close>: the URL record with its accessors, setters and serializers.
  \<^item> \<open>Url_Parser\<close>: the state machine, one definition per state, its loop and \<^verbatim>\<open>Parser::basic_parse\<close>.
  \<^item> \<open>Url_Invariant\<close>: the invariant \<open>url_ok\<close> of URL records.
  \<^item> \<open>Parser_Loop\<close>: the locale \<open>loop_invariant\<close>, which lifts an invariant of one round to the whole loop.
  \<^item> \<open>Parser_Authority\<close>, \<open>Parser_Rounds\<close>, \<open>Url_Parser_Safety\<close>: the invariant of every state of the parser, one
    lemma per state, and the safety theorem.
  \<^item> \<open>Host_Roundtrip\<close>, \<open>Parser_Runs\<close>, \<open>Authority_Runs\<close>, \<open>Url_Roundtrip\<close>: what the host parser and the loop do on
    the text of each part of a URL, and the theorem that parsing inverts serialization.

  \<^bold>\<open>Termination.\<close>  No definition uses fuel.  The loop of the URL parser is a recursive function whose termination
  proof is a lexicographic measure: the phase of the state (the scheme state starts over once), then the input that
  is left, then the rank of the state among those that can be entered without advancing.  The loops of the
  Knuth-Morris-Pratt search, which end only on tables of the right form, are partial functions, and the lemmas
  show that they return.

  \<^bold>\<open>Not modelled.\<close>  Validation errors of the parser, which only produce debug output; memory management,
  reference counting and allocation failure; the hash function and the storage layout of strings; the Windows
  variants of file paths.  Everything outside the URL stack is listed in the manifest with the reason.
\<close>

end
